(* ===== verification/UB_Prelude.thy ===== *)
theory UB_Prelude
  imports Main "HOL-Library.Word"
begin

text \<open>
  Shared vocabulary of the development: the machine types of the 32-bit ARM
  target, bytes and memory, NUL-terminated strings, and the generic facts on
  lists, options and words that the component theories use.

  \<^item> \<open>u8\<close>, \<open>u16\<close>, \<open>u32\<close>, \<open>u64\<close> are the C types of those widths;
    \<open>ulong\<close>, \<open>lbaint\<close> (block numbers) and \<open>addr\<close> are 32 bits wide.
  \<^item> \<open>mem\<close> is the address space, a total map from addresses to bytes.
  \<^item> C text is a list of \<open>char\<close>; the terminating NUL is either written in the list
    or is its end, so a literal such as \<open>''abc''\<close> stands for itself.
\<close>

unbundle bit_operations_syntax

section \<open>Machine types\<close>

type_synonym u8 = "8 word"
type_synonym u16 = "16 word"
type_synonym u32 = "32 word"
type_synonym u64 = "64 word"
type_synonym ulong = "32 word"
type_synonym lbaint = "32 word"
type_synonym addr = "32 word"
type_synonym mem = "addr \<Rightarrow> u8"

named_theorems ub_defs \<open>unfolding of small definitions\<close>
named_theorems ub_bounds \<open>bounds on machine integers\<close>

lemma unat_u8_less [ub_bounds]: "unat (w :: u8) < 2 ^ 8"
proof -
  have "unat w < 2 ^ LENGTH(8)" by (rule unsigned_less)
  then show ?thesis by simp
qed

lemma unat_u16_less [ub_bounds]: "unat (w :: u16) < 2 ^ 16"
proof -
  have "unat w < 2 ^ LENGTH(16)" by (rule unsigned_less)
  then show ?thesis by simp
qed

lemma unat_u32_less [ub_bounds]: "unat (w :: u32) < 2 ^ 32"
proof -
  have "unat w < 2 ^ LENGTH(32)" by (rule unsigned_less)
  then show ?thesis by simp
qed

section \<open>Characters and NUL-terminated text\<close>

abbreviation NUL :: char where
  "NUL \<equiv> CHR 0x00"

definition byte_of_char :: "char \<Rightarrow> u8" where
  "byte_of_char c = of_char c"

definition char_of_byte :: "u8 \<Rightarrow> char" where
  "char_of_byte b = char_of (unat b)"

definition peek :: "char list \<Rightarrow> char" where
  "peek s = (case s of [] \<Rightarrow> NUL | c # _ \<Rightarrow> c)"

definition cstr :: "char list \<Rightarrow> string" where
  "cstr = takeWhile (\<lambda>c. c \<noteq> NUL)"

lemma peek_simps [simp]: "peek [] = NUL" "peek (c # cs) = c"
  by (simp_all add: peek_def)

lemma cstr_simps [simp]:
  "cstr [] = []" "cstr (c # cs) = (if c = NUL then [] else c # cstr cs)"
  by (simp_all add: cstr_def)

lemma NUL_notin_cstr [simp]: "NUL \<notin> set (cstr s)"
  by (induction s) auto

lemma cstr_id: "NUL \<notin> set s \<Longrightarrow> cstr s = s"
  by (induction s) auto

lemma cstr_cstr [simp]: "cstr (cstr s) = cstr s"
  by (induction s) auto

lemma cstr_append_NUL: "NUL \<notin> set s \<Longrightarrow> cstr (s @ NUL # t) = s"
  by (induction s) auto

lemma length_cstr_le: "length (cstr s) \<le> length s"
  by (induction s) auto

lemma of_char_less_256 [simp, ub_bounds]: "(of_char c :: nat) < 256"
  by (metis of_char_mod_256 mod_less_divisor zero_less_numeral)

lemma unat_byte_of_char [simp]: "unat (byte_of_char c) = of_char c"
proof -
  have "byte_of_char c = of_nat (of_char c)"
    by (simp add: byte_of_char_def of_nat_of_char)
  then show ?thesis by (simp add: unat_of_nat)
qed

lemma byte_of_char_inject [simp]: "byte_of_char c = byte_of_char d \<longleftrightarrow> c = d"
  by (metis of_char_eq_iff unat_byte_of_char)

lemma char_of_byte_of_char [simp]: "char_of_byte (byte_of_char c) = c"
  by (simp add: char_of_byte_def)

lemma byte_of_char_of_byte [simp]: "byte_of_char (char_of_byte b) = b"
proof -
  have "unat (byte_of_char (char_of_byte b)) = unat b mod 256"
    by (simp add: char_of_byte_def)
  also have "\<dots> = unat b"
    using unat_u8_less [of b] by simp
  finally show ?thesis by (rule unsigned_word_eqI)
qed

section \<open>Memory\<close>

text \<open>
  \<open>mem_write m a bs\<close> stores the bytes \<open>bs\<close> from address \<open>a\<close> on; addresses wrap
  at \<open>2 ^ 32\<close>. \<open>mem_read m a n\<close> reads \<open>n\<close> bytes.
\<close>

definition mem_write :: "mem \<Rightarrow> addr \<Rightarrow> u8 list \<Rightarrow> mem" where
  "mem_write m a bs = (\<lambda>x. if unat (x - a) < length bs then bs ! unat (x - a) else m x)"

definition mem_read :: "mem \<Rightarrow> addr \<Rightarrow> nat \<Rightarrow> u8 list" where
  "mem_read m a n = map (\<lambda>i. m (a + of_nat i)) [0..<n]"

lemma length_mem_read [simp]: "length (mem_read m a n) = n"
  by (simp add: mem_read_def)

lemma mem_write_Nil [simp]: "mem_write m a [] = m"
  by (simp add: mem_write_def)

lemma unat_of_nat_u32: "n < 2 ^ 32 \<Longrightarrow> unat (of_nat n :: 32 word) = n"
  by (simp add: unat_of_nat)

lemma mem_read_write:
  assumes "length bs \<le> 2 ^ 32"
  shows "mem_read (mem_write m a bs) a (length bs) = bs"
proof (rule nth_equalityI)
  fix i
  assume "i < length (mem_read (mem_write m a bs) a (length bs))"
  then have i: "i < length bs" by simp
  with assms have "unat (of_nat i :: 32 word) = i"
    by (intro unat_of_nat_u32) simp
  with i show "mem_read (mem_write m a bs) a (length bs) ! i = bs ! i"
    by (simp add: mem_read_def mem_write_def)
qed simp

lemma mem_write_other:
  "length bs \<le> unat (x - a) \<Longrightarrow> mem_write m a bs x = m x"
  by (simp add: mem_write_def)

lemma mem_write_append:
  assumes "length bs + length cs \<le> 2 ^ 32"
  shows "mem_write (mem_write m a bs) (a + of_nat (length bs)) cs = mem_write m a (bs @ cs)"
proof
  fix x
  let ?d = "unat (x - a)"
  have d: "?d < 2 ^ 32" by (rule unat_u32_less)
  have *: "unat (x - (a + of_nat (length bs))) =
      (if length bs \<le> ?d then ?d - length bs else ?d + 2 ^ 32 - length bs)"
    if "0 < length cs"
  proof -
    have "unat (of_nat (length bs) :: 32 word) = length bs"
      using assms that by (intro unat_of_nat_u32) linarith
    then show ?thesis
      by (simp add: diff_diff_eq [symmetric] unat_sub_if_size word_size)
  qed
  show "mem_write (mem_write m a bs) (a + of_nat (length bs)) cs x = mem_write m a (bs @ cs) x"
  proof (cases "cs = []")
    case False
    with * assms d show ?thesis
      by (auto simp: mem_write_def nth_append)
  qed simp
qed

text \<open>Unsigned arithmetic that does not wrap.\<close>

lemma u32_plus: "unat a + unat b < 2 ^ 32 \<Longrightarrow> unat (a + b :: u32) = unat a + unat b"
  by (simp add: unat_word_ariths)

lemma u32_times: "unat a * unat b < 2 ^ 32 \<Longrightarrow> unat (a * b :: u32) = unat a * unat b"
  by (simp add: unat_word_ariths)

lemma u32_minus: "unat b \<le> unat a \<Longrightarrow> unat (a - b :: u32) = unat a - unat b"
  by (simp add: unat_sub_if_size)

text \<open>Rounding down to a multiple of a power of two by masking.\<close>

lemma unat_align_down: "unat ((w :: u32) AND NOT (2 ^ k - 1)) = unat w div 2 ^ k * 2 ^ k"
proof -
  have le: "unat w div 2 ^ k * 2 ^ k < 2 ^ 32"
    by (rule le_less_trans [OF div_times_less_eq_dividend unat_u32_less])
  have "unat (drop_bit k w) = unat w div 2 ^ k"
    unfolding unat_drop_bit_eq by (rule drop_bit_eq_div)
  then have "drop_bit k w = of_nat (unat w div 2 ^ k)"
    using unat_of_nat_u32 [of "unat w div 2 ^ k"] by (metis of_nat_unat ucast_id)
  moreover have "w AND NOT (2 ^ k - 1) = push_bit k (drop_bit k w)"
    unfolding mask_eq_exp_minus_1 [symmetric] by (rule bit_word_eqI) (auto simp: bit_simps)
  ultimately have "w AND NOT (2 ^ k - 1) = of_nat (unat w div 2 ^ k * 2 ^ k)"
    by (simp add: push_bit_eq_mult)
  then show ?thesis using unat_of_nat_u32 [OF le] by simp
qed

end
