(* ===== verification/C_String.thy ===== *)
theory C_String
  imports UB_Prelude "HOL-Library.Sublist"
begin

text \<open>
  The string routines of \<^verbatim>\<open>lib/string.c\<close> on buffers. A buffer is the list of
  characters from a pointer to the end of its object; a read at the end of the list
  gives NUL (the terminator of a literal), a write there is an overflow of the object
  and gives \<open>None\<close>. Pointers into a searched string are returned as the suffix they
  point at. \<open>cstr\<close> abstracts a buffer to the text it holds, and the lemmas below state
  each routine over that abstraction.
\<close>

section \<open>Length and comparison\<close>

fun strlen :: "char list \<Rightarrow> nat" where
  "strlen [] = 0"
| "strlen (c # cs) = (if c = NUL then 0 else Suc (strlen cs))"

fun strnlen :: "char list \<Rightarrow> nat \<Rightarrow> nat" where
  "strnlen s 0 = 0"
| "strnlen [] (Suc n) = 0"
| "strnlen (c # cs) (Suc n) = (if c = NUL then 0 else Suc (strnlen cs n))"

text \<open>The difference of two characters, stored in a \<open>signed char\<close>.\<close>

definition schar_diff :: "char \<Rightarrow> char \<Rightarrow> int" where
  "schar_diff c d = sint (byte_of_char c - byte_of_char d)"

fun strcmp :: "char list \<Rightarrow> char list \<Rightarrow> int" where
  "strcmp [] ct = schar_diff NUL (peek ct)"
| "strcmp (c # cs) ct =
     (let res = schar_diff c (peek ct) in
      if res \<noteq> 0 \<or> c = NUL then res else strcmp cs (tl ct))"

fun strncmp :: "char list \<Rightarrow> char list \<Rightarrow> nat \<Rightarrow> int" where
  "strncmp cs ct 0 = 0"
| "strncmp [] ct (Suc count) = schar_diff NUL (peek ct)"
| "strncmp (c # cs) ct (Suc count) =
     (let res = schar_diff c (peek ct) in
      if res \<noteq> 0 \<or> c = NUL then res else strncmp cs (tl ct) count)"

text \<open>\<open>memcmp\<close> compares as \<open>unsigned char\<close>; \<open>count\<close> never exceeds either area.\<close>

fun memcmp :: "char list \<Rightarrow> char list \<Rightarrow> nat \<Rightarrow> int" where
  "memcmp su1 su2 0 = 0"
| "memcmp su1 su2 (Suc count) =
     (let res = int (of_char (peek su1)) - int (of_char (peek su2)) in
      if res \<noteq> 0 then res else memcmp (tl su1) (tl su2) count)"

section \<open>Searching\<close>

fun strchr :: "char list \<Rightarrow> char \<Rightarrow> char list option" where
  "strchr [] c = (if c = NUL then Some [] else None)"
| "strchr (x # xs) c =
     (if x = c then Some (x # xs) else if x = NUL then None else strchr xs c)"

fun strspn :: "char list \<Rightarrow> char list \<Rightarrow> nat" where
  "strspn [] accept = 0"
| "strspn (c # cs) accept =
     (if c = NUL then 0
      else if c \<in> set (cstr accept) then Suc (strspn cs accept) else 0)"

fun strpbrk :: "char list \<Rightarrow> char list \<Rightarrow> char list option" where
  "strpbrk [] ct = None"
| "strpbrk (c # cs) ct =
     (if c = NUL then None
      else if c \<in> set (cstr ct) then Some (c # cs) else strpbrk cs ct)"

text \<open>
  \<open>strsep(&s, ct)\<close>: the token and the new value of \<open>s\<close> (\<open>None\<close> for the null pointer).
\<close>

fun strsep_token :: "char list \<Rightarrow> char list \<Rightarrow> string" where
  "strsep_token [] ct = []"
| "strsep_token (c # cs) ct =
     (if c = NUL \<or> c \<in> set (cstr ct) then [] else c # strsep_token cs ct)"

definition strsep :: "char list option \<Rightarrow> char list \<Rightarrow> string option \<times> char list option" where
  "strsep s ct =
     (case s of
        None \<Rightarrow> (None, None)
      | Some sbegin \<Rightarrow> (Some (strsep_token sbegin ct), map_option tl (strpbrk sbegin ct)))"

fun strstr_loop :: "nat \<Rightarrow> char list \<Rightarrow> char list \<Rightarrow> nat \<Rightarrow> char list option" where
  "strstr_loop l1 s1 s2 l2 =
     (if l1 < l2 then None
      else if memcmp s1 s2 l2 = 0 then Some s1
      else if l1 = 0 then None
      else strstr_loop (l1 - 1) (tl s1) s2 l2)"

declare strstr_loop.simps [simp del]

definition strstr :: "char list \<Rightarrow> char list \<Rightarrow> char list option" where
  "strstr s1 s2 = (let l2 = strlen s2 in if l2 = 0 then Some s1 else strstr_loop (strlen s1) s1 s2 l2)"

section \<open>Copying\<close>

fun strcpy :: "char list \<Rightarrow> char list \<Rightarrow> char list option" where
  "strcpy [] src = None"
| "strcpy (d # ds) src =
     (if peek src = NUL then Some (NUL # ds)
      else map_option (Cons (peek src)) (strcpy ds (tl src)))"

fun strncpy :: "char list \<Rightarrow> char list \<Rightarrow> nat \<Rightarrow> char list option" where
  "strncpy ds src 0 = Some ds"
| "strncpy [] src (Suc count) = None"
| "strncpy (d # ds) src (Suc count) =
     (if peek src = NUL then Some (NUL # ds)
      else map_option (Cons (peek src)) (strncpy ds (tl src) count))"

fun strcat :: "char list \<Rightarrow> char list \<Rightarrow> char list option" where
  "strcat [] src = None"
| "strcat (d # ds) src =
     (if d \<noteq> NUL then map_option (Cons d) (strcat ds src) else strcpy (d # ds) src)"

text \<open>The inner loop of \<open>strncat\<close>: copy, and terminate when the count runs out.\<close>

fun strncat_copy :: "char list \<Rightarrow> char list \<Rightarrow> nat \<Rightarrow> char list option" where
  "strncat_copy [] src count = None"
| "strncat_copy (d # ds) src count =
     (if peek src = NUL then Some (NUL # ds)
      else map_option (Cons (peek src))
        (if count - 1 = 0 then (case ds of [] \<Rightarrow> None | _ # ds' \<Rightarrow> Some (NUL # ds'))
         else strncat_copy ds (tl src) (count - 1)))"

fun strncat_skip :: "char list \<Rightarrow> char list \<Rightarrow> nat \<Rightarrow> char list option" where
  "strncat_skip [] src count = None"
| "strncat_skip (d # ds) src count =
     (if d \<noteq> NUL then map_option (Cons d) (strncat_skip ds src count)
      else strncat_copy (d # ds) src count)"

definition strncat :: "char list \<Rightarrow> char list \<Rightarrow> nat \<Rightarrow> char list option" where
  "strncat dest src count = (if count = 0 then Some dest else strncat_skip dest src count)"

definition strlcpy :: "char list \<Rightarrow> char list \<Rightarrow> nat \<Rightarrow> (char list \<times> nat) option" where
  "strlcpy dest src sz =
     (let ret = strlen src in
      if sz = 0 then Some (dest, ret)
      else let len = (if ret \<ge> sz then sz - 1 else ret) in
        if len < length dest
        then Some (take len src @ NUL # drop (Suc len) dest, ret) else None)"

section \<open>What the routines compute\<close>

lemma strlen_cstr: "strlen s = length (cstr s)"
  by (induction s) auto

lemma strlen_literal [simp]: "NUL \<notin> set s \<Longrightarrow> strlen s = length s"
  by (simp add: strlen_cstr cstr_id)

lemma strnlen_min: "strnlen s n = min (strlen s) n"
  by (induction s n rule: strnlen.induct) auto

lemma schar_diff_eq_0 [simp]: "schar_diff c d = 0 \<longleftrightarrow> c = d"
  unfolding schar_diff_def by (metis byte_of_char_inject right_minus_eq signed_eq_0_iff)

lemma cstr_tl: "peek t \<noteq> NUL \<Longrightarrow> cstr t = peek t # cstr (tl t)"
  by (cases t) auto

lemma cstr_Nil_iff: "cstr t = [] \<longleftrightarrow> peek t = NUL"
  by (cases t) auto

lemma strcmp_eq_0_iff [simp]: "strcmp s t = 0 \<longleftrightarrow> cstr s = cstr t"
proof (induction s t rule: strcmp.induct)
  case (1 ct)
  then show ?case using cstr_Nil_iff [of ct] by auto
next
  case (2 c cs ct)
  then show ?case
    by (cases "peek ct = NUL") (auto simp: Let_def cstr_tl, auto simp: cstr_Nil_iff [THEN iffD2])
qed

lemma strncmp_eq_0_iff: "strncmp s t n = 0 \<longleftrightarrow> take n (cstr s) = take n (cstr t)"
proof (induction s t n rule: strncmp.induct)
  case (2 ct count)
  then show ?case using cstr_Nil_iff [of ct] by (cases "cstr ct") auto
next
  case (3 c cs ct count)
  then show ?case
    by (cases "peek ct = NUL") (auto simp: Let_def cstr_tl, auto simp: cstr_Nil_iff [THEN iffD2])
qed simp

lemma strncmp_prefix:
  "strncmp s t (strlen s) = 0 \<longleftrightarrow> prefix (cstr s) (cstr t)"
  by (auto simp: strncmp_eq_0_iff strlen_cstr prefix_def) (metis append_take_drop_id)

lemma strchr_None_iff: "c \<noteq> NUL \<Longrightarrow> strchr s c = None \<longleftrightarrow> c \<notin> set (cstr s)"
  by (induction s) auto

lemma strchr_Some: "strchr s c = Some r \<Longrightarrow> r = dropWhile (\<lambda>x. x \<noteq> c) s \<and> peek r = c"
  by (induction s) (auto split: if_splits)

lemma strspn_takeWhile: "strspn s accept = length (takeWhile (\<lambda>c. c \<in> set (cstr accept)) (cstr s))"
  by (induction s) auto

lemma strpbrk_None_iff: "strpbrk s ct = None \<longleftrightarrow> set (cstr s) \<inter> set (cstr ct) = {}"
  by (induction s) auto

lemma strsep_token_takeWhile:
  "strsep_token s ct = takeWhile (\<lambda>c. c \<notin> set (cstr ct)) (cstr s)"
  by (induction s) auto

lemma strpbrk_Some:
  "strpbrk s ct = Some r \<Longrightarrow> s = strsep_token s ct @ r \<and> peek r \<in> set (cstr ct)"
  by (induction s) (auto split: if_splits)

text \<open>
  \<open>strsep\<close> loses nothing: the token, the delimiter and the rest make up the string.
\<close>

lemma strsep_Some:
  assumes "strsep (Some s) ct = (tok, Some rest)"
  shows "\<exists>d \<in> set (cstr ct). s = the tok @ d # rest"
proof -
  from assms obtain r where r: "strpbrk s ct = Some r" "rest = tl r" "tok = Some (strsep_token s ct)"
    by (auto simp: strsep_def)
  with strpbrk_Some [OF r(1)] show ?thesis
    by (cases r) (auto simp: NUL_notin_cstr)
qed

lemma strcpy_eq:
  "strcpy d s = (if strlen s < length d then Some (cstr s @ NUL # drop (Suc (strlen s)) d) else None)"
proof (induction d s rule: strcpy.induct)
  case (2 d ds src)
  then show ?case by (cases src) auto
qed simp

lemma strncpy_long:
  "n \<le> strlen s \<Longrightarrow> n \<le> length d \<Longrightarrow> strncpy d s n = Some (take n (cstr s) @ drop n d)"
proof (induction d s n rule: strncpy.induct)
  case (3 d ds src count)
  then show ?case by (cases src) (auto split: if_splits)
qed auto

lemma strncpy_short:
  "strlen s < n \<Longrightarrow> strlen s < length d \<Longrightarrow>
   strncpy d s n = Some (cstr s @ NUL # drop (Suc (strlen s)) d)"
proof (induction d s n rule: strncpy.induct)
  case (3 d ds src count)
  then show ?case by (cases src) (auto split: if_splits)
qed auto

lemma strncat_copy_eq:
  "0 < n \<Longrightarrow> strncat_copy d s n =
     (if min (strlen s) n < length d
      then Some (take n (cstr s) @ NUL # drop (Suc (min (strlen s) n)) d) else None)"
proof (induction d s n rule: strncat_copy.induct)
  case (2 d ds src count)
  then show ?case
    by (cases src; cases count; cases ds) (auto simp: gr0_conv_Suc split: if_splits)
qed auto

lemma strncat_skip_eq:
  "0 < n \<Longrightarrow> strlen d < length d \<Longrightarrow> strncat_skip d s n =
     (if strlen d + min (strlen s) n < length d
      then Some (cstr d @ take n (cstr s) @ NUL # drop (Suc (strlen d + min (strlen s) n)) d) else None)"
  by (induction d) (auto simp: strncat_copy_eq simp del: strncat_copy.simps)

text \<open>
  \<open>strncat\<close> on a terminated buffer: it stays inside the object exactly when the old
  text, the copied characters and the terminator fit, and then appends at most \<open>n\<close>
  characters.
\<close>

lemma strncat_eq:
  assumes "strlen d < length d"
  shows "0 < n \<Longrightarrow> strncat d s n =
     (if strlen d + min (strlen s) n < length d
      then Some (cstr d @ take n (cstr s) @ NUL # drop (Suc (strlen d + min (strlen s) n)) d)
      else None)"
  using assms by (simp add: strncat_def strncat_skip_eq)

lemma cstr_take [simp]: "cstr (take n (cstr s)) = take n (cstr s)"
  by (rule cstr_id) (meson NUL_notin_cstr in_set_takeD)

lemma cstr_app_take: "cstr (cstr d @ take n (cstr s) @ NUL # r) = cstr d @ take n (cstr s)"
  by (metis NUL_notin_cstr Un_iff append.assoc cstr_append_NUL in_set_takeD set_append)

lemma strncat_text:
  assumes "strlen d < length d" and "strncat d s n = Some r"
  shows "cstr r = cstr d @ take n (cstr s) \<and> length r = length d"
proof (cases "n = 0")
  case True
  with assms(2) show ?thesis by (simp add: strncat_def)
next
  case False
  with assms show ?thesis
    by (auto simp: strncat_eq cstr_app_take strlen_cstr split: if_splits)
qed

lemma memcmp_eq_0_iff:
  "n \<le> length s \<Longrightarrow> n \<le> length t \<Longrightarrow> memcmp s t n = 0 \<longleftrightarrow> take n s = take n t"
proof (induction s t n rule: memcmp.induct)
  case (2 su1 su2 count)
  then show ?case by (cases su1; cases su2) (auto simp: Let_def)
qed simp

lemma take_cstr: "n \<le> strlen s \<Longrightarrow> take n (cstr s) = take n s"
  by (induction s arbitrary: n) (auto simp: take_Cons split: nat.splits if_splits)

lemma memcmp_strlen:
  assumes "strlen s2 \<le> strlen s1"
  shows "memcmp s1 s2 (strlen s2) = 0 \<longleftrightarrow> prefix (cstr s2) (cstr s1)"
proof -
  have "strlen s1 \<le> length s1" "strlen s2 \<le> length s2"
    by (simp_all add: strlen_cstr length_cstr_le)
  with assms have "memcmp s1 s2 (strlen s2) = 0 \<longleftrightarrow> take (strlen s2) s1 = take (strlen s2) s2"
    by (intro memcmp_eq_0_iff) auto
  also have "\<dots> \<longleftrightarrow> take (length (cstr s2)) (cstr s1) = cstr s2"
    using assms by (simp add: take_cstr [symmetric]) (simp add: strlen_cstr)
  also have "\<dots> \<longleftrightarrow> prefix (cstr s2) (cstr s1)"
    by (metis append_eq_conv_conj prefix_def take_is_prefix)
  finally show ?thesis .
qed

lemma strstr_loop_None_iff:
  "n = strlen s1 \<Longrightarrow> 0 < strlen s2 \<Longrightarrow>
   strstr_loop n s1 s2 (strlen s2) = None \<longleftrightarrow> \<not> sublist (cstr s2) (cstr s1)"
proof (induction s1 arbitrary: n)
  case Nil
  then show ?case by (subst strstr_loop.simps) (auto simp: strlen_cstr)
next
  case (Cons c cs)
  show ?case
  proof (cases "strlen (c # cs) < strlen s2")
    case True
    then show ?thesis using Cons.prems
      by (subst strstr_loop.simps) (auto simp: strlen_cstr dest: sublist_length_le)
  next
    case False
    with Cons.prems have c: "c \<noteq> NUL" by auto
    with False Cons show ?thesis
      by (subst strstr_loop.simps) (auto simp: memcmp_strlen sublist_Cons_right)
  qed
qed

lemma strstr_None_iff: "strstr s1 s2 = None \<longleftrightarrow> \<not> sublist (cstr s2) (cstr s1)"
proof (cases "strlen s2 = 0")
  case True
  then show ?thesis by (simp add: strstr_def strlen_cstr)
next
  case False
  then show ?thesis by (simp add: strstr_def strstr_loop_None_iff)
qed

lemma strstr_loop_Some:
  "strstr_loop n s1 s2 (strlen s2) = Some r \<Longrightarrow> n = strlen s1 \<Longrightarrow> 0 < strlen s2 \<Longrightarrow>
   \<exists>pre. s1 = pre @ r \<and> NUL \<notin> set pre \<and> prefix (cstr s2) (cstr r)
     \<and> (\<forall>i < length pre. \<not> prefix (cstr s2) (cstr (drop i s1)))"
proof (induction s1 arbitrary: n)
  case Nil
  then show ?case by (subst (asm) strstr_loop.simps) (auto simp: memcmp_strlen split: if_splits)
next
  case (Cons c cs)
  show ?case
  proof (cases "prefix (cstr s2) (cstr (c # cs)) \<or> strlen (c # cs) < strlen s2")
    case True
    with Cons.prems show ?thesis
      by (subst (asm) strstr_loop.simps) (auto simp: memcmp_strlen split: if_splits)
  next
    case False
    with Cons.prems have c: "c \<noteq> NUL" and r: "strstr_loop (strlen cs) cs s2 (strlen s2) = Some r"
      by (auto, subst (asm) strstr_loop.simps) (auto simp: memcmp_strlen split: if_splits)
    from Cons.IH [OF r refl Cons.prems(3)] obtain pre where
      pre: "cs = pre @ r" "NUL \<notin> set pre" "prefix (cstr s2) (cstr r)"
        "\<forall>i < length pre. \<not> prefix (cstr s2) (cstr (drop i cs))" by blast
    with c False show ?thesis
      by (intro exI [of _ "c # pre"]) (auto simp: less_Suc_eq_0_disj)
  qed
qed

lemma strstr_Some:
  "strstr s1 s2 = Some r \<Longrightarrow>
   \<exists>pre. s1 = pre @ r \<and> NUL \<notin> set pre \<and> prefix (cstr s2) (cstr r)
     \<and> (\<forall>i < length pre. \<not> prefix (cstr s2) (cstr (drop i s1)))"
  by (auto simp: strstr_def Let_def strlen_cstr [symmetric] dest!: strstr_loop_Some split: if_splits)
     (auto simp: strlen_cstr)


lemma of_char_eq_0 [simp]: "(of_char c :: nat) = 0 \<longleftrightarrow> c = NUL"
  using of_char_eq_iff [of c NUL, where 'a = nat] by (simp del: of_char_eq_iff)

lemma of_char_pos [simp]: "0 < (of_char c :: nat) \<longleftrightarrow> c \<noteq> NUL"
  by (simp add: neq0_conv [symmetric] del: neq0_conv)

definition ascii :: "char list \<Rightarrow> bool" where
  "ascii s \<longleftrightarrow> (\<forall>c \<in> set s. of_char c < (128 :: nat))"

lemma schar_diff_ascii:
  assumes "of_char c < (128 :: nat)" "of_char d < (128 :: nat)"
  shows "schar_diff c d = int (of_char c) - int (of_char d)"
proof -
  have "byte_of_char c - byte_of_char d = word_of_int (int (of_char c) - int (of_char d))"
    by (simp add: byte_of_char_def of_int_of_char of_nat_of_char)
  then have "schar_diff c d = signed_take_bit 7 (int (of_char c) - int (of_char d))"
    by (simp only: schar_diff_def sint_sbintrunc') simp
  also have "\<dots> = int (of_char c) - int (of_char d)"
    using assms by (intro signed_take_bit_int_eq_self) auto
  finally show ?thesis .
qed

definition char_less :: "(char \<times> char) set" where
  "char_less = {(c, d). (of_char c :: nat) < of_char d}"

lemma strcmp_order:
  "ascii (cstr s) \<Longrightarrow> ascii (cstr t) \<Longrightarrow> strcmp s t < 0 \<longleftrightarrow> (cstr s, cstr t) \<in> lexord char_less"
proof (induction s t rule: strcmp.induct)
  case (1 ct)
  then show ?case by (cases ct) (auto simp: ascii_def schar_diff_ascii)
next
  case (2 c cs ct)
  show ?case
  proof (cases ct)
    case Nil
    with "2.prems" show ?thesis
      by (cases "c = NUL") (auto simp: ascii_def schar_diff_ascii Let_def)
  next
    case (Cons d ds)
    with 2 show ?thesis
      by (auto simp: ascii_def schar_diff_ascii Let_def char_less_def split: if_splits)
  qed
qed
end
