(* ===== verification/C_Number.thy ===== *)
theory C_Number
  imports C_String
begin

text \<open>
  Numbers as text: the character classes of \<^verbatim>\<open>lib/ctype.c\<close>, the number parsers of
  \<^verbatim>\<open>lib/strto.c\<close>, and the digit strings they read.
\<close>

section \<open>Character classes\<close>

text \<open>The table \<open>_ctype\<close> of \<^verbatim>\<open>lib/ctype.c\<close>, one flag byte per character.\<close>

abbreviation (input) U_FL :: u8 where "U_FL \<equiv> 0x01"
abbreviation (input) L_FL :: u8 where "L_FL \<equiv> 0x02"
abbreviation (input) D_FL :: u8 where "D_FL \<equiv> 0x04"
abbreviation (input) C_FL :: u8 where "C_FL \<equiv> 0x08"
abbreviation (input) P_FL :: u8 where "P_FL \<equiv> 0x10"
abbreviation (input) S_FL :: u8 where "S_FL \<equiv> 0x20"
abbreviation (input) X_FL :: u8 where "X_FL \<equiv> 0x40"
abbreviation (input) SP_FL :: u8 where "SP_FL \<equiv> 0x80"

definition ctype_tab :: "u8 list" where
  "ctype_tab =
     replicate 9 C_FL @ replicate 5 (C_FL OR S_FL) @ replicate 18 C_FL @
     [S_FL OR SP_FL] @ replicate 15 P_FL @
     replicate 10 D_FL @ replicate 7 P_FL @
     replicate 6 (U_FL OR X_FL) @ replicate 20 U_FL @ replicate 6 P_FL @
     replicate 6 (L_FL OR X_FL) @ replicate 20 L_FL @ replicate 4 P_FL @ [C_FL] @
     replicate 32 0 @
     [S_FL OR SP_FL] @ replicate 31 P_FL @
     replicate 23 U_FL @ [P_FL] @ replicate 7 U_FL @ [L_FL] @
     replicate 23 L_FL @ [P_FL] @ replicate 8 L_FL"

definition ismask :: "char \<Rightarrow> u8 \<Rightarrow> bool" where
  "ismask c fl \<longleftrightarrow> ctype_tab ! of_char c AND fl \<noteq> 0"

definition isdigit :: "char \<Rightarrow> bool" where
  "isdigit c = ismask c D_FL"

definition islower :: "char \<Rightarrow> bool" where
  "islower c = ismask c L_FL"

definition isupper :: "char \<Rightarrow> bool" where
  "isupper c = ismask c U_FL"

definition isxdigit :: "char \<Rightarrow> bool" where
  "isxdigit c = ismask c (D_FL OR X_FL)"

definition isblank :: "char \<Rightarrow> bool" where
  "isblank c \<longleftrightarrow> c = CHR '' '' \<or> c = CHR 0x09"

definition toupper :: "char \<Rightarrow> char" where
  "toupper c = (if islower c then char_of (of_char c - 32 :: nat) else c)"

definition tolower :: "char \<Rightarrow> char" where
  "tolower c = (if isupper c then char_of (of_char c + 32 :: nat) else c)"

lemma length_ctype_tab: "length ctype_tab = 256"
  by (simp add: ctype_tab_def)

text \<open>The classes the parsers use, as character ranges.\<close>

lemma nth_replicate_append:
  "(replicate k x @ ys) ! n = (if n < k then x else ys ! (n - k))"
  by (simp add: nth_append)

lemma nat_diff_less: "0 < j \<Longrightarrow> (n :: nat) - k < j \<longleftrightarrow> n < k + j"
  by arith

lemma nth_single: "([x] @ ys) ! n = (if n < 1 then x else ys ! (n - 1))"
  by (cases n) auto

lemma ctype_tab_nth:
  "n < 256 \<Longrightarrow> ctype_tab ! n =
     (if n < 9 then C_FL else if n < 14 then C_FL OR S_FL else if n < 32 then C_FL
      else if n < 33 then S_FL OR SP_FL else if n < 48 then P_FL
      else if n < 58 then D_FL else if n < 65 then P_FL
      else if n < 71 then U_FL OR X_FL else if n < 91 then U_FL else if n < 97 then P_FL
      else if n < 103 then L_FL OR X_FL else if n < 123 then L_FL else if n < 127 then P_FL
      else if n < 128 then C_FL else if n < 160 then 0
      else if n < 161 then S_FL OR SP_FL else if n < 192 then P_FL
      else if n < 215 then U_FL else if n < 216 then P_FL else if n < 223 then U_FL
      else if n < 224 then L_FL else if n < 247 then L_FL else if n < 248 then P_FL else L_FL)"
  unfolding ctype_tab_def
  by (simp only: nth_replicate_append nth_single diff_diff_left, simp only: nat_diff_less, simp add: nat_diff_less split del: if_split cong: if_cong)

lemma isdigit_iff: "isdigit c \<longleftrightarrow> of_char c \<in> {48..57 :: nat}"
  using of_char_less_256 [of c] by (auto simp: isdigit_def ismask_def ctype_tab_nth)

lemma isxdigit_iff:
  "isxdigit c \<longleftrightarrow> of_char c \<in> {48..57 :: nat} \<or> of_char c \<in> {65..70 :: nat} \<or> of_char c \<in> {97..102 :: nat}"
  using of_char_less_256 [of c] by (auto simp: isxdigit_def ismask_def ctype_tab_nth)

lemma islower_xdigit: "isxdigit c \<Longrightarrow> islower c \<longleftrightarrow> 97 \<le> (of_char c :: nat)"
  by (auto simp: isxdigit_iff islower_def ismask_def ctype_tab_nth)

section \<open>Parsing numbers\<close>

text \<open>
  \<open>*cp - '0'\<close> for a digit, \<open>toupper(*cp) - 'A' + 10\<close> otherwise, as the code computes it.
\<close>

definition digit_value :: "char \<Rightarrow> nat" where
  "digit_value c =
     (if isdigit c then of_char c - 48
      else of_char (if islower c then toupper c else c) - 65 + 10)"

fun strtoul_loop :: "char list \<Rightarrow> nat \<Rightarrow> 'a::len word \<Rightarrow> 'a word \<times> char list" where
  "strtoul_loop [] base result = (result, [])"
| "strtoul_loop (c # cp) base result =
     (if isxdigit c \<and> digit_value c < base
      then strtoul_loop cp base (result * of_nat base + of_nat (digit_value c))
      else (result, c # cp))"

text \<open>
  The prefix handling shared by \<open>simple_strtoul\<close> and \<open>simple_strtoull\<close>: the string
  after the prefix and the base in force.
\<close>

definition strtoul_prefix :: "char list \<Rightarrow> nat \<Rightarrow> char list \<times> nat" where
  "strtoul_prefix cp base =
     (let (cp, base) =
        (if peek cp = CHR ''0'' then
           let cp = tl cp;
               (cp, base) = (if peek cp = CHR ''x'' \<and> isxdigit (peek (tl cp)) then (tl cp, 16)
                             else (cp, base))
           in (cp, if base = 0 then 8 else base)
         else (cp, base))
      in (cp, if base = 0 then 10 else base))"

definition simple_strtoul :: "char list \<Rightarrow> nat \<Rightarrow> ulong \<times> char list" where
  "simple_strtoul cp base = (let (cp, base) = strtoul_prefix cp base in strtoul_loop cp base 0)"

definition simple_strtoull :: "char list \<Rightarrow> nat \<Rightarrow> u64 \<times> char list" where
  "simple_strtoull cp base = (let (cp, base) = strtoul_prefix cp base in strtoul_loop cp base 0)"

definition strict_strtoul :: "char list \<Rightarrow> nat \<Rightarrow> ulong option" where
  "strict_strtoul cp base =
     (let len = strlen cp in
      if len = 0 then None
      else let (val, tail) = simple_strtoul cp base in
        if length tail = length cp then None
        else if peek tail = NUL
             \<or> len = (length cp - length tail) + 1 \<and> peek tail = CHR 0x0A
        then Some val else None)"

definition simple_strtol :: "char list \<Rightarrow> nat \<Rightarrow> ulong \<times> char list" where
  "simple_strtol cp base =
     (if peek cp = CHR ''-'' then let (r, e) = simple_strtoul (tl cp) base in (- r, e)
      else simple_strtoul cp base)"

text \<open>The unit suffixes of \<open>ustrtoul\<close> and \<open>ustrtoull\<close>; the cases fall through.\<close>

definition unit_suffix :: "'a::len word \<Rightarrow> char list \<Rightarrow> 'a word \<times> char list" where
  "unit_suffix result endp =
     (let c = peek endp;
          r1 = (if c = CHR ''G'' then result * 1024 else result);
          r2 = (if c = CHR ''G'' \<or> c = CHR ''M'' then r1 * 1024 else r1)
      in if c = CHR ''G'' \<or> c = CHR ''M'' \<or> c = CHR ''K'' \<or> c = CHR ''k''
         then (r2 * 1024,
               if peek (drop 1 endp) = CHR ''i''
               then (if peek (drop 2 endp) = CHR ''B'' then drop 3 endp else drop 2 endp)
               else endp)
         else (r2, endp))"

definition ustrtoul :: "char list \<Rightarrow> nat \<Rightarrow> ulong \<times> char list" where
  "ustrtoul cp base = (let (result, endp) = simple_strtoul cp base in unit_suffix result endp)"

definition ustrtoull :: "char list \<Rightarrow> nat \<Rightarrow> u64 \<times> char list" where
  "ustrtoull cp base = (let (result, endp) = simple_strtoull cp base in unit_suffix result endp)"


text \<open>
  \<open>trailing_strtoln(str, end)\<close>; \<open>None\<close> for \<open>end\<close> is the null pointer. The backwards
  scan starts at \<open>end - 1\<close> and stops above \<open>str\<close>. The result \<open>None\<close> is the read of
  \<open>end[-1]\<close> before the string.
\<close>

fun trailing_scan :: "char list \<Rightarrow> nat \<Rightarrow> ulong" where
  "trailing_scan str 0 = -1"
| "trailing_scan str (Suc p) =
     (if \<not> isdigit (peek (drop (Suc p) str)) then fst (simple_strtoul (drop (Suc (Suc p)) str) 10)
      else trailing_scan str p)"

definition trailing_strtoln :: "char list \<Rightarrow> nat option \<Rightarrow> ulong option" where
  "trailing_strtoln str en =
     (let e = (case en of None \<Rightarrow> strlen str | Some e \<Rightarrow> e) in
      if e = 0 then None
      else if isdigit (peek (drop (e - 1) str)) then Some (trailing_scan str (e - 1))
      else Some (-1))"

definition trailing_strtol :: "char list \<Rightarrow> ulong option" where
  "trailing_strtol str = trailing_strtoln str None"

definition str2long :: "char list \<Rightarrow> ulong \<times> bool" where
  "str2long p = (let (num, endptr) = simple_strtoul p 16 in (num, peek p \<noteq> NUL \<and> peek endptr = NUL))"

definition str2off :: "char list \<Rightarrow> u64 \<times> bool" where
  "str2off p = (let (num, endptr) = simple_strtoull p 16 in (num, peek p \<noteq> NUL \<and> peek endptr = NUL))"

section \<open>Digit strings\<close>

text \<open>
  The reference for printing: the digits of a number, least significant first, and the
  character of a digit in lower or upper case.
\<close>

function nat_digits :: "nat \<Rightarrow> nat \<Rightarrow> nat list" where
  "nat_digits b n = (if b < 2 \<or> n < b then [n] else (n mod b) # nat_digits b (n div b))"
  by auto
termination by (relation "measure snd") auto

declare nat_digits.simps [simp del]

definition digit_char :: "bool \<Rightarrow> nat \<Rightarrow> char" where
  "digit_char small d =
     (if d < 10 then char_of (d + 48) else char_of (d + (if small then 87 else 55)))"

lemma digit_char_value:
  assumes "d < 16"
  shows "isxdigit (digit_char small d) \<and> digit_value (digit_char small d) = d"
proof -
  have "of_char (digit_char small d) = (if d < 10 then d + 48 else d + (if small then 87 else 55))"
    using assms by (simp add: digit_char_def)
  with assms show ?thesis
    using islower_xdigit [of "digit_char small d"]
    by (auto simp: isxdigit_iff isdigit_iff digit_value_def toupper_def split: if_splits)
qed

fun digits_value :: "nat \<Rightarrow> nat \<Rightarrow> nat list \<Rightarrow> nat" where
  "digits_value b acc [] = acc"
| "digits_value b acc (d # ds) = digits_value b (acc * b + d) ds"

lemma digits_value_append: "digits_value b acc (xs @ ys) = digits_value b (digits_value b acc xs) ys"
  by (induction xs arbitrary: acc) auto

lemma digits_value_rev_nat_digits: "digits_value b 0 (rev (nat_digits b n)) = n"
proof (induction b n rule: nat_digits.induct)
  case (1 b n)
  then show ?case
    by (subst nat_digits.simps) (auto simp: digits_value_append)
qed

lemma nat_digits_less: "2 \<le> b \<Longrightarrow> d \<in> set (nat_digits b n) \<Longrightarrow> d < b"
proof (induction b n rule: nat_digits.induct)
  case (1 b n)
  from 1(3) show ?case
    by (subst (asm) nat_digits.simps) (use 1 in \<open>auto split: if_splits\<close>)
qed

text \<open>Reading a digit string that ends the buffer, or before a character that is no digit.\<close>

lemma strtoul_loop_digits:
  assumes "\<forall>d \<in> set ds. d < base" "base \<le> 16" "\<not> isxdigit (peek rest)"
  shows "strtoul_loop (map (digit_char small) ds @ rest) base (of_nat acc :: 'a::len word)
       = (of_nat (digits_value base acc ds), rest)"
  using assms(1)
proof (induction ds arbitrary: acc)
  case Nil
  show ?case
    using assms(3) by (cases rest) auto
next
  case (Cons d ds)
  then have "d < 16" "d < base"
    using assms(2) by auto
  then have "isxdigit (digit_char small d)" "digit_value (digit_char small d) = d"
    using digit_char_value [of d small] by auto
  moreover have "strtoul_loop (map (digit_char small) ds @ rest) base (of_nat (acc * base + d) :: 'a word)
      = (of_nat (digits_value base (acc * base + d) ds), rest)"
    by (rule Cons.IH) (use Cons.prems in simp)
  ultimately show ?case
    using \<open>d < base\<close> by simp
qed

lemma nat_digits_nonempty [simp]: "nat_digits b n \<noteq> []"
  by (subst nat_digits.simps) simp

lemma digit_char_zero: "digit_char small 0 = CHR ''0''"
  by (simp add: digit_char_def char_of_def bit_simps)

lemma digit_char_0 [simp]: "d < 16 \<Longrightarrow> digit_char small d = CHR ''0'' \<longleftrightarrow> d = 0"
  using digit_char_value [of d small] digit_char_value [of 0 small]
  by (metis digit_char_zero zero_less_numeral)

lemma digit_char_not_x: "d < 16 \<Longrightarrow> digit_char small d \<noteq> CHR ''x''"
  using digit_char_value [of d small] by (auto simp: isxdigit_iff)

lemma strtoul_prefix_digits:
  assumes "ds \<noteq> []" "\<forall>d \<in> set ds. d < 16" "base \<noteq> 0" "peek rest \<noteq> CHR ''x''"
  shows "strtoul_prefix (map (digit_char small) ds @ rest) base
       = (map (digit_char small) (if hd ds = 0 then tl ds else ds) @ rest, base)"
proof -
  obtain d es where ds: "ds = d # es"
    using assms(1) by (cases ds) auto
  have "peek (map (digit_char small) es @ rest) \<noteq> CHR ''x''"
    using assms(2,4) by (cases es) (auto simp: ds digit_char_not_x)
  then show ?thesis
    using assms by (auto simp: strtoul_prefix_def ds)
qed

lemma simple_strtoul_digits:
  assumes "ds \<noteq> []" "\<forall>d \<in> set ds. d < base" "2 \<le> base" "base \<le> 16"
    and rest: "\<not> isxdigit (peek rest)" "peek rest \<noteq> CHR ''x''"
  shows "simple_strtoul (map (digit_char small) ds @ rest) base = (of_nat (digits_value base 0 ds), rest)"
proof -
  have "digits_value base 0 (if hd ds = 0 then tl ds else ds) = digits_value base 0 ds"
    using assms(1) by (cases ds) auto
  moreover have "\<forall>d \<in> set (if hd ds = 0 then tl ds else ds). d < base"
    using assms(1,2) by (cases ds) auto
  moreover have "strtoul_prefix (map (digit_char small) ds @ rest) base
       = (map (digit_char small) (if hd ds = 0 then tl ds else ds) @ rest, base)"
    using assms by (intro strtoul_prefix_digits) auto
  ultimately show ?thesis
    using strtoul_loop_digits [OF _ assms(4) rest(1), of "if hd ds = 0 then tl ds else ds" small 0]
    by (simp add: simple_strtoul_def del: if_split)
qed

lemma digits_not_minus:
  "ds \<noteq> [] \<Longrightarrow> \<forall>d \<in> set ds. d < 16 \<Longrightarrow> peek (map (digit_char small) ds) \<noteq> CHR ''-''"
  using digit_char_value [of "hd ds" small] by (cases ds) (auto simp: isxdigit_iff)

lemma digits_value_zeros: "digits_value b 0 (replicate k 0 @ ds) = digits_value b 0 ds"
  by (induction k) auto

lemma if_swap: "(if \<not> P then x else y) = (if P then y else x)"
  by simp

lemma nat_digits_step: "nat_digits 10 n = n mod 10 # (if n div 10 = 0 then [] else nat_digits 10 (n div 10))"
  by (subst nat_digits.simps) (simp add: div_eq_0_iff)

lemma length_nat_digits: "2 \<le> b \<Longrightarrow> n < b ^ Suc k \<Longrightarrow> length (nat_digits b n) \<le> Suc k"
proof (induction k arbitrary: n)
  case 0
  then show ?case
    by (subst nat_digits.simps) simp
next
  case (Suc k)
  have "n div b < b ^ Suc k"
    using Suc.prems by (simp add: less_mult_imp_div_less mult.commute)
  then show ?case
    using Suc by (subst nat_digits.simps) (simp add: Suc.IH)
qed

end
