(* ===== verification/C_Memory.thy ===== *)
theory C_Memory
  imports UB_Prelude
begin

text \<open>
  The block-memory routines of \<^verbatim>\<open>lib/string.c\<close> over the address space: \<open>memset\<close>,
  \<open>memcpy\<close> and \<open>memmove\<close> with their word-at-a-time fast paths. The theorems show
  that the fast paths compute the plain byte-wise result.
\<close>

section \<open>Little-endian words in memory\<close>

definition le32_bytes :: "u32 \<Rightarrow> u8 list" where
  "le32_bytes w = [ucast w, ucast (drop_bit 8 w), ucast (drop_bit 16 w), ucast (drop_bit 24 w)]"

definition le32_of :: "u8 list \<Rightarrow> u32" where
  "le32_of bs = (case bs of
     b0 # b1 # b2 # b3 # _ \<Rightarrow>
       ucast b0 OR push_bit 8 (ucast b1) OR push_bit 16 (ucast b2) OR push_bit 24 (ucast b3)
   | _ \<Rightarrow> 0)"

lemma length_le32_bytes [simp]: "length (le32_bytes w) = 4"
  by (simp add: le32_bytes_def)

lemma le32_bytes_of: "length bs = 4 \<Longrightarrow> le32_bytes (le32_of bs) = bs"
proof -
  assume "length bs = 4"
  then obtain b0 b1 b2 b3 where bs: "bs = [b0, b1, b2, b3]"
    by (auto simp: length_Suc_conv numeral_eq_Suc)
  show ?thesis
    unfolding bs le32_bytes_def le32_of_def
    by (auto simp: bit_eq_iff bit_simps dest: bit_imp_le_length)
qed

lemma le32_of_bytes: "le32_of (le32_bytes w) = w"
  unfolding le32_bytes_def le32_of_def
  apply (auto simp: bit_eq_iff bit_simps)
  subgoal for n by (cases "n < 24") auto
  done

section \<open>The routines\<close>

fun memset_bytes :: "mem \<Rightarrow> addr \<Rightarrow> u8 \<Rightarrow> nat \<Rightarrow> mem" where
  "memset_bytes m s8 c 0 = m"
| "memset_bytes m s8 c (Suc count) = memset_bytes (m(s8 := c)) (s8 + 1) c count"

text \<open>The fill word: four rounds of \<open>cl <<= 8; cl |= c & 0xff\<close>.\<close>

definition memset_word :: "u32 \<Rightarrow> u32" where
  "memset_word c = ((\<lambda>cl. push_bit 8 cl OR (c AND 0xff)) ^^ 4) 0"

fun memset_words :: "mem \<Rightarrow> addr \<Rightarrow> u32 \<Rightarrow> nat \<Rightarrow> mem \<times> addr \<times> nat" where
  "memset_words m sl cl count =
     (if count \<ge> 4 then memset_words (mem_write m sl (le32_bytes cl)) (sl + 4) cl (count - 4)
      else (m, sl, count))"

declare memset_words.simps [simp del]

definition memset :: "mem \<Rightarrow> addr \<Rightarrow> u32 \<Rightarrow> nat \<Rightarrow> mem" where
  "memset m s c count =
     (let (m', sl, n) = (if s AND 3 = 0 then memset_words m s (memset_word c) count
                         else (m, s, count))
      in memset_bytes m' sl (ucast c) n)"

fun memcpy_bytes :: "mem \<Rightarrow> addr \<Rightarrow> addr \<Rightarrow> nat \<Rightarrow> mem" where
  "memcpy_bytes m d8 s8 0 = m"
| "memcpy_bytes m d8 s8 (Suc count) = memcpy_bytes (m(d8 := m s8)) (d8 + 1) (s8 + 1) count"

fun memcpy_words :: "mem \<Rightarrow> addr \<Rightarrow> addr \<Rightarrow> nat \<Rightarrow> mem \<times> addr \<times> addr \<times> nat" where
  "memcpy_words m dl sl count =
     (if count \<ge> 4
      then memcpy_words (mem_write m dl (le32_bytes (le32_of (mem_read m sl 4)))) (dl + 4) (sl + 4) (count - 4)
      else (m, dl, sl, count))"

declare memcpy_words.simps [simp del]

definition memcpy :: "mem \<Rightarrow> addr \<Rightarrow> addr \<Rightarrow> nat \<Rightarrow> mem" where
  "memcpy m dest src count =
     (if src = dest then m
      else let (m', dl, sl, n) = (if (dest OR src) AND 3 = 0 then memcpy_words m dest src count
                                  else (m, dest, src, count))
           in memcpy_bytes m' dl sl n)"

fun memmove_down :: "mem \<Rightarrow> addr \<Rightarrow> addr \<Rightarrow> nat \<Rightarrow> mem" where
  "memmove_down m tmp s 0 = m"
| "memmove_down m tmp s (Suc count) = memmove_down (m(tmp - 1 := m (s - 1))) (tmp - 1) (s - 1) count"

definition memmove :: "mem \<Rightarrow> addr \<Rightarrow> addr \<Rightarrow> nat \<Rightarrow> mem" where
  "memmove m dest src count =
     (if src = dest then m
      else if dest \<le> src then memcpy_bytes m dest src count
      else memmove_down m (dest + of_nat count) (src + of_nat count) count)"

section \<open>Correctness\<close>

lemma fun_upd_mem_write: "m(a := c) = mem_write m a [c]"
  by (auto simp: mem_write_def fun_eq_iff unsigned_eq_0_iff)

lemma memset_bytes_write:
  "n < 2 ^ 32 \<Longrightarrow> memset_bytes m a c n = mem_write m a (replicate n c)"
proof (induction n arbitrary: m a)
  case (Suc n)
  then have "memset_bytes m a c (Suc n) = mem_write (mem_write m a [c]) (a + 1) (replicate n c)"
    by (simp add: fun_upd_mem_write)
  also have "\<dots> = mem_write m a ([c] @ replicate n c)"
    using mem_write_append [of "[c]" "replicate n c" m a] Suc.prems by simp
  finally show ?case by simp
qed simp

lemma memset_word_eq:
  "memset_word c = push_bit 8 (push_bit 8 (push_bit 8 (take_bit 8 c) OR take_bit 8 c) OR take_bit 8 c)
     OR take_bit 8 c"
proof -
  have ff: "c AND 0xff = take_bit 8 c"
    by (simp add: take_bit_eq_mask mask_eq_exp_minus_1)
  have "(4 :: nat) = Suc (Suc (Suc (Suc 0)))" by simp
  then show ?thesis
    unfolding memset_word_def ff
    by (simp only: funpow.simps o_apply id_apply push_bit_of_0 or.left_neutral)
qed

lemma le32_bytes_memset_word: "le32_bytes (memset_word c) = replicate 4 (ucast c)"
proof -
  have "ucast (drop_bit k (memset_word c)) = (ucast c :: u8)" if "k \<in> {0, 8, 16, 24}" for k
    unfolding memset_word_eq using that
    by (auto simp only: bit_eq_iff bit_simps) (auto simp: bit_simps)
  from this [of 0] this [of 8] this [of 16] this [of 24] show ?thesis
    by (simp add: le32_bytes_def numeral_eq_Suc)
qed

lemma memset_words_write:
  "memset_words m a (memset_word c) n = (m', a', n') \<Longrightarrow> n < 2 ^ 32 \<Longrightarrow>
   \<exists>k. n = k + n' \<and> a' = a + of_nat k \<and> m' = mem_write m a (replicate k (ucast c))"
proof (induction m a "memset_word c" n arbitrary: m' a' n' rule: memset_words.induct)
  case (1 m sl count)
  show ?case
  proof (cases "count \<ge> 4")
    case True
    with "1.prems" have
      "memset_words (mem_write m sl (le32_bytes (memset_word c))) (sl + 4) (memset_word c) (count - 4) = (m', a', n')"
      by (subst (asm) memset_words.simps) simp
    moreover from "1.prems"(2) have "count - 4 < 2 ^ 32" by simp
    ultimately obtain k where k: "count - 4 = k + n'" "a' = sl + 4 + of_nat k"
      "m' = mem_write (mem_write m sl (replicate 4 (ucast c))) (sl + 4) (replicate k (ucast c))"
      using "1.hyps" [OF True] by (auto simp: le32_bytes_memset_word)
    have "m' = mem_write m sl (replicate 4 (ucast c) @ replicate k (ucast c))"
      using mem_write_append [of "replicate 4 (ucast c)" "replicate k (ucast c)" m sl] k True "1.prems"(2)
      by simp
    with k True show ?thesis
      by (intro exI [of _ "4 + k"]) (auto simp: replicate_add [symmetric])
  next
    case False
    with "1.prems" show ?thesis
      by (subst (asm) memset_words.simps) auto
  qed
qed

lemma memset_fills:
  assumes "count < 2 ^ 32"
  shows "memset m s c count = mem_write m s (replicate count (ucast c))"
proof (cases "s AND 3 = 0")
  case True
  obtain m' a' n' where w: "memset_words m s (memset_word c) count = (m', a', n')"
    by (cases "memset_words m s (memset_word c) count") auto
  from memset_words_write [OF w assms] obtain k where
    k: "count = k + n'" "a' = s + of_nat k" "m' = mem_write m s (replicate k (ucast c))" by blast
  have "memset m s c count = mem_write m' a' (replicate n' (ucast c))"
    using True w k assms by (simp add: memset_def memset_bytes_write)
  also have "\<dots> = mem_write m s (replicate k (ucast c) @ replicate n' (ucast c))"
    using mem_write_append [of "replicate k (ucast c)" "replicate n' (ucast c)" m s] k assms by simp
  finally show ?thesis using k by (simp add: replicate_add [symmetric])
next
  case False
  with assms show ?thesis by (simp add: memset_def memset_bytes_write)
qed

text \<open>Two areas of \<open>n\<close> bytes that share no address.\<close>

definition disjoint_areas :: "addr \<Rightarrow> addr \<Rightarrow> nat \<Rightarrow> bool" where
  "disjoint_areas d s n \<longleftrightarrow> (\<forall>i < n. \<forall>j < n. d + of_nat i \<noteq> s + of_nat j)"

lemma mem_read_write_disjoint:
  assumes "\<And>i j. i < length bs \<Longrightarrow> j < n \<Longrightarrow> d + of_nat i \<noteq> s + of_nat j"
  shows "mem_read (mem_write m d bs) s n = mem_read m s n"
proof (rule nth_equalityI)
  fix j
  assume "j < length (mem_read (mem_write m d bs) s n)"
  then have j: "j < n" by simp
  have "length bs \<le> unat (s + of_nat j - d)"
  proof (rule ccontr)
    assume "\<not> length bs \<le> unat (s + of_nat j - d)"
    then have "unat (s + of_nat j - d) < length bs" by simp
    from assms [OF this j] show False by simp
  qed
  with j show "mem_read (mem_write m d bs) s n ! j = mem_read m s n ! j"
    by (simp add: mem_read_def mem_write_other)
qed simp

lemma mem_read_append: "mem_read m s (k + n) = mem_read m s k @ mem_read m (s + of_nat k) n"
  by (rule nth_equalityI) (auto simp: mem_read_def nth_append add.assoc)

lemma copy_step:
  assumes "disjoint_areas d s (k + n)" and "k + n < 2 ^ 32"
  shows "mem_write (mem_write m d (mem_read m s k)) (d + of_nat k)
           (mem_read (mem_write m d (mem_read m s k)) (s + of_nat k) n)
         = mem_write m d (mem_read m s (k + n))"
proof -
  have "mem_read (mem_write m d (mem_read m s k)) (s + of_nat k) n = mem_read m (s + of_nat k) n"
  proof (rule mem_read_write_disjoint)
    fix i j assume "i < length (mem_read m s k)" "j < n"
    then have "i < k + n" "k + j < k + n" by auto
    with assms(1) have "d + of_nat i \<noteq> s + of_nat (k + j)"
      unfolding disjoint_areas_def by blast
    then show "d + of_nat i \<noteq> s + of_nat k + of_nat j" by (simp add: add.assoc)
  qed
  then show ?thesis
    using mem_write_append [of "mem_read m s k" "mem_read m (s + of_nat k) n" m d] assms(2)
    by (simp add: mem_read_append)
qed

lemma disjoint_areas_suffix:
  assumes "disjoint_areas d s (k + n)"
  shows "disjoint_areas (d + of_nat k) (s + of_nat k) n"
  unfolding disjoint_areas_def
proof (intro allI impI)
  fix i j assume "i < n" "j < n"
  then have "k + i < k + n" "k + j < k + n" by auto
  with assms have "d + of_nat (k + i) \<noteq> s + of_nat (k + j)"
    unfolding disjoint_areas_def by blast
  then show "d + of_nat k + of_nat i \<noteq> s + of_nat k + of_nat j"
    by (simp add: add.assoc)
qed

lemma mem_read_1: "mem_read m s (Suc 0) = [m s]"
  by (simp add: mem_read_def)

lemma memcpy_bytes_copies:
  "disjoint_areas d s n \<Longrightarrow> n < 2 ^ 32 \<Longrightarrow> memcpy_bytes m d s n = mem_write m d (mem_read m s n)"
proof (induction n arbitrary: m d s)
  case 0
  then show ?case by (simp add: mem_read_def)
next
  case (Suc n)
  from disjoint_areas_suffix [of d s 1 n] Suc.prems have "disjoint_areas (d + 1) (s + 1) n" by simp
  with Suc have "memcpy_bytes m d s (Suc n) =
      mem_write (mem_write m d [m s]) (d + 1) (mem_read (mem_write m d [m s]) (s + 1) n)"
    by (simp add: fun_upd_mem_write)
  then show ?case
    using copy_step [of d s 1 n m] Suc.prems by (simp add: mem_read_1)
qed

lemma memcpy_words_copies:
  "memcpy_words m d s n = (m', d', s', n') \<Longrightarrow> disjoint_areas d s n \<Longrightarrow> n < 2 ^ 32 \<Longrightarrow>
   \<exists>k. n = k + n' \<and> d' = d + of_nat k \<and> s' = s + of_nat k \<and> m' = mem_write m d (mem_read m s k)"
proof (induction m d s n arbitrary: m' d' s' n' rule: memcpy_words.induct)
  case (1 m dl sl count)
  show ?case
  proof (cases "count \<ge> 4")
    case True
    define m1 where "m1 = mem_write m dl (mem_read m sl 4)"
    have m1: "mem_write m dl (le32_bytes (le32_of (mem_read m sl 4))) = m1"
      by (simp add: m1_def le32_bytes_of)
    from True "1.prems"(1) have r: "memcpy_words m1 (dl + 4) (sl + 4) (count - 4) = (m', d', s', n')"
      by (subst (asm) memcpy_words.simps) (simp add: m1)
    have dis: "disjoint_areas (dl + 4) (sl + 4) (count - 4)"
      using disjoint_areas_suffix [of dl sl 4 "count - 4"] True "1.prems"(2) by simp
    have lt: "count - 4 < 2 ^ 32" using "1.prems"(3) by simp
    from "1.IH" [OF True, unfolded m1, OF r dis lt] obtain k where
      k: "count - 4 = k + n'" "d' = dl + 4 + of_nat k" "s' = sl + 4 + of_nat k"
        "m' = mem_write m1 (dl + 4) (mem_read m1 (sl + 4) k)" by blast
    have "disjoint_areas dl sl (4 + k)"
      using "1.prems"(2) k(1) True unfolding disjoint_areas_def by auto
    from copy_step [OF this, of m] k(1,4) True "1.prems"(3)
    have "m' = mem_write m dl (mem_read m sl (4 + k))" by (simp add: m1_def)
    with k True show ?thesis by (intro exI [of _ "4 + k"]) auto
  next
    case False
    with "1.prems" show ?thesis
      by (subst (asm) memcpy_words.simps) (auto intro!: exI [of _ 0] simp: mem_read_def)
  qed
qed

lemma memcpy_copies:
  assumes "disjoint_areas dest src count" and "count < 2 ^ 32"
  shows "memcpy m dest src count = mem_write m dest (mem_read m src count)"
proof (cases "src = dest \<or> (dest OR src) AND 3 \<noteq> 0")
  case True
  show ?thesis
  proof (cases "src = dest")
    case True
    with assms(1) have "count = 0" unfolding disjoint_areas_def by (cases count) auto
    with True show ?thesis by (simp add: memcpy_def mem_read_def)
  next
    case False
    with True assms show ?thesis by (simp add: memcpy_def memcpy_bytes_copies)
  qed
next
  case False
  obtain m' d' s' n' where w: "memcpy_words m dest src count = (m', d', s', n')"
    by (metis prod_cases4)
  from memcpy_words_copies [OF w assms] obtain k where
    k: "count = k + n'" "d' = dest + of_nat k" "s' = src + of_nat k"
      "m' = mem_write m dest (mem_read m src k)" by blast
  have "memcpy m dest src count = memcpy_bytes m' d' s' n'"
    using False w by (auto simp: memcpy_def)
  also have "\<dots> = mem_write m' d' (mem_read m' s' n')"
    using assms k by (intro memcpy_bytes_copies) (auto simp: disjoint_areas_suffix)
  finally show ?thesis
    using copy_step [of dest src k n' m] assms k by simp
qed

lemma unat_add_nowrap:
  "unat a + n < 2 ^ 32 \<Longrightarrow> unat (a + of_nat n :: u32) = unat a + n"
  by (simp add: unat_word_ariths unat_of_nat)

lemma mem_read_upd_other:
  "(\<And>j. j < n \<Longrightarrow> s + of_nat j \<noteq> a) \<Longrightarrow> mem_read (m(a := x)) s n = mem_read m s n"
  by (simp add: mem_read_def)

lemma memcpy_bytes_forward:
  "unat d \<le> unat s \<Longrightarrow> unat s + n \<le> 2 ^ 32 \<Longrightarrow> memcpy_bytes m d s n = mem_write m d (mem_read m s n)"
proof (induction n arbitrary: m d s)
  case 0
  then show ?case by (simp add: mem_read_def)
next
  case (Suc n)
  show ?case
  proof (cases n)
    case 0
    then show ?thesis by (simp add: fun_upd_mem_write mem_read_1)
  next
    case (Suc k)
    with Suc.prems have s1: "unat (s + 1) = unat s + 1" and d1: "unat (d + 1) = unat d + 1"
      using unat_add_nowrap [of s 1] unat_add_nowrap [of d 1] by auto
    have "mem_read (m(d := m s)) (s + 1) n = mem_read m (s + 1) n"
    proof (rule mem_read_upd_other)
      fix j assume "j < n"
      with Suc.prems s1 have "unat (s + 1 + of_nat j) = unat s + 1 + j"
        using unat_add_nowrap [of "s + 1" j] by auto
      with Suc.prems show "s + 1 + of_nat j \<noteq> d" by auto
    qed
    with Suc.IH [of "d + 1" "s + 1" "m(d := m s)"] Suc.prems s1 d1
    have "memcpy_bytes m d s (Suc n) = mem_write (mem_write m d [m s]) (d + 1) (mem_read m (s + 1) n)"
      by (simp add: fun_upd_mem_write)
    also have "\<dots> = mem_write m d ([m s] @ mem_read m (s + 1) n)"
      using mem_write_append [of "[m s]" "mem_read m (s + 1) n" m d] Suc.prems by simp
    also have "[m s] @ mem_read m (s + 1) n = mem_read m s (Suc n)"
      using mem_read_append [of m s 1 n] by (simp add: mem_read_1)
    finally show ?thesis .
  qed
qed

lemma mem_write_snoc:
  assumes "length bs < 2 ^ 32"
  shows "mem_write (m(d + of_nat (length bs) := x)) d bs = mem_write m d (bs @ [x])"
proof
  fix y
  have "y = d + of_nat (length bs) \<longleftrightarrow> unat (y - d) = length bs"
  proof
    assume "unat (y - d) = length bs"
    then have "of_nat (length bs) = y - d" by (metis of_nat_unat ucast_id)
    then show "y = d + of_nat (length bs)" by simp
  qed (simp add: unat_of_nat_u32 [OF assms])
  then show "mem_write (m(d + of_nat (length bs) := x)) d bs y = mem_write m d (bs @ [x]) y"
    by (auto simp: mem_write_def nth_append)
qed

lemma memmove_down_copies:
  "unat s \<le> unat d \<Longrightarrow> unat d + n \<le> 2 ^ 32 \<Longrightarrow> n < 2 ^ 32 \<Longrightarrow>
   memmove_down m (d + of_nat n) (s + of_nat n) n = mem_write m d (mem_read m s n)"
proof (induction n arbitrary: m)
  case 0
  then show ?case by (simp add: mem_read_def)
next
  case (Suc n)
  have "mem_read (m(d + of_nat n := m (s + of_nat n))) s n = mem_read m s n"
  proof (rule mem_read_upd_other)
    fix j assume "j < n"
    with Suc.prems have "unat (s + of_nat j) < unat (d + of_nat n)"
      using unat_add_nowrap [of s j] unat_add_nowrap [of d n] by auto
    then show "s + of_nat j \<noteq> d + of_nat n" by auto
  qed
  with Suc have "memmove_down m (d + of_nat (Suc n)) (s + of_nat (Suc n)) (Suc n) =
      mem_write (m(d + of_nat n := m (s + of_nat n))) d (mem_read m s n)"
    by (simp add: algebra_simps)
  also have "\<dots> = mem_write m d (mem_read m s n @ [m (s + of_nat n)])"
    using mem_write_snoc [of "mem_read m s n" m d "m (s + of_nat n)"] Suc.prems by simp
  also have "mem_read m s n @ [m (s + of_nat n)] = mem_read m s (Suc n)"
    by (simp add: mem_read_def)
  finally show ?case .
qed

lemma mem_write_self: "mem_write m a (mem_read m a n) = m"
  by (auto simp: mem_write_def mem_read_def fun_eq_iff)

lemma memmove_copies:
  assumes "unat src + count \<le> 2 ^ 32" "unat dest + count \<le> 2 ^ 32" "count < 2 ^ 32"
  shows "memmove m dest src count = mem_write m dest (mem_read m src count)"
proof (cases "src = dest \<or> dest \<le> src")
  case True
  with assms show ?thesis
    by (auto simp: memmove_def mem_write_self memcpy_bytes_forward word_le_nat_alt)
next
  case False
  with assms show ?thesis
    by (auto simp: memmove_def memmove_down_copies word_le_nat_alt)
qed
end
