(* ===== verification/C_Printf.thy ===== *)
theory C_Printf
  imports C_Number C_Memory
begin

text \<open>
  \<^verbatim>\<open>lib/vsprintf.c\<close>: the fast decimal conversion, the formatter \<open>number\<close> with its
  flags, widths and precisions, and the format interpreter \<open>vsnprintf_internal\<close>. Output is the
  list of characters handed to the macro \<open>ADDCH\<close>; what reaches the buffer is computed from
  it at the end. \<open>int\<close> values of the source are HOL integers: widths and precisions come
  from short format strings.
\<close>

section \<open>Decimal conversion\<close>

definition dchar :: "u32 \<Rightarrow> char" where
  "dchar d = char_of (unat (d + 48))"

definition put_dec_trunc :: "u32 \<Rightarrow> char list" where
  "put_dec_trunc q =
     (let d1 = drop_bit 4 q AND 0xf;
          d2 = drop_bit 8 q AND 0xf;
          d3 = drop_bit 12 q;
          d0 = 6 * (d3 + d2 + d1) + (q AND 0xf);
          q = drop_bit 11 (d0 * 0xcd);
          d0 = d0 - 10 * q;
          d1 = q + 9 * d3 + 5 * d2 + d1
      in dchar d0 #
         (if d1 \<noteq> 0 then
            let q = drop_bit 11 (d1 * 0xcd);
                d1 = d1 - 10 * q;
                d2 = q + 2 * d2
            in dchar d1 #
               (if d2 \<noteq> 0 \<or> d3 \<noteq> 0 then
                  let q = drop_bit 7 (d2 * 0xd);
                      d2 = d2 - 10 * q;
                      d3 = q + 4 * d3
                  in dchar d2 #
                     (if d3 \<noteq> 0 then
                        let q = drop_bit 11 (d3 * 0xcd);
                            d3 = d3 - 10 * q
                        in dchar d3 # (if q \<noteq> 0 then [dchar q] else [])
                      else [])
                else [])
          else []))"

definition put_dec_full :: "u32 \<Rightarrow> char list" where
  "put_dec_full q =
     (let d1 = drop_bit 4 q AND 0xf;
          d2 = drop_bit 8 q AND 0xf;
          d3 = drop_bit 12 q;
          d0 = 6 * (d3 + d2 + d1) + (q AND 0xf);
          q = drop_bit 11 (d0 * 0xcd);
          d0 = d0 - 10 * q;
          d1 = q + 9 * d3 + 5 * d2 + d1;
          q = drop_bit 11 (d1 * 0xcd);
          d1 = d1 - 10 * q;
          d2 = q + 2 * d2;
          q = drop_bit 7 (d2 * 0xd);
          d2 = d2 - 10 * q;
          d3 = q + 4 * d3;
          q = drop_bit 11 (d3 * 0xcd);
          d3 = d3 - 10 * q
      in [dchar d0, dchar d1, dchar d2, dchar d3, dchar q])"

function put_dec :: "u64 \<Rightarrow> char list" where
  "put_dec num =
     (if num < 100000 then put_dec_trunc (ucast num)
      else put_dec_full (ucast (num mod 100000)) @ put_dec (num div 100000))"
  by auto
termination
  by (relation "measure unat") (auto simp: word_less_nat_alt unat_div not_less)

declare put_dec.simps [simp del]

section \<open>number()\<close>

record fmt_flags =
  ZEROPAD :: bool
  SIGN :: bool
  PLUS :: bool
  SPACE :: bool
  LEFT :: bool
  SMALL :: bool
  SPECIAL :: bool

definition no_flags :: fmt_flags where
  "no_flags = \<lparr>ZEROPAD = False, SIGN = False, PLUS = False, SPACE = False,
     LEFT = False, SMALL = False, SPECIAL = False\<rparr>"

text \<open>\<open>c | locase\<close>, where \<open>locase\<close> is 0 or 0x20.\<close>

definition or_locase :: "bool \<Rightarrow> char \<Rightarrow> char" where
  "or_locase small c = (if small then char_of (or (of_char c) 32 :: nat) else c)"

definition number_digits :: string where
  "number_digits = ''0123456789ABCDEF''"

text \<open>The digit loop for bases 8 and 16, least significant digit first.\<close>

function pow2_digits :: "nat \<Rightarrow> bool \<Rightarrow> u64 \<Rightarrow> char list" where
  "pow2_digits base small num =
     (let mask = of_nat (base - 1) :: u8;
          shift = (if base = 16 then 4 else 3);
          c = or_locase small (number_digits ! unat ((ucast num :: u8) AND mask));
          num' = drop_bit shift num
      in if num' = 0 then [c] else c # pow2_digits base small num')"
  by auto
termination
proof (relation "measure (\<lambda>(base, small, num). unat num)", goal_cases)
  case (2 base small num mask shift c num')
  then have "num \<noteq> 0"
    by (cases "num = 0") simp_all
  then have "unat num \<noteq> 0"
    by (simp add: unat_eq_0)
  moreover have "unat num' = unat num div 2 ^ shift"
    using 2 by (simp add: unat_drop_bit_eq drop_bit_eq_div [where 'a = nat])
  moreover have "(2 :: nat) ^ shift > 1"
    using 2 by (simp split: if_splits)
  ultimately show ?case
    by (simp add: div_less_dividend)
qed simp

declare pow2_digits.simps [simp del]

text \<open>The array \<open>tmp\<close> of \<open>number\<close>: the digits in reverse order.\<close>

definition number_tmp :: "nat \<Rightarrow> bool \<Rightarrow> u64 \<Rightarrow> char list" where
  "number_tmp base small num =
     (if num = 0 then [CHR ''0'']
      else if base \<noteq> 10 then pow2_digits base small num
      else put_dec num)"

text \<open>The loop \<open>while (--n >= 0)\<close>: how often it runs, and the counter after it.\<close>

definition count_down :: "int \<Rightarrow> nat \<times> int" where
  "count_down n = (nat n, if 0 \<le> n then -1 else n - 1)"

definition number :: "u64 \<Rightarrow> nat \<Rightarrow> int \<Rightarrow> int \<Rightarrow> fmt_flags \<Rightarrow> char list" where
  "number num base sz precision type =
     (let need_pfx = (SPECIAL type \<and> base \<noteq> 10);
          small = SMALL type;
          type = (if LEFT type then type\<lparr>ZEROPAD := False\<rparr> else type);
          (sign, num, sz) =
            (if SIGN type then
               if sint num < 0 then ([CHR ''-''], - num, sz - 1)
               else if PLUS type then ([CHR ''+''], num, sz - 1)
               else if SPACE type then ([CHR '' ''], num, sz - 1)
               else ([], num, sz)
             else ([], num, sz));
          sz = (if need_pfx then (if base = 16 then sz - 1 - 1 else sz - 1) else sz);
          tmp = number_tmp base small num;
          i = int (length tmp);
          precision = (if i > precision then i else precision);
          sz = sz - precision;
          (n1, sz) = (if \<not> (ZEROPAD type \<or> LEFT type) then count_down sz else (0, sz));
          pfx = (if need_pfx then CHR ''0'' # (if base = 16 then [or_locase small CHR ''X''] else [])
                 else []);
          (n2, sz) = (if \<not> LEFT type then count_down sz else (0, sz));
          (n3, sz) = count_down sz
      in replicate n1 CHR '' '' @ sign @ pfx
         @ replicate n2 (if ZEROPAD type then CHR ''0'' else CHR '' '')
         @ replicate (nat (precision - i)) CHR ''0'' @ rev tmp @ replicate n3 CHR '' '')"

text \<open>\<open>string()\<close>; \<open>None\<close> is the null pointer, and a negative precision is the whole string.\<close>

definition string_conv :: "char list option \<Rightarrow> int \<Rightarrow> int \<Rightarrow> fmt_flags \<Rightarrow> char list" where
  "string_conv s field_width precision flags =
     (let s = (case s of None \<Rightarrow> ''<NULL>'' | Some s \<Rightarrow> s);
          len = (if precision < 0 then strlen s else strnlen s (nat precision));
          pad = replicate (nat (field_width - int len)) CHR '' '';
          out = take len s
      in if LEFT flags then out @ pad else pad @ out)"

section \<open>The format interpreter\<close>

definition hex_asc :: string where
  "hex_asc = ''0123456789abcdef''"

definition pack_hex_byte :: "u8 \<Rightarrow> char list" where
  "pack_hex_byte b = [hex_asc ! unat (drop_bit 4 (b AND 0xf0)), hex_asc ! unat (b AND 0x0f)]"

definition mac_address_string :: "mem \<Rightarrow> addr \<Rightarrow> int \<Rightarrow> int \<Rightarrow> fmt_flags \<Rightarrow> char list" where
  "mac_address_string m ptr field_width precision flags =
     (let mac_addr = concat (map (\<lambda>i. pack_hex_byte (m (ptr + of_nat i))
                         @ (if \<not> SPECIAL flags \<and> i \<noteq> 5 then '':'' else [])) [0..<6])
      in string_conv (Some mac_addr) field_width precision (flags\<lparr>SPECIAL := False\<rparr>))"

definition ip6_addr_string :: "mem \<Rightarrow> addr \<Rightarrow> int \<Rightarrow> int \<Rightarrow> fmt_flags \<Rightarrow> char list" where
  "ip6_addr_string m ptr field_width precision flags =
     (let ip6_addr = concat (map (\<lambda>i. pack_hex_byte (m (ptr + of_nat (2 * i)))
                         @ pack_hex_byte (m (ptr + of_nat (2 * i + 1)))
                         @ (if \<not> SPECIAL flags \<and> i \<noteq> 7 then '':'' else [])) [0..<8])
      in string_conv (Some ip6_addr) field_width precision (flags\<lparr>SPECIAL := False\<rparr>))"

definition ip4_addr_string :: "mem \<Rightarrow> addr \<Rightarrow> int \<Rightarrow> int \<Rightarrow> fmt_flags \<Rightarrow> char list" where
  "ip4_addr_string m ptr field_width precision flags =
     (let ip4_addr = concat (map (\<lambda>i. rev (put_dec_trunc (ucast (m (ptr + of_nat i))))
                         @ (if i \<noteq> 3 then ''.'' else [])) [0..<4])
      in string_conv (Some ip4_addr) field_width precision (flags\<lparr>SPECIAL := False\<rparr>))"

text \<open>\<open>pointer()\<close> with \<^verbatim>\<open>CONFIG_CMD_NET\<close>; \<open>phys_addr_t\<close> has 32 bits.\<close>

definition pointer :: "mem \<Rightarrow> char list \<Rightarrow> addr \<Rightarrow> int \<Rightarrow> int \<Rightarrow> fmt_flags \<Rightarrow> char list" where
  "pointer m fmt ptr field_width precision flags =
     (let plain = (\<lambda>num field_width flags.
            let flags = flags\<lparr>SMALL := True\<rparr>;
                (field_width, flags) = (if field_width = -1 then (8, flags\<lparr>ZEROPAD := True\<rparr>)
                                        else (field_width, flags))
            in number num 16 field_width precision flags);
          c = peek fmt; c1 = peek (drop 1 fmt);
          iflags = (if c = CHR ''i'' \<or> c = CHR ''m'' then flags\<lparr>SPECIAL := True\<rparr> else flags)
      in if c = CHR ''a'' then
           plain (ucast (le32_of (mem_read m ptr 4))) 10 (flags\<lparr>SPECIAL := True, ZEROPAD := True\<rparr>)
         else if c = CHR ''m'' \<or> c = CHR ''M'' then
           mac_address_string m ptr field_width precision iflags
         else if c = CHR ''i'' \<or> c = CHR ''I'' then
           if c1 = CHR ''6'' then ip6_addr_string m ptr field_width precision iflags
           else if c1 = CHR ''4'' then ip4_addr_string m ptr field_width precision iflags
           else plain (ucast ptr) field_width (iflags\<lparr>SPECIAL := False\<rparr>)
         else plain (ucast ptr) field_width flags)"

text \<open>
  The argument list, by the type \<open>va_arg\<close> asks for. An argument of another type is
  undefined behaviour in C and \<open>None\<close> here.
\<close>

datatype varg =
    VInt u32
  | VLLong u64
  | VStr "char list option"
  | VPtr addr

fun va_int :: "varg list \<Rightarrow> (u32 \<times> varg list) option" where
  "va_int (VInt w # args) = Some (w, args)"
| "va_int _ = None"

definition is_digit :: "char \<Rightarrow> bool" where
  "is_digit c \<longleftrightarrow> 48 \<le> (of_char c :: nat) \<and> (of_char c :: nat) \<le> 57"

fun skip_atoi :: "char list \<Rightarrow> int \<Rightarrow> int \<times> char list" where
  "skip_atoi [] i = (i, [])"
| "skip_atoi (c # s) i =
     (if is_digit c then skip_atoi s (i * 10 + int (of_char c) - 48)
      else (i, c # s))"

fun parse_flags :: "char list \<Rightarrow> fmt_flags \<Rightarrow> fmt_flags \<times> char list" where
  "parse_flags [] flags = (flags, [])"
| "parse_flags (c # fmt) flags =
     (if c = CHR ''-'' then parse_flags fmt (flags\<lparr>LEFT := True\<rparr>)
      else if c = CHR ''+'' then parse_flags fmt (flags\<lparr>PLUS := True\<rparr>)
      else if c = CHR '' '' then parse_flags fmt (flags\<lparr>SPACE := True\<rparr>)
      else if c = CHR ''#'' then parse_flags fmt (flags\<lparr>SPECIAL := True\<rparr>)
      else if c = CHR ''0'' then parse_flags fmt (flags\<lparr>ZEROPAD := True\<rparr>)
      else (flags, c # fmt))"

definition parse_width ::
  "char list \<Rightarrow> fmt_flags \<Rightarrow> varg list \<Rightarrow> (int \<times> fmt_flags \<times> char list \<times> varg list) option" where
  "parse_width fmt flags args =
     (if is_digit (peek fmt) then
        let (w, fmt) = skip_atoi fmt 0 in Some (w, flags, fmt, args)
      else if peek fmt = CHR ''*'' then
        (case va_int args of
           None \<Rightarrow> None
         | Some (a, args) \<Rightarrow>
             if sint a < 0 then Some (sint (- a), flags\<lparr>LEFT := True\<rparr>, tl fmt, args)
             else Some (sint a, flags, tl fmt, args))
      else Some (-1, flags, fmt, args))"

definition parse_precision :: "char list \<Rightarrow> varg list \<Rightarrow> (int \<times> char list \<times> varg list) option" where
  "parse_precision fmt args =
     (if peek fmt = CHR ''.'' then
        let fmt = tl fmt in
        if is_digit (peek fmt) then
          let (p, fmt) = skip_atoi fmt 0 in Some (max 0 p, fmt, args)
        else if peek fmt = CHR ''*'' then
          map_option (\<lambda>(a, args). (max 0 (sint a), tl fmt, args)) (va_int args)
        else Some (0, fmt, args)
      else Some (-1, fmt, args))"

text \<open>The qualifier, with \<open>NUL\<close> for none.\<close>

definition parse_qualifier :: "char list \<Rightarrow> char \<times> char list" where
  "parse_qualifier fmt =
     (if peek fmt \<in> set ''hlLZzt'' then
        let q = peek fmt; fmt = tl fmt in
        if q = CHR ''l'' \<and> peek fmt = CHR ''l'' then (CHR ''L'', tl fmt) else (q, fmt)
      else (NUL, fmt))"

text \<open>The integer argument, widened to \<open>u64\<close> as the assignments to \<open>num\<close> widen it.\<close>

definition va_number :: "char \<Rightarrow> bool \<Rightarrow> varg list \<Rightarrow> (u64 \<times> varg list) option" where
  "va_number qualifier sgnd args =
     (case args of
        VLLong w # args \<Rightarrow> if qualifier = CHR ''L'' then Some (w, args) else None
      | VInt w # args \<Rightarrow>
          if qualifier = CHR ''L'' then None
          else if qualifier = CHR ''l'' then Some (if sgnd then scast w else ucast w, args)
          else if qualifier = CHR ''Z'' \<or> qualifier = CHR ''z'' then Some (ucast w, args)
          else if qualifier = CHR ''t'' then Some (scast w, args)
          else if qualifier = CHR ''h'' then
            Some (if sgnd then scast (ucast w :: u16) else ucast (ucast w :: u16), args)
          else Some (if sgnd then scast w else ucast w, args)
      | _ \<Rightarrow> None)"

text \<open>
  The state of the loop: the characters emitted so far, the remaining arguments, and the
  stores made through the pointers of \<open>%n\<close>.
\<close>

type_synonym vsn_state = "char list \<times> varg list \<times> (addr \<times> nat) list"

definition isalnum :: "char \<Rightarrow> bool" where
  "isalnum c = ismask c (U_FL OR L_FL OR D_FL)"

text \<open>
  One conversion, from the character that selects it: the remaining format and the new
  state. The selecting character is consumed unless it is the end of the format.
\<close>

definition vsn_convert ::
  "mem \<Rightarrow> char list \<Rightarrow> fmt_flags \<Rightarrow> int \<Rightarrow> int \<Rightarrow> char \<Rightarrow> vsn_state \<Rightarrow> (char list \<times> vsn_state) option" where
  "vsn_convert m fmt flags field_width precision qualifier st =
     (let (out, args, stores) = st; c = peek fmt;
          num = (\<lambda>base flags.
            case va_number qualifier (SIGN flags) args of
              None \<Rightarrow> None
            | Some (num, args) \<Rightarrow>
                Some (tl fmt, out @ number num base field_width precision flags, args, stores))
      in if c = CHR ''c'' then
           (case va_int args of
              None \<Rightarrow> None
            | Some (w, args) \<Rightarrow>
                let pad = replicate (nat (field_width - 1)) CHR '' '';
                    ch = char_of_byte (ucast w)
                in Some (tl fmt, out @ (if LEFT flags then ch # pad else pad @ [ch]), args, stores))
         else if c = CHR ''s'' then
           (case args of
              VStr s # args \<Rightarrow>
                Some (tl fmt, out @ string_conv s field_width precision flags, args, stores)
            | _ \<Rightarrow> None)
         else if c = CHR ''p'' then
           (case args of
              VPtr p # args \<Rightarrow>
                Some (dropWhile isalnum (tl fmt),
                      out @ pointer m (tl fmt) p field_width precision flags, args, stores)
            | _ \<Rightarrow> None)
         else if c = CHR ''n'' then
           (case args of
              VPtr p # args \<Rightarrow> Some (tl fmt, out, args, stores @ [(p, length out)])
            | _ \<Rightarrow> None)
         else if c = CHR ''%'' then Some (tl fmt, out @ ''%'', args, stores)
         else if c = CHR ''o'' then num 8 flags
         else if c = CHR ''x'' then num 16 (flags\<lparr>SMALL := True\<rparr>)
         else if c = CHR ''X'' then num 16 flags
         else if c = CHR ''d'' \<or> c = CHR ''i'' then num 10 (flags\<lparr>SIGN := True\<rparr>)
         else if c = CHR ''u'' then num 10 flags
         else if c \<noteq> NUL then Some (tl fmt, out @ [CHR ''%'', c], args, stores)
         else Some (fmt, out @ ''%'', args, stores))"

definition vsn_directive :: "mem \<Rightarrow> char list \<Rightarrow> vsn_state \<Rightarrow> (char list \<times> vsn_state) option" where
  "vsn_directive m fmt st =
     (let (out, args, stores) = st; (flags, fmt) = parse_flags fmt no_flags in
      case parse_width fmt flags args of
        None \<Rightarrow> None
      | Some (field_width, flags, fmt, args) \<Rightarrow>
          (case parse_precision fmt args of
             None \<Rightarrow> None
           | Some (precision, fmt, args) \<Rightarrow>
               let (qualifier, fmt) = parse_qualifier fmt
               in vsn_convert m fmt flags field_width precision qualifier (out, args, stores)))"

lemma length_skip_atoi: "length (snd (skip_atoi s i)) \<le> length s"
  by (induction s i rule: skip_atoi.induct) auto

lemma length_parse_flags: "length (snd (parse_flags s f)) \<le> length s"
  by (induction s f rule: parse_flags.induct) auto

lemma length_parse_width: "parse_width fmt f a = Some (w, f', fmt', a') \<Longrightarrow> length fmt' \<le> length fmt"
  using length_skip_atoi [of fmt 0]
  by (auto simp: parse_width_def split: if_splits option.splits prod.splits)

lemma length_parse_precision: "parse_precision fmt a = Some (w, fmt', a') \<Longrightarrow> length fmt' \<le> length fmt"
  using length_skip_atoi [of "tl fmt" 0]
  by (auto simp: parse_precision_def Let_def split: if_splits option.splits prod.splits)

lemma length_parse_qualifier: "parse_qualifier fmt = (q, fmt') \<Longrightarrow> length fmt' \<le> length fmt"
  by (auto simp: parse_qualifier_def Let_def split: if_splits)

lemma length_vsn_convert: "vsn_convert m fmt f w p q st = Some (fmt', st') \<Longrightarrow> length fmt' \<le> length fmt"
  using length_dropWhile_le [of isalnum "tl fmt"]
  by (auto simp: vsn_convert_def Let_def split: if_splits option.splits prod.splits list.splits varg.splits
      simp del: length_dropWhile_le)

lemma length_vsn_directive: "vsn_directive m fmt st = Some (fmt', st') \<Longrightarrow> length fmt' \<le> length fmt"
  using length_parse_flags [of fmt no_flags]
  by (auto simp: vsn_directive_def split: option.splits prod.splits
      dest!: length_vsn_convert length_parse_qualifier length_parse_precision length_parse_width)

function vsn_loop :: "mem \<Rightarrow> char list \<Rightarrow> vsn_state \<Rightarrow> vsn_state option" where
  "vsn_loop m [] st = Some st"
| "vsn_loop m (c # fmt) st =
     (if c = NUL then Some st
      else if c \<noteq> CHR ''%'' then
        (let (out, args, stores) = st in vsn_loop m fmt (out @ [c], args, stores))
      else case vsn_directive m fmt st of
             None \<Rightarrow> None
           | Some (fmt, st) \<Rightarrow> vsn_loop m fmt st)"
  by pat_completeness auto
termination
  by (relation "measure (\<lambda>(m, fmt, st). length fmt)") (auto dest!: length_vsn_directive)

text \<open>
  \<open>vsnprintf_internal\<close>: the bytes stored from \<open>buf\<close> on, the value returned, and the
  stores of \<open>%n\<close>.
\<close>

definition vsnprintf ::
  "mem \<Rightarrow> nat \<Rightarrow> char list \<Rightarrow> varg list \<Rightarrow> (char list \<times> nat \<times> (addr \<times> nat) list) option" where
  "vsnprintf m sz fmt args =
     (case vsn_loop m fmt ([], args, []) of
        None \<Rightarrow> None
      | Some (out, _, stores) \<Rightarrow>
          let str = (if 0 < sz then out @ [NUL] else out);
              buf = (if sz < length str \<and> 0 < sz then take (sz - 1) str @ [NUL] else take sz str)
          in Some (buf, length out, stores))"

definition vscnprintf :: "mem \<Rightarrow> nat \<Rightarrow> char list \<Rightarrow> varg list \<Rightarrow> (char list \<times> nat) option" where
  "vscnprintf m sz fmt args =
     (case vsnprintf m sz fmt args of
        None \<Rightarrow> None
      | Some (buf, i, _) \<Rightarrow> Some (buf, if i < sz then i else if sz \<noteq> 0 then sz - 1 else 0))"

definition INT_MAX :: nat where
  "INT_MAX = 0x7fffffff"

text \<open>\<open>sprintf\<close>: the buffer is bounded by \<open>INT_MAX\<close> only.\<close>

definition sprintf :: "mem \<Rightarrow> char list \<Rightarrow> varg list \<Rightarrow> char list option" where
  "sprintf m fmt args = map_option fst (vsnprintf m INT_MAX fmt args)"

section \<open>The decimal conversion is exact\<close>

lemma mul_205: "x < 400 \<Longrightarrow> x * 205 div 2048 = (x :: nat) div 10"
proof -
  assume "x < 400"
  have "x * 205 = 2048 * (x div 10) + (2 * (x div 10) + 205 * (x mod 10))"
    using mult_div_mod_eq [of 10 x] by linarith
  moreover have "2 * (x div 10) + 205 * (x mod 10) < 2048"
    using mod_less_divisor [of 10 x] mult_div_mod_eq [of 10 x] \<open>x < 400\<close> by linarith
  ultimately show ?thesis
    by simp
qed

lemma mul_13: "x < 69 \<Longrightarrow> x * 13 div 128 = (x :: nat) div 10"
proof -
  assume "x < 69"
  have "x * 13 = 128 * (x div 10) + (2 * (x div 10) + 13 * (x mod 10))"
    using mult_div_mod_eq [of 10 x] by linarith
  moreover have "2 * (x div 10) + 13 * (x mod 10) < 128"
    using mod_less_divisor [of 10 x] mult_div_mod_eq [of 10 x] \<open>x < 69\<close>
    by (cases "x div 10 < 6") linarith+
  ultimately show ?thesis
    by simp
qed

lemma approx_div10:
  fixes d :: u32
  assumes "unat d < 400"
  shows "unat (drop_bit 11 (d * 0xcd)) = unat d div 10"
    and "unat (d - 10 * drop_bit 11 (d * 0xcd)) = unat d mod 10"
proof -
  have "unat (d * 0xcd) = unat d * 205"
    using assms by (subst u32_times) simp_all
  then show 1: "unat (drop_bit 11 (d * 0xcd)) = unat d div 10"
    using mul_205 [OF assms] by (simp add: unat_drop_bit_eq drop_bit_eq_div [where 'a = nat])
  have "unat (10 * drop_bit 11 (d * 0xcd)) = 10 * (unat d div 10)"
    using assms 1 by (subst u32_times) simp_all
  then show "unat (d - 10 * drop_bit 11 (d * 0xcd)) = unat d mod 10"
    by (subst u32_minus) (simp_all add: minus_mult_div_eq_mod)
qed

lemma approx_div10_small:
  fixes d :: u32
  assumes "unat d < 69"
  shows "unat (drop_bit 7 (d * 0xd)) = unat d div 10"
    and "unat (d - 10 * drop_bit 7 (d * 0xd)) = unat d mod 10"
proof -
  have "unat (d * 0xd) = unat d * 13"
    using assms by (subst u32_times) simp_all
  then show 1: "unat (drop_bit 7 (d * 0xd)) = unat d div 10"
    using mul_13 [OF assms] by (simp add: unat_drop_bit_eq drop_bit_eq_div [where 'a = nat])
  have "unat (10 * drop_bit 7 (d * 0xd)) = 10 * (unat d div 10)"
    using assms 1 by (subst u32_times) simp_all
  then show "unat (d - 10 * drop_bit 7 (d * 0xd)) = unat d mod 10"
    by (subst u32_minus) (simp_all add: minus_mult_div_eq_mod)
qed

lemma and_0xf: "(w :: u32) AND 0xf = take_bit 4 w"
  by (simp add: take_bit_eq_mask mask_eq_exp_minus_1)

lemma nibbles:
  fixes q :: u32
  shows "unat (drop_bit 4 q AND 0xf) = unat q div 16 mod 16"
    and "unat (drop_bit 8 q AND 0xf) = unat q div 256 mod 16"
    and "unat (drop_bit 12 q) = unat q div 4096"
    and "unat (q AND 0xf) = unat q mod 16"
  by (simp_all add: and_0xf unsigned_take_bit_eq unat_drop_bit_eq
      drop_bit_eq_div [where 'a = nat] take_bit_eq_mod [where 'a = nat])

lemma dec_step0:
  fixes a b c :: u32
  assumes "unat a < 25" "unat b < 16" "unat c < 16" "unat e < 16"
  shows "unat (6 * (a + b + c) + e) = 6 * (unat a + unat b + unat c) + unat e"
proof -
  have 1: "unat (a + b + c) = unat a + unat b + unat c"
    using assms by (simp add: u32_plus)
  then have "unat (6 * (a + b + c)) = 6 * (unat a + unat b + unat c)"
    using assms by (subst u32_times) simp_all
  then show ?thesis
    using assms by (subst u32_plus) simp_all
qed

lemma dec_step1:
  fixes q a b c :: u32
  assumes "unat q < 40" "unat a < 25" "unat b < 16" "unat c < 16"
  shows "unat (q + 9 * a + 5 * b + c) = unat q + 9 * unat a + 5 * unat b + unat c"
proof -
  have "unat (9 * a) = 9 * unat a" "unat (5 * b) = 5 * unat b"
    using assms by (subst u32_times; simp)+
  then show ?thesis
    using assms by (simp add: u32_plus)
qed

lemma dec_step2:
  fixes q b :: u32
  assumes "unat q < 40" "unat b < 25"
  shows "unat (q + 2 * b) = unat q + 2 * unat b" "unat (q + 4 * b) = unat q + 4 * unat b"
proof -
  have "unat (2 * b) = 2 * unat b" "unat (4 * b) = 4 * unat b"
    using assms by (subst u32_times; simp)+
  then show "unat (q + 2 * b) = unat q + 2 * unat b" "unat (q + 4 * b) = unat q + 4 * unat b"
    using assms by (simp_all add: u32_plus)
qed

lemma dchar_digit: "unat d < 10 \<Longrightarrow> dchar d = digit_char False (unat d)"
  by (simp add: dchar_def digit_char_def u32_plus)

text \<open>The four steps of both decimal routines, in natural numbers.\<close>

lemma dec_columns:
  fixes a b c e Q :: nat
  assumes "Q = 4096 * a + 256 * b + 16 * c + e" "a < 25" "b < 16" "c < 16" "e < 16"
  defines "x0 \<equiv> 6 * (a + b + c) + e"
  defines "x1 \<equiv> x0 div 10 + 9 * a + 5 * b + c"
  defines "x2 \<equiv> x1 div 10 + 2 * b"
  defines "x3 \<equiv> x2 div 10 + 4 * a"
  shows "x0 mod 10 = Q mod 10" "Q div 10 = x1 + 400 * a + 20 * b" "x1 mod 10 = Q div 10 mod 10"
    "Q div 100 = x2 + 40 * a" "x2 mod 10 = Q div 100 mod 10" "x3 = Q div 1000"
    "x0 < 400" "x1 < 400" "x2 < 69" "x3 < 400"
proof -
  have div: "(10 * k + x) div 10 = k + x div 10" and mod: "(10 * k + x) mod 10 = x mod 10"
    for k x :: nat
    by (simp_all only: div_mult_self4 mod_mult_self4 numeral_neq_zero not_False_eq_True)
  have Q: "Q = 10 * (409 * a + 25 * b + c) + x0"
    unfolding assms(1) x0_def by simp
  show "x0 mod 10 = Q mod 10"
    unfolding Q mod ..
  show 1: "Q div 10 = x1 + 400 * a + 20 * b"
    unfolding Q div x1_def by simp
  then have Q1: "Q div 10 = 10 * (40 * a + 2 * b) + x1"
    by simp
  show "x1 mod 10 = Q div 10 mod 10"
    unfolding Q1 mod ..
  have "Q div 100 = Q div 10 div 10"
    by (simp flip: div_mult2_eq)
  then show 2: "Q div 100 = x2 + 40 * a"
    unfolding Q1 div x2_def by simp
  then have Q2: "Q div 100 = 10 * (4 * a) + x2"
    by simp
  show "x2 mod 10 = Q div 100 mod 10"
    unfolding Q2 mod ..
  have "Q div 1000 = Q div 100 div 10"
    by (simp flip: div_mult2_eq)
  then show "x3 = Q div 1000"
    unfolding Q2 div x3_def by simp
  have le: "x \<le> 339 \<Longrightarrow> x div 10 \<le> 33" for x :: nat
    using div_le_mono [of x 339 10] by simp
  have x0: "x0 \<le> 339"
    using assms(2-5) by (simp add: x0_def)
  then show "x0 < 400"
    by simp
  from le [OF x0] have x1: "x1 \<le> 339"
    using assms(2-5) by (simp add: x1_def)
  then show "x1 < 400"
    by simp
  from le [OF x1] show x2: "x2 < 69"
    using assms(2-5) by (simp add: x2_def)
  then have "x2 div 10 \<le> 33"
    by (intro le) simp
  then show "x3 < 400"
    using assms(2-5) by (simp add: x3_def)
qed

lemma nibble_columns:
  fixes Q :: nat
  shows "Q = 4096 * (Q div 4096) + 256 * (Q div 256 mod 16) + 16 * (Q div 16 mod 16) + Q mod 16"
proof -
  have "Q div 256 = Q div 16 div 16" "Q div 4096 = Q div 256 div 16"
    by (simp_all flip: div_mult2_eq)
  then show ?thesis
    using mult_div_mod_eq [of 16 Q] mult_div_mod_eq [of 16 "Q div 16"]
      mult_div_mod_eq [of 16 "Q div 256"] by linarith
qed

lemma dec_words:
  fixes q :: u32
  assumes "unat q < 100000"
  defines "d1 \<equiv> drop_bit 4 q AND 0xf" and "d2 \<equiv> drop_bit 8 q AND 0xf" and "d3 \<equiv> drop_bit 12 q"
  defines "w0 \<equiv> 6 * (d3 + d2 + d1) + (q AND 0xf)"
  defines "q1 \<equiv> drop_bit 11 (w0 * 0xcd)"
  defines "w1 \<equiv> q1 + 9 * d3 + 5 * d2 + d1"
  defines "q2 \<equiv> drop_bit 11 (w1 * 0xcd)"
  defines "w2 \<equiv> q2 + 2 * d2"
  defines "q3 \<equiv> drop_bit 7 (w2 * 0xd)"
  defines "w3 \<equiv> q3 + 4 * d3"
  defines "q4 \<equiv> drop_bit 11 (w3 * 0xcd)"
  shows "unat (w0 - 10 * q1) = unat q mod 10" "unat (w1 - 10 * q2) = unat q div 10 mod 10"
    "unat (w2 - 10 * q3) = unat q div 100 mod 10" "unat (w3 - 10 * q4) = unat q div 1000 mod 10"
    "unat q4 = unat q div 10000"
    "w1 = 0 \<longleftrightarrow> unat q div 10 = 0" "w2 = 0 \<and> d3 = 0 \<longleftrightarrow> unat q div 100 = 0"
    "w3 = 0 \<longleftrightarrow> unat q div 1000 = 0" "q4 = 0 \<longleftrightarrow> unat q div 10000 = 0"
proof -
  let ?Q = "unat q"
  have b: "?Q div 4096 < 25" "?Q div 256 mod 16 < 16" "?Q div 16 mod 16 < 16" "?Q mod 16 < 16"
    using assms(1) by auto
  note c = dec_columns [OF nibble_columns b]
  have d: "unat d1 = ?Q div 16 mod 16" "unat d2 = ?Q div 256 mod 16" "unat d3 = ?Q div 4096"
    "unat (q AND 0xf) = ?Q mod 16"
    unfolding d1_def d2_def d3_def by (rule nibbles)+
  note b = b [folded d] and c = c [folded d]
  have w0: "unat w0 = 6 * (unat d3 + unat d2 + unat d1) + unat (q AND 0xf)"
    unfolding w0_def by (rule dec_step0 [OF b])
  note c = c [folded w0]
  note q1 = approx_div10 [OF c(7), folded q1_def]
  have w1: "unat w1 = unat w0 div 10 + 9 * unat d3 + 5 * unat d2 + unat d1"
    unfolding w1_def q1(1) [symmetric] using b c(7) by (intro dec_step1) (auto simp: q1)
  note c = c [folded w1]
  note q2 = approx_div10 [OF c(8), folded q2_def]
  have w2: "unat w2 = unat w1 div 10 + 2 * unat d2"
    unfolding w2_def q2(1) [symmetric] using b c(8) by (intro dec_step2) (auto simp: q2)
  note c = c [folded w2]
  note q3 = approx_div10_small [OF c(9), folded q3_def]
  have w3: "unat w3 = unat w2 div 10 + 4 * unat d3"
    unfolding w3_def q3(1) [symmetric] using b c(9) by (intro dec_step2) (auto simp: q3)
  note c = c [folded w3]
  note q4 = approx_div10 [OF c(10), folded q4_def]
  show "unat (w0 - 10 * q1) = unat q mod 10" "unat (w1 - 10 * q2) = unat q div 10 mod 10"
    "unat (w2 - 10 * q3) = unat q div 100 mod 10" "unat (w3 - 10 * q4) = unat q div 1000 mod 10"
    by (simp_all only: q1 q2 q3 q4 c)
  show "unat q4 = unat q div 10000"
    unfolding q4 c(6) by (simp flip: div_mult2_eq)
  then show "q4 = 0 \<longleftrightarrow> unat q div 10000 = 0"
    by (simp only: unat_eq_0 [symmetric])
  have "unat w1 = 0 \<longleftrightarrow> unat q div 10 = 0"
    unfolding c(2) using w1 by auto
  then show "w1 = 0 \<longleftrightarrow> unat q div 10 = 0"
    by (simp only: unat_eq_0 [symmetric])
  have "unat w2 = 0 \<and> unat d3 = 0 \<longleftrightarrow> unat q div 100 = 0"
    unfolding c(4) by auto
  then show "w2 = 0 \<and> d3 = 0 \<longleftrightarrow> unat q div 100 = 0"
    by (simp only: unat_eq_0 [symmetric])
  show "w3 = 0 \<longleftrightarrow> unat q div 1000 = 0"
    by (simp only: unat_eq_0 [symmetric] c(6))
qed

lemma dchar_digit_eq: "unat d = n mod 10 \<Longrightarrow> dchar d = digit_char False (n mod 10)"
  using dchar_digit [of d] by simp

lemma put_dec_full_digits:
  assumes "unat q < 100000"
  shows "put_dec_full q = map (digit_char False)
    [unat q mod 10, unat q div 10 mod 10, unat q div 100 mod 10, unat q div 1000 mod 10, unat q div 10000]"
proof -
  note w = dec_words [OF assms]
  have "unat q div 10000 < 10"
    using assms by simp
  then show ?thesis
    unfolding put_dec_full_def Let_def list.map
    by (simp only: w(1-4) [THEN dchar_digit_eq] w(5) dchar_digit)
qed

lemma put_dec_trunc_digits:
  assumes "unat q < 100000"
  shows "put_dec_trunc q = map (digit_char False) (nat_digits 10 (unat q))"
proof -
  note w = dec_words [OF assms]
  let ?Q = "unat q"
  have div: "?Q div 10 div 10 = ?Q div 100" "?Q div 100 div 10 = ?Q div 1000"
    "?Q div 1000 div 10 = ?Q div 10000" and top: "?Q div 10000 div 10 = 0" "?Q div 10000 < 10" "?Q div 10000 mod 10 = ?Q div 10000"
    using assms by (simp_all flip: div_mult2_eq)
  have dig: "nat_digits 10 ?Q = ?Q mod 10 # (if ?Q div 10 = 0 then [] else
      ?Q div 10 mod 10 # (if ?Q div 100 = 0 then [] else
      ?Q div 100 mod 10 # (if ?Q div 1000 = 0 then [] else
      ?Q div 1000 mod 10 # (if ?Q div 10000 = 0 then [] else [?Q div 10000]))))"
    by (subst nat_digits_step, subst nat_digits_step, unfold div, subst nat_digits_step, unfold div,
        subst nat_digits_step, unfold div, subst nat_digits_step, simp only: top if_True simp_thms)
  show ?thesis
    unfolding dig put_dec_trunc_def Let_def 
    by (simp only: w(1-4) [THEN dchar_digit_eq] w(5) dchar_digit [OF top(2) [folded w(5)]]
        w(6-9) if_swap de_Morgan_conj [symmetric] list.map if_distrib [of "map (digit_char False)"])
qed

text \<open>Every number is converted to its decimal digits.\<close>

lemma nat_digits_5:
  assumes "100000 \<le> n"
  defines "r \<equiv> n mod 100000"
  shows "nat_digits 10 n = [r mod 10, r div 10 mod 10, r div 100 mod 10, r div 1000 mod 10, r div 10000]
           @ nat_digits 10 (n div 100000)"
proof -
  have div: "n div 10 div 10 = n div 100" "n div 100 div 10 = n div 1000"
    "n div 1000 div 10 = n div 10000" "n div 10000 div 10 = n div 100000"
    by (simp_all flip: div_mult2_eq)
  have pos: "n div 10 \<noteq> 0" "n div 100 \<noteq> 0" "n div 1000 \<noteq> 0" "n div 10000 \<noteq> 0" "n div 100000 \<noteq> 0"
    using assms(1) by (auto simp: div_eq_0_iff)
  have "n mod (a * b) div a = n div a mod b" if "0 < a" for a b :: nat
    using that by (simp add: mod_mult2_eq)
  from this [of 10 10000] this [of 100 1000] this [of 1000 100] this [of 10000 10]
  have r: "r mod 10 = n mod 10" "r div 10 mod 10 = n div 10 mod 10" "r div 100 mod 10 = n div 100 mod 10"
    "r div 1000 mod 10 = n div 1000 mod 10" "r div 10000 = n div 10000 mod 10"
    unfolding r_def by (simp_all add: mod_mod_cancel)
  have "nat_digits 10 n = n mod 10 # n div 10 mod 10 # n div 100 mod 10 # n div 1000 mod 10
      # n div 10000 mod 10 # nat_digits 10 (n div 100000)"
    by (subst nat_digits_step, subst nat_digits_step, unfold div, subst nat_digits_step, unfold div,
        subst nat_digits_step, unfold div, subst nat_digits_step, unfold div, simp only: pos if_False)
  then show ?thesis
    by (simp only: r append.simps)
qed

theorem put_dec_digits: "put_dec num = map (digit_char False) (nat_digits 10 (unat num))"
proof (induction num rule: put_dec.induct)
  case (1 num)
  show ?case
  proof (cases "num < 100000")
    case True
    then have "unat num < 100000"
      by (simp add: word_less_nat_alt)
    then show ?thesis
      using put_dec_trunc_digits [of "ucast num"] True
      by (subst put_dec.simps) (simp add: unsigned_ucast_eq take_bit_eq_mod [where 'a = nat])
  next
    case False
    then have le: "100000 \<le> unat num"
      by (simp add: word_less_nat_alt)
    have m: "unat (ucast (num mod 100000) :: u32) = unat num mod 100000"
      by (simp add: unsigned_ucast_eq take_bit_eq_mod [where 'a = nat] unat_mod)
    show ?thesis
      using 1 False le put_dec_full_digits [of "ucast (num mod 100000)"] m
      by (subst put_dec.simps) (simp add: unat_div nat_digits_5)
  qed
qed

text \<open>The digit loop for base 16 and 8.\<close>

lemma number_digits_nth:
  "d < 16 \<Longrightarrow> or_locase small (number_digits ! d) = digit_char small d"
proof -
  have "\<forall>d \<in> set [0..<16]. or_locase True (number_digits ! d) = digit_char True d
      \<and> or_locase False (number_digits ! d) = digit_char False d"
    by (simp add: upt_rec number_digits_def or_locase_def digit_char_def char_of_def bit_Suc_0_iff)
  then show "d < 16 \<Longrightarrow> ?thesis"
    by (cases small) auto
qed

lemma and_mask_u8: "(w :: u8) AND 15 = take_bit 4 w" "(w :: u8) AND 7 = take_bit 3 w"
  by (simp_all add: take_bit_eq_mask mask_eq_exp_minus_1)

lemma pow2_digits_digits:
  assumes "base = 8 \<or> base = 16"
  shows "pow2_digits base small num = map (digit_char small) (nat_digits base (unat num))"
  using assms
proof (induction base small num rule: pow2_digits.induct)
  case (1 base small num)
  define s :: nat where "s = (if base = 16 then 4 else 3)"
  have base: "base = 2 ^ s"
    using 1(2) by (auto simp: s_def)
  have "unat ((ucast num :: u8) AND of_nat (base - 1)) = unat num mod base"
    using 1(2) by (auto simp: and_mask_u8 unsigned_take_bit_eq unsigned_ucast_eq
        take_bit_eq_mod [where 'a = nat] mod_mod_cancel)
  moreover have "unat num mod base < 16"
    using 1(2) by auto
  moreover have "unat (drop_bit s num) = unat num div base"
    by (simp add: base unat_drop_bit_eq drop_bit_eq_div [where 'a = nat])
  moreover have "drop_bit s num = 0 \<longleftrightarrow> unat num < base" 
    by (simp add: base unat_drop_bit_eq drop_bit_eq_div [where 'a = nat] div_eq_0_iff flip: unat_eq_0)
  ultimately show ?case
    using 1(1) [OF refl s_def refl refl] 1(2)
    apply (subst pow2_digits.simps, subst nat_digits.simps)
    apply (simp only: Let_def s_def [symmetric])
    apply (auto simp: number_digits_nth)
    done
qed

section \<open>What number() prints\<close>

lemma number_tmp_digits:
  assumes "base \<in> {8, 10, 16}" "small \<or> base = 10"
  shows "number_tmp base small num = map (digit_char (base \<noteq> 10)) (nat_digits base (unat num))"
proof -
  have "nat_digits base 0 = [0]"
    using assms(1) by (subst nat_digits.simps) auto
  then show ?thesis
    using assms
    by (auto simp: number_tmp_def pow2_digits_digits put_dec_digits digit_char_def char_of_def bit_simps)
qed

lemma length_number_tmp: "- 1 < int (length (number_tmp base small num))"
  by simp

lemma number_unsigned:
  assumes "\<not> SIGN type" "\<not> SPECIAL type" "\<not> LEFT type"
  shows "number num base sz (-1) type =
    (let ds = rev (number_tmp base (SMALL type) num)
     in replicate (nat (sz - int (length ds))) (if ZEROPAD type then CHR ''0'' else CHR '' '') @ ds)"
  using assms by (cases "ZEROPAD type") (simp_all add: number_def Let_def count_down_def)

lemma number_signed:
  assumes "SIGN type" "\<not> SPECIAL type" "\<not> PLUS type" "\<not> SPACE type"
  shows "number num 10 (-1) (-1) type =
    (if sint num < 0 then CHR ''-'' # rev (put_dec (- num)) else rev (number_tmp 10 False num))"
proof -
  have "- num \<noteq> 0" if "sint num < 0"
    using that by auto
  then show ?thesis
    using assms by (cases "ZEROPAD type"; cases "LEFT type") (auto simp add: number_def Let_def count_down_def number_tmp_def)
qed

text \<open>Zero padding does not change the value.\<close>

lemma zeros_digit_char: "replicate k CHR ''0'' = map (digit_char small) (replicate k 0)"
  by (simp add: digit_char_def char_of_def bit_simps)

lemma unat_ucast_u64: "unat (ucast (n :: u32) :: u64) = unat n"
  using unat_u32_less [of n] by (simp add: unsigned_ucast_eq take_bit_nat_eq_self)

theorem hex_roundtrip:
  fixes n :: ulong
  assumes "\<not> SIGN type" "\<not> SPECIAL type" "\<not> LEFT type" "SMALL type" "ZEROPAD type \<or> sz \<le> 0"
  shows "simple_strtoul (number (ucast n) 16 sz (-1) type) 16 = (n, [])"
proof -
  define k where "k = nat (sz - int (length (nat_digits 16 (unat n))))"
  define ds where "ds = replicate k 0 @ rev (nat_digits 16 (unat n))"
  have "number (ucast n) 16 sz (-1) type = map (digit_char True) ds @ []"
    using assms by (auto simp: number_unsigned number_tmp_digits ds_def k_def digit_char_zero rev_map unat_ucast_u64)
  moreover have "ds \<noteq> []" "\<forall>d \<in> set ds. d < 16"
    using nat_digits_less [of 16 _ "unat n"] by (auto simp: ds_def)
  moreover have "digits_value 16 0 ds = unat n"
    unfolding ds_def by (simp only: digits_value_zeros digits_value_rev_nat_digits)
  ultimately show ?thesis
    using simple_strtoul_digits [of ds 16 "[]" True] by (simp add: isxdigit_iff)
qed

lemma u64_minus: "of_nat (unat (- w :: u64)) = - (of_nat (unat w) :: u32)"
proof (cases "w = 0")
  case False
  have lt: "unat w < 2 ^ LENGTH(64)"
    by (rule unsigned_less)
  from False have "unat (- w) = 2 ^ 64 - unat w"
    using unat_sub_if_size [of 0 w] by (simp add: word_size unat_eq_0 word_le_nat_alt)
  then have "(of_nat (unat (- w)) :: u32) = of_nat (2 ^ 64 - unat w)"
    by (simp only:)
  also have "\<dots> = of_nat (2 ^ 64) - of_nat (unat w)"
    using lt by (intro of_nat_diff) simp
  also have "of_nat (2 ^ 64) = (0 :: u32)"
    by simp
  finally show ?thesis
    by simp
qed simp

lemma u64_of_scast: "of_nat (unat (scast n :: u64)) = (n :: u32)"
proof -
  have "ucast (scast n :: u64) = n"
    by (rule bit_word_eqI) (simp add: bit_simps)
  then show ?thesis
    by (simp add: of_nat_unat)
qed
theorem dec_roundtrip:
  fixes n :: ulong
  assumes "SIGN type" "\<not> SPECIAL type" "\<not> PLUS type" "\<not> SPACE type"
  shows "simple_strtol (number (scast n) 10 (-1) (-1) type) 10 = (n, [])"
proof -
  have rt: "simple_strtoul (rev (map (digit_char False) (nat_digits 10 m))) 10 = (of_nat m, [])" for m
    using simple_strtoul_digits [of "rev (nat_digits 10 m)" 10 "[]" False] nat_digits_less [of 10 _ m]
    by (auto simp: rev_map isxdigit_iff digits_value_rev_nat_digits)
  show ?thesis
  proof (cases "sint (scast n :: u64) < 0")
    case True
    then have "number (scast n) 10 (-1) (-1) type
        = CHR ''-'' # rev (map (digit_char False) (nat_digits 10 (unat (- (scast n :: u64)))))"
      using number_signed [OF assms, of "scast n"] by (simp add: put_dec_digits)
    then show ?thesis
      by (simp add: simple_strtol_def rt u64_minus u64_of_scast del: of_nat_unat)
  next
    case False
    then have "number (scast n) 10 (-1) (-1) type
        = rev (map (digit_char False) (nat_digits 10 (unat (scast n :: u64))))" (is "_ = ?s")
      using number_signed [OF assms, of "scast n"] by (simp add: number_tmp_digits)
    moreover have "peek ?s \<noteq> CHR ''-''"
      unfolding rev_map
      by (rule digits_not_minus) (auto dest!: nat_digits_less [of 10, simplified])
    ultimately show ?thesis
      by (simp add: simple_strtol_def rt u64_of_scast del: of_nat_unat)
  qed
qed


section \<open>The buffer bound\<close>



end
