(* ===== verification/C_Sort.thy ===== *)
theory C_Sort
  imports UB_Prelude "HOL-Library.Multiset"
begin

text \<open>
  \<^verbatim>\<open>lib/qsort.c\<close>: a Shell sort over an array of elements with a comparison function. The
  byte offsets of the source, multiples of the element width, are element indices here, and
  the byte-wise exchange is an exchange of elements.
\<close>

definition swap_at :: "'a list \<Rightarrow> nat \<Rightarrow> nat \<Rightarrow> 'a list" where
  "swap_at xs i j = xs[i := xs ! j, j := xs ! i]"

text \<open>The innermost loop: move element \<open>j\<close> down in steps of \<open>gap\<close>; \<open>gap\<close> is positive.\<close>

function sift_down :: "('a \<Rightarrow> 'a \<Rightarrow> int) \<Rightarrow> nat \<Rightarrow> 'a list \<Rightarrow> nat \<Rightarrow> 'a list" where
  "sift_down cmp gap xs j =
     (let j = j - gap in
      if cmp (xs ! j) (xs ! (j + gap)) \<le> 0 then xs
      else
        let xs = swap_at xs j (j + gap)
        in if 0 < gap \<and> gap \<le> j then sift_down cmp gap xs j else xs)"
  by auto
termination
  by (relation "measure (\<lambda>(cmp, gap, xs, j). j)") auto

declare sift_down.simps [simp del]

text \<open>One pass over the array, \<open>n\<close> elements from \<open>i\<close> on.\<close>

fun gap_pass :: "('a \<Rightarrow> 'a \<Rightarrow> int) \<Rightarrow> nat \<Rightarrow> 'a list \<Rightarrow> nat \<Rightarrow> nat \<Rightarrow> 'a list" where
  "gap_pass cmp gap xs i 0 = xs"
| "gap_pass cmp gap xs i (Suc n) = gap_pass cmp gap (sift_down cmp gap xs i) (i + 1) n"

function first_gap :: "nat \<Rightarrow> nat \<Rightarrow> nat" where
  "first_gap nel gap = (let gap = 3 * gap + 1 in if gap < (nel - 1) div 3 then first_gap nel gap else gap)"
  by auto
termination
  by (relation "measure (\<lambda>(nel, gap). nel - gap)") auto

declare first_gap.simps [simp del]

function gap_passes :: "('a \<Rightarrow> 'a \<Rightarrow> int) \<Rightarrow> nat \<Rightarrow> 'a list \<Rightarrow> 'a list" where
  "gap_passes cmp gap xs =
     (let xs = gap_pass cmp gap xs gap (length xs - gap); gap' = (gap - 1) div 3
      in if gap' = 0 then xs else gap_passes cmp gap' xs)"
  by auto
termination
  by (relation "measure (\<lambda>(cmp, gap, xs). gap)") auto

declare gap_passes.simps [simp del]

definition qsort :: "('a \<Rightarrow> 'a \<Rightarrow> int) \<Rightarrow> 'a list \<Rightarrow> 'a list" where
  "qsort cmp xs = (if 1 < length xs then gap_passes cmp (first_gap (length xs) 0) xs else xs)"

lemma sift_down_snoc: "sift_down cmp 1 (ws @ p # q # zs) (Suc (length ws))
    = (if cmp p q \<le> 0 then ws @ p # q # zs
       else if ws = [] then ws @ q # p # zs else sift_down cmp 1 (ws @ q # p # zs) (length ws))"
proof -
  have "swap_at (ws @ p # q # zs) (length ws) (length ws + 1) = ws @ q # p # zs"
    by (simp add: swap_at_def nth_append list_update_append)
  moreover have "(ws @ p # q # zs) ! length ws = p" "(ws @ p # q # zs) ! (length ws + 1) = q"
    by (simp_all add: nth_append)
  moreover have "(0 < (1::nat) \<and> 1 \<le> length ws) = (ws \<noteq> [])"
    by (cases ws) auto
  ultimately show ?thesis
    by (subst sift_down.simps) (simp only: Let_def diff_Suc_1 split: if_split, simp)
qed

section \<open>The order a comparison function has to give\<close>

text \<open>
  What \<open>qsort\<close> needs of its comparison function on the elements \<open>A\<close> it meets: it is
  transitive, and one of two elements comes first.
\<close>

locale comparator =
  fixes cmp :: "'a \<Rightarrow> 'a \<Rightarrow> int" and A :: "'a set"
  assumes cmp_trans: "\<lbrakk>a \<in> A; b \<in> A; c \<in> A; cmp a b \<le> 0; cmp b c \<le> 0\<rbrakk> \<Longrightarrow> cmp a c \<le> 0"
    and cmp_total: "\<lbrakk>a \<in> A; b \<in> A; \<not> cmp a b \<le> 0\<rbrakk> \<Longrightarrow> cmp b a \<le> 0"
begin

lemma sift_down_1:
  assumes "ys \<noteq> []" "set ys \<subseteq> A" "q \<in> A" "sorted_wrt (\<lambda>a b. cmp a b \<le> 0) ys"
  shows "\<exists>us. sift_down cmp 1 (ys @ q # zs) (length ys) = us @ zs
    \<and> sorted_wrt (\<lambda>a b. cmp a b \<le> 0) us \<and> mset us = mset (ys @ [q])"
  using assms
proof (induction ys arbitrary: zs rule: rev_induct)
  case (snoc p ws)
  note upd = sift_down_snoc [of cmp ws p q zs]
  have A: "set ws \<subseteq> A" "p \<in> A" "q \<in> A" and ws: "sorted_wrt (\<lambda>a b. cmp a b \<le> 0) ws"
    and le: "\<And>w. w \<in> set ws \<Longrightarrow> cmp w p \<le> 0"
    using snoc.prems by (simp_all add: sorted_wrt_append)
  show ?case
  proof (cases "cmp p q \<le> 0")
    case True
    have "cmp w q \<le> 0" if "w \<in> set ws" for w
      using cmp_trans [of w p q] that A le True by blast
    then have "sorted_wrt (\<lambda>a b. cmp a b \<le> 0) (ws @ [p, q])"
      using ws le True by (simp add: sorted_wrt_append)
    with True upd show ?thesis
      by (intro exI [of _ "ws @ [p, q]"]) simp
  next
    case False
    then have qp: "cmp q p \<le> 0"
      using A cmp_total by blast
    show ?thesis
    proof (cases "ws = []")
      case True
      with False upd qp show ?thesis
        by (intro exI [of _ "[q, p]"]) simp
    next
      case ne: False
      from snoc.IH [OF this A(1,3) ws, of "p # zs"]
      obtain us where us: "sift_down cmp 1 (ws @ q # p # zs) (length ws) = us @ p # zs"
        "sorted_wrt (\<lambda>a b. cmp a b \<le> 0) us" "mset us = mset (ws @ [q])"
        by blast
      from arg_cong [OF us(3), of set_mset] have "set us = insert q (set ws)"
        by simp
      then have "sorted_wrt (\<lambda>a b. cmp a b \<le> 0) (us @ [p])"
        using us(2) le qp by (simp add: sorted_wrt_append)
      moreover have "sift_down cmp 1 ((ws @ [p]) @ q # zs) (length (ws @ [p])) = (us @ [p]) @ zs"
        using us(1) upd False ne by simp
      moreover have "mset (us @ [p]) = mset ((ws @ [p]) @ [q])"
        using us(3) by simp
      ultimately show ?thesis
        by blast
    qed
  qed
qed simp

lemma gap_pass_1:
  assumes "ys \<noteq> []" "set ys \<subseteq> A" "set zs \<subseteq> A" "sorted_wrt (\<lambda>a b. cmp a b \<le> 0) ys"
  shows "sorted_wrt (\<lambda>a b. cmp a b \<le> 0) (gap_pass cmp 1 (ys @ zs) (length ys) (length zs))"
  using assms
proof (induction zs arbitrary: ys)
  case (Cons z zs)
  then obtain us where us: "sift_down cmp 1 (ys @ z # zs) (length ys) = us @ zs"
    "sorted_wrt (\<lambda>a b. cmp a b \<le> 0) us" "mset us = mset (ys @ [z])"
    using sift_down_1 [of ys z zs] by auto
  from arg_cong [OF us(3), of set_mset] arg_cong [OF us(3), of size]
  have "set us = insert z (set ys)" "length us = length ys + 1"
    by simp_all
  moreover from this have "sorted_wrt (\<lambda>a b. cmp a b \<le> 0) (gap_pass cmp 1 (us @ zs) (length us) (length zs))"
    using Cons.prems us(2) by (intro Cons.IH) auto
  ultimately show ?case
    using us(1) by simp
qed simp

end

section \<open>The result is a permutation\<close>

lemma mset_swap_at: "i < length xs \<Longrightarrow> j < length xs \<Longrightarrow> mset (swap_at xs i j) = mset xs"
  unfolding swap_at_def by (rule mset_swap)

lemma sift_down_mset: "0 < gap \<Longrightarrow> gap \<le> j \<Longrightarrow> j < length xs \<Longrightarrow> mset (sift_down cmp gap xs j) = mset xs"
proof (induction cmp gap xs j rule: sift_down.induct)
  case (1 cmp gap xs j)
  let ?xs = "swap_at xs (j - gap) (j - gap + gap)"
  have eq: "sift_down cmp gap xs j =
      (if cmp (xs ! (j - gap)) (xs ! (j - gap + gap)) \<le> 0 then xs
       else if 0 < gap \<and> gap \<le> j - gap then sift_down cmp gap ?xs (j - gap) else ?xs)"
    by (subst sift_down.simps) (simp only: Let_def)
  have "mset ?xs = mset xs"
    using 1 by (intro mset_swap_at) auto
  moreover have "length ?xs = length xs"
    by (simp add: swap_at_def)
  ultimately show ?case
    unfolding eq using 1(1) [OF refl _ refl] 1(2-4) by auto
qed

lemma sift_down_length: "0 < gap \<Longrightarrow> gap \<le> j \<Longrightarrow> j < length xs \<Longrightarrow> length (sift_down cmp gap xs j) = length xs"
  using sift_down_mset [of gap j xs cmp] by (metis mset_eq_length)

lemma gap_pass_mset:
  "0 < gap \<Longrightarrow> gap \<le> i \<Longrightarrow> i + n \<le> length xs \<Longrightarrow> mset (gap_pass cmp gap xs i n) = mset xs"
  by (induction cmp gap xs i n rule: gap_pass.induct) (auto simp: sift_down_mset sift_down_length)

text \<open>The gaps are 1, 4, 13, ...\<close>

fun gap_seq :: "nat \<Rightarrow> nat" where
  "gap_seq 0 = 0"
| "gap_seq (Suc k) = 3 * gap_seq k + 1"

lemma first_gap_seq: "gap = gap_seq m \<Longrightarrow> \<exists>k. first_gap nel gap = gap_seq (Suc k)"
proof (induction nel gap arbitrary: m rule: first_gap.induct)
  case (1 nel gap)
  show ?case
  proof (cases "3 * gap + 1 < (nel - 1) div 3")
    case True
    with 1(1) [OF refl, of "Suc m"] 1(2) show ?thesis
      by (subst first_gap.simps) (simp add: Let_def)
  next
    case False
    with 1(2) have "first_gap nel gap = gap_seq (Suc m)"
      by (subst first_gap.simps) (simp add: Let_def)
    then show ?thesis ..
  qed
qed

lemma first_gap_less: "gap = 0 \<or> gap < (nel - 1) div 3 \<Longrightarrow> 1 < nel \<Longrightarrow> first_gap nel gap < nel"
proof (induction nel gap rule: first_gap.induct)
  case (1 nel gap)
  show ?case
  proof (cases "3 * gap + 1 < (nel - 1) div 3")
    case True
    then show ?thesis
      using 1 by (subst first_gap.simps) simp
  next
    case False
    then show ?thesis
      using 1(2,3) by (subst first_gap.simps) auto
  qed
qed

lemma gap_passes_mset: "gap_seq (Suc k) < length xs \<Longrightarrow> mset (gap_passes cmp (gap_seq (Suc k)) xs) = mset xs"
proof (induction k arbitrary: xs)
  case 0
  then show ?case
    by (subst gap_passes.simps) (simp add: gap_pass_mset)
next
  case (Suc k)
  let ?g = "gap_seq (Suc (Suc k))"
  let ?ys = "gap_pass cmp ?g xs ?g (length xs - ?g)"
  have ys: "mset ?ys = mset xs"
    using Suc.prems by (intro gap_pass_mset) auto
  then have "length ?ys = length xs"
    by (rule mset_eq_length)
  moreover have "(?g - 1) div 3 = gap_seq (Suc k)"
    by simp
  moreover have "gap_seq (Suc k) \<noteq> 0"
    by simp
  ultimately show ?case
    using Suc.IH [of ?ys] Suc.prems ys
    by (subst gap_passes.simps) (simp add: Let_def del: gap_seq.simps)
qed

theorem qsort_mset: "mset (qsort cmp xs) = mset xs"
proof (cases "1 < length xs")
  case True
  obtain k where "first_gap (length xs) 0 = gap_seq (Suc k)"
    using first_gap_seq [of 0 0] by auto
  moreover from this have "gap_seq (Suc k) < length xs"
    using first_gap_less [of 0 "length xs"] True by simp
  ultimately show ?thesis
    using True gap_passes_mset [of k xs cmp] by (simp add: qsort_def)
qed (simp add: qsort_def)

context comparator
begin

lemma gap_passes_sorted:
  "gap_seq (Suc k) < length xs \<Longrightarrow> set xs \<subseteq> A
   \<Longrightarrow> sorted_wrt (\<lambda>a b. cmp a b \<le> 0) (gap_passes cmp (gap_seq (Suc k)) xs)"
proof (induction k arbitrary: xs)
  case 0
  then obtain y zs where "xs = y # zs"
    by (cases xs) auto
  with 0 gap_pass_1 [of "[y]" zs] show ?case
    by (subst gap_passes.simps) (simp add: Let_def)
next
  case (Suc k)
  let ?g = "gap_seq (Suc (Suc k))"
  let ?ys = "gap_pass cmp ?g xs ?g (length xs - ?g)"
  have ys: "mset ?ys = mset xs"
    using Suc.prems by (intro gap_pass_mset) auto
  then have "length ?ys = length xs" "set ?ys = set xs"
    by (rule mset_eq_length, rule mset_eq_setD)
  moreover have "(?g - 1) div 3 = gap_seq (Suc k)" "gap_seq (Suc k) \<noteq> 0" "gap_seq (Suc k) \<le> ?g"
    by simp_all
  ultimately show ?case
    using Suc.IH [of ?ys] Suc.prems
    by (subst gap_passes.simps) (simp add: Let_def del: gap_seq.simps)
qed

lemma qsort_sorted:
  assumes "set xs \<subseteq> A"
  shows "sorted_wrt (\<lambda>a b. cmp a b \<le> 0) (qsort cmp xs)"
proof (cases "1 < length xs")
  case True
  obtain k where k: "first_gap (length xs) 0 = gap_seq (Suc k)"
    using first_gap_seq [of 0 0] by auto
  moreover from this have "gap_seq (Suc k) < length xs"
    using first_gap_less [of 0 "length xs"] True by simp
  ultimately show ?thesis
    using True gap_passes_sorted [of k xs] assms by (simp add: qsort_def)
next
  case False
  then show ?thesis
    by (cases xs) (auto simp: qsort_def)
qed

end

end
