(* ===== verification/Env_Hash.thy ===== *)
theory Env_Hash
  imports C_Sort C_Number
begin

text \<open>
  \<^verbatim>\<open>lib/hashtable.c\<close>: the open-addressing hash table that holds the environment. The table is
  a list of \<open>hsize + 1\<close> slots, the empty list standing for the null pointer; slot 0 is never used.
  Keys and values are C strings. The permission check \<open>change_ok\<close>, the callbacks and the two
  initialisers of \<^verbatim>\<open>common/env_callback.c\<close> and \<^verbatim>\<open>common/env_flags.c\<close> are parameters. Memory
  allocation succeeds. Indices and sizes are natural numbers: they stay below the table size.
\<close>

section \<open>Data\<close>

datatype env_op = Env_op_create | Env_op_delete | Env_op_overwrite

datatype ACTION = FIND | ENTER

datatype errno = ESRCH | EPERM | EINVAL | ENOMEM

record ENTRY =
  key :: "char list"
  data :: "char list"
  callback :: "nat option"
  eflags :: nat

record hslot =
  used :: int
  entry :: ENTRY

record hsearch_data =
  table :: "hslot list"
  hsize :: nat
  filled :: nat

text \<open>
  The functions the table calls. \<open>change_ok\<close> and \<open>callback_fn\<close> return whether the change
  is refused; the callbacks are named by numbers.
\<close>

record env_hooks =
  change_ok :: "ENTRY \<Rightarrow> char list option \<Rightarrow> env_op \<Rightarrow> u32 \<Rightarrow> bool"
  callback_fn :: "nat \<Rightarrow> char list \<Rightarrow> char list option \<Rightarrow> env_op \<Rightarrow> u32 \<Rightarrow> bool"
  callback_init :: "char list \<Rightarrow> nat option"
  flags_init :: "char list \<Rightarrow> nat"

definition callback_rejects ::
  "env_hooks \<Rightarrow> ENTRY \<Rightarrow> char list \<Rightarrow> char list option \<Rightarrow> env_op \<Rightarrow> u32 \<Rightarrow> bool" where
  "callback_rejects hk e name val op flag =
     (case callback e of None \<Rightarrow> False | Some cb \<Rightarrow> callback_fn hk cb name val op flag)"

definition empty_slot :: hslot where
  "empty_slot = \<lparr>used = 0, entry = \<lparr>key = [], data = [], callback = None, eflags = 0\<rparr>\<rparr>"

text \<open>The flag bits of \<^verbatim>\<open>include/search.h\<close>.\<close>

abbreviation (input) H_NOCLEAR :: nat where "H_NOCLEAR \<equiv> 0"
abbreviation (input) H_HIDE_DOT :: nat where "H_HIDE_DOT \<equiv> 3"
abbreviation (input) H_MATCH_KEY :: nat where "H_MATCH_KEY \<equiv> 4"
abbreviation (input) H_MATCH_DATA :: nat where "H_MATCH_DATA \<equiv> 5"
abbreviation (input) H_MATCH_IDENT :: nat where "H_MATCH_IDENT \<equiv> 6"
abbreviation (input) H_MATCH_SUBSTR :: nat where "H_MATCH_SUBSTR \<equiv> 7"
abbreviation (input) H_MATCH_REGEX :: nat where "H_MATCH_REGEX \<equiv> 8"

section \<open>Creating and destroying the table\<close>

function isprime_loop :: "nat \<Rightarrow> nat \<Rightarrow> bool" where
  "isprime_loop number div' =
     (if div' * div' < number \<and> number mod div' \<noteq> 0 then isprime_loop number (div' + 2)
      else number mod div' \<noteq> 0)"
  by auto
termination
proof (relation "measure (\<lambda>(number, div'). number - div')", goal_cases)
  case (2 number div')
  then have "div' \<le> div' * div'"
    by (cases div') auto
  with 2 have "div' < number"
    by linarith
  then show ?case
    by simp
qed simp

declare isprime_loop.simps [simp del]

definition isprime :: "nat \<Rightarrow> bool" where
  "isprime number = isprime_loop number 3"

partial_function (option) next_prime :: "nat \<Rightarrow> nat option" where
  "next_prime nel = (if isprime nel then Some nel else next_prime (nel + 2))"

text \<open>\<open>None\<close> is a search for a prime that does not end; the boolean is the return value.\<close>

definition hcreate_r :: "nat \<Rightarrow> hsearch_data \<Rightarrow> (bool \<times> hsearch_data) option" where
  "hcreate_r nel htab =
     (if table htab \<noteq> [] then Some (False, htab)
      else case next_prime (if even nel then nel + 1 else nel) of
             None \<Rightarrow> None
           | Some nel \<Rightarrow>
               Some (True, \<lparr>table = replicate (nel + 1) empty_slot, hsize = nel, filled = 0\<rparr>))"

definition hdestroy_r :: "hsearch_data \<Rightarrow> hsearch_data" where
  "hdestroy_r htab = htab\<lparr>table := []\<rparr>"

section \<open>Searching and entering\<close>

fun hash_loop :: "char list \<Rightarrow> nat \<Rightarrow> u32 \<Rightarrow> u32" where
  "hash_loop k 0 hval = hval"
| "hash_loop k (Suc n) hval =
     hash_loop k n (push_bit 4 hval + of_nat (of_char (peek (drop n k))))"

definition hash_key :: "nat \<Rightarrow> char list \<Rightarrow> nat" where
  "hash_key sz k =
     (let hval = unat (hash_loop k (strlen k) (of_nat (strlen k))) mod sz
      in if hval = 0 then hval + 1 else hval)"

text \<open>The same with integer arithmetic, for evaluation.\<close>

lemma hash_key_code [code]:
  "hash_key sz k =
     (let hval = nat (uint (hash_loop k (strlen k) (of_nat (strlen k))) mod int sz)
      in if hval = 0 then hval + 1 else hval)"
  by (simp add: hash_key_def nat_mod_distrib flip: nat_uint_eq)

definition hmatch_r :: "char list \<Rightarrow> nat \<Rightarrow> hsearch_data \<Rightarrow> nat option" where
  "hmatch_r m last_idx htab =
     find (\<lambda>idx. 0 < used (table htab ! idx)
                 \<and> strncmp m (key (entry (table htab ! idx))) (strlen m) = 0)
       [last_idx + 1..<hsize htab]"

datatype cmp_result =
    KeepSearching
  | Found nat hsearch_data
  | Rejected errno

definition set_data :: "hsearch_data \<Rightarrow> nat \<Rightarrow> char list \<Rightarrow> hsearch_data" where
  "set_data htab idx d =
     htab\<lparr>table := (table htab)[idx := (table htab ! idx)\<lparr>entry := (entry (table htab ! idx))\<lparr>data := d\<rparr>\<rparr>]\<rparr>"

definition compare_and_overwrite_entry ::
  "env_hooks \<Rightarrow> char list \<Rightarrow> char list option \<Rightarrow> ACTION \<Rightarrow> hsearch_data \<Rightarrow> u32 \<Rightarrow> nat \<Rightarrow> nat \<Rightarrow> cmp_result" where
  "compare_and_overwrite_entry hk k d action htab flag hval idx =
     (let s = table htab ! idx in
      if used s = int hval \<and> strcmp k (key (entry s)) = 0 then
        (case d of
           Some v \<Rightarrow>
             if action = ENTER then
               if change_ok hk (entry s) (Some v) Env_op_overwrite flag then Rejected EPERM
               else if callback_rejects hk (entry s) k (Some v) Env_op_overwrite flag then Rejected EINVAL
               else Found idx (set_data htab idx (cstr v))
             else Found idx htab
         | None \<Rightarrow> Found idx htab)
      else KeepSearching)"

datatype probe_result =
    Stopped nat
  | Returned cmp_result

fun hprobe ::
  "nat \<Rightarrow> env_hooks \<Rightarrow> char list \<Rightarrow> char list option \<Rightarrow> ACTION \<Rightarrow> hsearch_data \<Rightarrow> u32 \<Rightarrow> nat \<Rightarrow> nat \<Rightarrow> nat
   \<Rightarrow> probe_result option" where
  "hprobe 0 hk k d action htab flag hval hval2 idx = None"
| "hprobe (Suc fuel) hk k d action htab flag hval hval2 idx =
     (let idx = (if idx \<le> hval2 then hsize htab + idx - hval2 else idx - hval2) in
      if idx = hval then Some (Stopped idx)
      else case compare_and_overwrite_entry hk k d action htab flag hval idx of
             KeepSearching \<Rightarrow>
               if used (table htab ! idx) \<noteq> 0
               then hprobe fuel hk k d action htab flag hval hval2 idx
               else Some (Stopped idx)
           | r \<Rightarrow> Some (Returned r))"

definition hdelete_slot :: "hsearch_data \<Rightarrow> nat \<Rightarrow> hsearch_data" where
  "hdelete_slot htab idx =
     htab\<lparr>table := (table htab)[idx := \<lparr>used = -1, entry = \<lparr>key = [], data = [], callback = None, eflags = 0\<rparr>\<rparr>],
          filled := filled htab - 1\<rparr>"

text \<open>The result of a search: the return value with the slot of \<open>*retval\<close>, or 0 with \<open>NULL\<close>.\<close>

datatype hret =
    HOk nat nat
  | HFail errno

definition hinsert_at ::
  "env_hooks \<Rightarrow> char list \<Rightarrow> char list \<Rightarrow> hsearch_data \<Rightarrow> u32 \<Rightarrow> nat \<Rightarrow> nat \<Rightarrow> hret \<times> hsearch_data" where
  "hinsert_at hk k v htab flag hval idx =
     (let e = \<lparr>key = cstr k, data = cstr v, callback = callback_init hk (cstr k),
               eflags = flags_init hk (cstr k)\<rparr>;
          htab = htab\<lparr>table := (table htab)[idx := \<lparr>used = int hval, entry = e\<rparr>], filled := filled htab + 1\<rparr>
      in if change_ok hk e (Some v) Env_op_create flag then (HFail EPERM, hdelete_slot htab idx)
         else if callback_rejects hk e k (Some v) Env_op_create flag
         then (HFail EINVAL, hdelete_slot htab idx)
         else (HOk 1 idx, htab))"

text \<open>
  The search part of \<open>hsearch_r\<close>: the slot of the first hash, then the probe loop. The loop
  gets one step of fuel per slot; \<open>None\<close> is a loop that has not ended by then.
\<close>

definition hsearch_probe ::
  "env_hooks \<Rightarrow> char list \<Rightarrow> char list option \<Rightarrow> ACTION \<Rightarrow> hsearch_data \<Rightarrow> u32 \<Rightarrow> probe_result option" where
  "hsearch_probe hk k d action htab flag =
     (let hval = hash_key (hsize htab) k in
      if used (table htab ! hval) \<noteq> 0 then
        case compare_and_overwrite_entry hk k d action htab flag hval hval of
          KeepSearching \<Rightarrow>
            hprobe (hsize htab) hk k d action htab flag hval (1 + hval mod (hsize htab - 2)) hval
        | r \<Rightarrow> Some (Returned r)
      else Some (Stopped hval))"

definition hsearch_r ::
  "env_hooks \<Rightarrow> char list \<Rightarrow> char list option \<Rightarrow> ACTION \<Rightarrow> hsearch_data \<Rightarrow> u32
   \<Rightarrow> (hret \<times> hsearch_data) option" where
  "hsearch_r hk k d action htab flag =
     (let hval = hash_key (hsize htab) k in
      case hsearch_probe hk k d action htab flag of
        None \<Rightarrow> None
      | Some (Returned (Found idx htab)) \<Rightarrow> Some (HOk idx idx, htab)
      | Some (Returned (Rejected e)) \<Rightarrow> Some (HFail e, htab)
      | Some (Returned KeepSearching) \<Rightarrow> None
      | Some (Stopped idx) \<Rightarrow>
          if action = ENTER then
            if filled htab = hsize htab then Some (HFail ENOMEM, htab)
            else
              let idx = (if used (table htab ! hval) = -1 then hval else idx)
              in Some (hinsert_at hk k (case d of Some v \<Rightarrow> v | None \<Rightarrow> []) htab flag hval idx)
          else Some (HFail ESRCH, htab))"

definition hdelete_r ::
  "env_hooks \<Rightarrow> char list \<Rightarrow> hsearch_data \<Rightarrow> u32 \<Rightarrow> (bool \<times> hsearch_data) option" where
  "hdelete_r hk k htab flag =
     (case hsearch_r hk k None FIND htab 0 of
        None \<Rightarrow> None
      | Some (HFail _, _) \<Rightarrow> Some (False, htab)
      | Some (HOk idx _, _) \<Rightarrow>
          let e = entry (table htab ! idx) in
          if change_ok hk e None Env_op_delete flag then Some (False, htab)
          else if callback_rejects hk e k None Env_op_delete flag then Some (False, htab)
          else Some (True, hdelete_slot htab idx))"

section \<open>Prime table sizes\<close>

definition prime_nat :: "nat \<Rightarrow> bool" where
  "prime_nat p \<longleftrightarrow> 1 < p \<and> (\<forall>d. d dvd p \<longrightarrow> d = 1 \<or> d = p)"

lemma small_divisor:
  fixes n d :: nat
  assumes "n \<le> d * d" "0 < n" "k dvd n" "k \<noteq> 1" "k \<noteq> n"
  shows "\<exists>j. j dvd n \<and> 1 < j \<and> j \<le> d"
proof -
  obtain l where n: "n = k * l"
    using assms(3) by (auto simp: dvd_def)
  then have "1 < k" "1 < l"
    using assms(2,4,5) by (auto simp: Suc_lessI)
  moreover have "k \<le> d \<or> l \<le> d"
  proof (rule ccontr)
    assume "\<not> (k \<le> d \<or> l \<le> d)"
    then have "d * d < k * l"
      by (intro mult_strict_mono') auto
    then show False
      using assms(1) n by simp
  qed
  ultimately show ?thesis
    using n by (auto intro: exI [of _ k] exI [of _ l])
qed

lemma isprime_loop_iff:
  "odd n \<Longrightarrow> odd d \<Longrightarrow> 3 \<le> d \<Longrightarrow> d < n \<Longrightarrow> \<forall>k. 1 < k \<and> k < d \<longrightarrow> \<not> k dvd n
   \<Longrightarrow> isprime_loop n d \<longleftrightarrow> prime_nat n"
proof (induction n d rule: isprime_loop.induct)
  case (1 n d)
  show ?case
  proof (cases "d * d < n \<and> n mod d \<noteq> 0")
    case True
    have "\<not> k dvd n" if "1 < k" "k < d + 2" for k
    proof -
      consider "k < d" | "k = d" | "k = d + 1"
        using \<open>k < d + 2\<close> by linarith
      then show ?thesis
      proof cases
        case 3
        then have "even k"
          using 1(3) by simp
        then show ?thesis
          using 1(2) dvd_trans by blast
      qed (use 1(6) that(1) True in \<open>simp_all add: dvd_eq_mod_eq_0\<close>)
    qed
    moreover have "d + 2 < n"
    proof -
      have "3 * d \<le> d * d"
        using 1(4) by simp
      then show ?thesis
        using True 1(4) by linarith
    qed
    moreover have "odd (d + 2)" "3 \<le> d + 2"
      using 1(3,4) by simp_all
    ultimately have "isprime_loop n (d + 2) \<longleftrightarrow> prime_nat n"
      using 1(1) [OF True 1(2)] by blast
    then show ?thesis
      using True by (subst isprime_loop.simps) simp
  next
    case False
    then have eq: "isprime_loop n d \<longleftrightarrow> n mod d \<noteq> 0"
      by (subst isprime_loop.simps) (simp only: if_False)
    show ?thesis
    proof (cases "n mod d = 0")
      case True
      then have "d dvd n" "d \<noteq> 1" "d \<noteq> n"
        using 1(4,5) by auto
      then show ?thesis
        using eq True by (auto simp: prime_nat_def)
    next
      case ndvd: False
      then have "n \<le> d * d"
        using False by simp
      moreover have "\<not> (j dvd n \<and> 1 < j \<and> j \<le> d)" for j
        using 1(6) ndvd by (cases "j = d") (auto simp: dvd_eq_mod_eq_0)
      ultimately have "k = 1 \<or> k = n" if "k dvd n" for k
        using small_divisor [of n d k] that 1(5) by blast
      then show ?thesis
        using eq ndvd 1(4,5) by (auto simp: prime_nat_def)
    qed
  qed
qed

lemma isprime_iff: "odd n \<Longrightarrow> 3 < n \<Longrightarrow> isprime n \<longleftrightarrow> prime_nat n"
proof -
  assume "odd n" "3 < n"
  moreover have "\<not> k dvd n" if "1 < k" "k < 3" for k
  proof -
    have "k = 2"
      using that by simp
    with \<open>odd n\<close> show ?thesis
      by simp
  qed
  ultimately show ?thesis
    unfolding isprime_def by (intro isprime_loop_iff) auto
qed

lemma prime_divisor: "1 < n \<Longrightarrow> \<exists>p. prime_nat p \<and> p dvd n"
proof (induction n rule: less_induct)
  case (less n)
  show ?case
  proof (cases "prime_nat n")
    case False
    then obtain d where "d dvd n" "d \<noteq> 1" "d \<noteq> n"
      using less.prems by (auto simp: prime_nat_def)
    moreover from this have "1 < d" "d < n"
      using less.prems by (auto simp: Suc_lessI dvd_imp_le le_neq_implies_less intro: dvd_pos_nat)
    ultimately show ?thesis
      using less.IH [of d] dvd_trans by blast
  qed auto
qed

text \<open>Above every number there is an odd prime, so the search of \<open>hcreate_r\<close> ends.\<close>

lemma prime_above: "\<exists>p. prime_nat p \<and> odd p \<and> n < p"
proof -
  let ?m = "fact (n + 2) + (1 :: nat)"
  obtain p where p: "prime_nat p" "p dvd ?m"
    using prime_divisor [of ?m] by (auto simp: Suc_le_eq)
  have "n + 2 < p"
  proof (rule ccontr)
    assume "\<not> n + 2 < p"
    then have "p dvd fact (n + 2)"
      using p(1) by (auto simp: prime_nat_def dvd_fact simp del: fact_Suc)
    then have "p dvd 1"
      using p(2) dvd_add_right_iff by blast
    then show False
      using p(1) by (simp add: prime_nat_def)
  qed
  moreover have "odd p"
  proof
    assume "even p"
    then have "2 = p"
      using p(1) by (auto simp: prime_nat_def)
    then show False
      using \<open>n + 2 < p\<close> by simp
  qed
  ultimately show ?thesis
    using p(1) by auto
qed

lemma next_prime_found:
  assumes "odd n" "3 < n" "prime_nat p" "odd p" "n \<le> p"
  shows "\<exists>q. next_prime n = Some q \<and> prime_nat q \<and> n \<le> q \<and> q \<le> p"
  using assms
proof (induction "p - n" arbitrary: n rule: less_induct)
  case less
  show ?case
  proof (cases "isprime n")
    case True
    then show ?thesis
      using less.prems isprime_iff by (subst next_prime.simps) auto
  next
    case False
    then have "n \<noteq> p"
      using less.prems isprime_iff by auto
    then have "n + 2 \<le> p"
      using less.prems by (metis Suc_leI add_2_eq_Suc' even_Suc le_neq_implies_less)
    then obtain q where "next_prime (n + 2) = Some q" "prime_nat q" "n + 2 \<le> q" "q \<le> p"
      using less.hyps [of "n + 2"] less.prems \<open>n \<noteq> p\<close> by fastforce
    then show ?thesis
      using False by (subst next_prime.simps) auto
  qed
qed

section \<open>The probe sequence\<close>

definition probe_step :: "nat \<Rightarrow> nat \<Rightarrow> nat \<Rightarrow> nat" where
  "probe_step n h2 idx = (if idx \<le> h2 then n + idx - h2 else idx - h2)"

definition probe_at :: "nat \<Rightarrow> char list \<Rightarrow> nat \<Rightarrow> nat" where
  "probe_at n k m = (probe_step n (1 + hash_key n k mod (n - 2)) ^^ m) (hash_key n k)"

lemma hash_key_range: "1 < n \<Longrightarrow> 1 \<le> hash_key n k \<and> hash_key n k < n"
  by (simp add: hash_key_def Let_def)

lemma probe_step_range:
  "0 < h2 \<Longrightarrow> h2 < n \<Longrightarrow> 1 \<le> i \<Longrightarrow> i \<le> n \<Longrightarrow> 1 \<le> probe_step n h2 i \<and> probe_step n h2 i \<le> n"
  by (auto simp: probe_step_def)

lemma probe_step_mod:
  assumes "0 < h2" "h2 < n" "1 \<le> i" "i \<le> n"
  shows "probe_step n h2 i mod n = (i + (n - h2)) mod n"
proof (cases "i \<le> h2")
  case True
  then show ?thesis
    using assms by (simp add: probe_step_def add.commute)
next
  case False
  then have eq: "i + (n - h2) = (i - h2) + n"
    using assms by simp
  show ?thesis
    using False by (simp only: eq probe_step_def if_False mod_add_self2)
qed

lemma probe_iter:
  assumes "0 < h2" "h2 < n" "1 \<le> h" "h \<le> n"
  shows "1 \<le> (probe_step n h2 ^^ m) h \<and> (probe_step n h2 ^^ m) h \<le> n
    \<and> (probe_step n h2 ^^ m) h mod n = (h + m * (n - h2)) mod n"
proof (induction m)
  case 0
  then show ?case
    using assms by simp
next
  case (Suc m)
  let ?i = "(probe_step n h2 ^^ m) h"
  have eq: "?i mod n = (h + m * (n - h2)) mod n"
    using Suc by blast
  have "probe_step n h2 ?i mod n = (?i + (n - h2)) mod n"
    using probe_step_mod [OF assms(1,2), of ?i] Suc by blast
  also have "\<dots> = (?i mod n + (n - h2)) mod n"
    by (simp only: mod_add_left_eq)
  also have "\<dots> = (h + m * (n - h2) + (n - h2)) mod n"
    by (simp only: eq mod_add_left_eq)
  finally show ?case
    using probe_step_range [OF assms(1,2), of ?i] Suc by (simp add: ac_simps)
qed

lemma prime_coprime: "prime_nat p \<Longrightarrow> 0 < a \<Longrightarrow> a < p \<Longrightarrow> coprime p a"
proof -
  assume p: "prime_nat p" "0 < a" "a < p"
  then have "gcd p a = 1 \<or> gcd p a = p"
    by (auto simp: prime_nat_def)
  moreover have "gcd p a \<le> a"
    using p by (intro gcd_le2_nat) simp
  ultimately have "gcd p a = 1"
    using p(3) by auto
  then show ?thesis
    by (simp add: coprime_iff_gcd_eq_1)
qed

lemma mod_inj:
  fixes n c h i j :: nat
  assumes "coprime n c" "(h + i * c) mod n = (h + j * c) mod n" "i < n" "j < n" "i \<le> j"
  shows "i = j"
proof -
  have "n dvd (h + j * c) - (h + i * c)"
    using assms(2,5) mod_eq_dvd_iff_nat [of "h + i * c" "h + j * c" n] by (simp add: mult_le_mono)
  then have "n dvd (j - i) * c"
    by (simp add: diff_mult_distrib)
  then have "n dvd j - i"
    using assms(1) by (simp add: coprime_dvd_mult_left_iff)
  then show ?thesis
    using assms(3-5) by (metis diff_is_0_eq dvd_imp_le le_antisym less_imp_diff_less linorder_not_le not_gr_zero)
qed

lemma step2_range: "3 < n \<Longrightarrow> 0 < 1 + h mod (n - 2) \<and> 1 + h mod (n - 2) < (n :: nat)"
  using mod_less_divisor [of "n - 2" h] by linarith

lemma probe_iter_key:
  assumes "3 < n"
  shows "1 \<le> probe_at n k m \<and> probe_at n k m \<le> n
    \<and> probe_at n k m mod n = (hash_key n k + m * (n - (1 + hash_key n k mod (n - 2)))) mod n"
  unfolding probe_at_def
  using step2_range [OF assms, of "hash_key n k"] hash_key_range [of n k] assms
  by (intro probe_iter) auto

lemma probe_at_range: "3 < n \<Longrightarrow> 1 \<le> probe_at n k m \<and> probe_at n k m \<le> n"
  using probe_iter_key by blast

lemma probe_at_Suc: "probe_at n k (Suc m) = probe_step n (1 + hash_key n k mod (n - 2)) (probe_at n k m)"
  by (simp add: probe_at_def)

lemma probe_at_0: "probe_at n k 0 = hash_key n k"
  by (simp add: probe_at_def)

lemma probe_at_inj:
  assumes "prime_nat n" "3 < n"
  shows "inj_on (probe_at n k) {0..<n}"
proof -
  let ?h2 = "1 + hash_key n k mod (n - 2)"
  have cop: "coprime n (n - ?h2)"
    using assms step2_range [of n "hash_key n k"] by (intro prime_coprime) auto
  have "i = j" if "i < n" "j < n" "i \<le> j" "probe_at n k i = probe_at n k j" for i j
  proof (rule mod_inj [OF cop _ that(1-3)])
    show "(hash_key n k + i * (n - ?h2)) mod n = (hash_key n k + j * (n - ?h2)) mod n"
      using probe_iter_key [OF assms(2), of k i] probe_iter_key [OF assms(2), of k j] that(4) by metis
  qed
  then show ?thesis
    by (intro inj_onI) (metis atLeastLessThan_iff le_cases)
qed

text \<open>Because the size is prime, the probe sequence visits every slot before it comes back.\<close>

lemma probe_at_all:
  assumes "prime_nat n" "3 < n"
  shows "probe_at n k ` {0..<n} = {1..n}"
proof (rule card_subset_eq)
  show "probe_at n k ` {0..<n} \<subseteq> {1..n}"
    using probe_at_range [OF assms(2)] by auto
  show "card (probe_at n k ` {0..<n}) = card {1..n}"
    by (simp add: card_image probe_at_inj [OF assms])
qed simp

lemma probe_at_period:
  assumes "3 < n"
  shows "probe_at n k n = hash_key n k"
proof -
  have "probe_at n k n mod n = hash_key n k mod n"
    using probe_iter_key [OF assms, of k n] by simp
  moreover have "hash_key n k mod n = hash_key n k" "1 \<le> hash_key n k"
    using hash_key_range [of n k] assms by auto
  ultimately show ?thesis
    using probe_at_range [OF assms, of k n] by (cases "probe_at n k n = n") auto
qed

lemma probe_at_return:
  assumes "prime_nat n" "3 < n" "0 < m" "m < n"
  shows "probe_at n k m \<noteq> hash_key n k"
  using inj_onD [OF probe_at_inj [OF assms(1,2)], of k m 0] assms(3,4) by (auto simp: probe_at_0)

section \<open>The table invariant\<close>

definition live :: "hsearch_data \<Rightarrow> nat \<Rightarrow> bool" where
  "live htab i \<longleftrightarrow> 1 \<le> i \<and> i \<le> hsize htab \<and> 0 < used (table htab ! i)"

text \<open>Slot \<open>i\<close> is on the probe path of key \<open>k\<close>, and no slot before it was ever free.\<close>

definition on_path :: "hsearch_data \<Rightarrow> char list \<Rightarrow> nat \<Rightarrow> bool" where
  "on_path htab k i \<longleftrightarrow> (\<exists>m < hsize htab. probe_at (hsize htab) k m = i
     \<and> (\<forall>l < m. used (table htab ! probe_at (hsize htab) k l) \<noteq> 0))"

definition hentry_ok :: "hsearch_data \<Rightarrow> nat \<Rightarrow> bool" where
  "hentry_ok htab i \<longleftrightarrow>
     (let e = entry (table htab ! i) in
      NUL \<notin> set (key e) \<and> NUL \<notin> set (data e)
      \<and> used (table htab ! i) = int (hash_key (hsize htab) (key e)) \<and> on_path htab (key e) i)"

definition hinv :: "hsearch_data \<Rightarrow> bool" where
  "hinv htab \<longleftrightarrow>
     prime_nat (hsize htab) \<and> 3 < hsize htab \<and> length (table htab) = hsize htab + 1
     \<and> (\<forall>i. live htab i \<longrightarrow> hentry_ok htab i)
     \<and> (\<forall>i j. live htab i \<longrightarrow> live htab j \<longrightarrow> key (entry (table htab ! i)) = key (entry (table htab ! j)) \<longrightarrow> i = j)
     \<and> filled htab = card {i. live htab i}"

text \<open>What the table stands for, and the number of slots that were never used.\<close>

definition hfind :: "hsearch_data \<Rightarrow> char list \<Rightarrow> nat option" where
  "hfind htab k = find (\<lambda>i. 0 < used (table htab ! i) \<and> key (entry (table htab ! i)) = k) [1..<hsize htab + 1]"

definition habs :: "hsearch_data \<Rightarrow> char list \<Rightarrow> char list option" where
  "habs htab k = map_option (\<lambda>i. data (entry (table htab ! i))) (hfind htab k)"

definition free_slots :: "hsearch_data \<Rightarrow> nat" where
  "free_slots htab = length (filter (\<lambda>i. used (table htab ! i) = 0) [1..<hsize htab + 1])"

lemma hinvD:
  assumes "hinv htab"
  shows "prime_nat (hsize htab)" "3 < hsize htab" "length (table htab) = hsize htab + 1"
    "live htab i \<Longrightarrow> hentry_ok htab i"
    "live htab i \<Longrightarrow> live htab j \<Longrightarrow> key (entry (table htab ! i)) = key (entry (table htab ! j)) \<Longrightarrow> i = j"
    "filled htab = card {i. live htab i}"
  using assms unfolding hinv_def by blast+

lemma hfind_None_iff: "hfind htab k = None \<longleftrightarrow> (\<forall>i. live htab i \<longrightarrow> key (entry (table htab ! i)) \<noteq> k)"
  unfolding hfind_def find_None_iff by (auto simp: live_def)

lemma hfind_SomeD: "hfind htab k = Some i \<Longrightarrow> live htab i \<and> key (entry (table htab ! i)) = k"
  unfolding hfind_def find_Some_iff by (auto simp: live_def simp del: upt_Suc)

lemma hfind_live:
  assumes "hinv htab" "live htab i"
  shows "hfind htab (key (entry (table htab ! i))) = Some i"
proof (cases "hfind htab (key (entry (table htab ! i)))")
  case None
  then show ?thesis
    using assms(2) by (auto simp: hfind_None_iff)
next
  case (Some j)
  then show ?thesis
    using hfind_SomeD [OF Some] hinvD(5) [OF assms(1), of j i] assms(2) by auto
qed

lemma peek_drop_cstr:
  assumes "c < strlen k"
  shows "peek (drop c (cstr k)) = peek (drop c k)"
proof -
  have "k = cstr k @ dropWhile (\<lambda>c. c \<noteq> NUL) k"
    unfolding cstr_def by simp
  then have "drop c k = drop c (cstr k) @ dropWhile (\<lambda>c. c \<noteq> NUL) k"
    using assms by (metis drop_append strlen_cstr less_imp_le_nat diff_is_0_eq drop0)
  moreover have "drop c (cstr k) \<noteq> []"
    using assms by (simp add: strlen_cstr)
  ultimately show ?thesis
    by (cases "drop c (cstr k)") auto
qed

lemma hash_key_cstr: "hash_key n (cstr k) = hash_key n k"
proof -
  have "hash_loop (cstr k) c h = hash_loop k c h" if "c \<le> strlen k" for c h
    using that
  proof (induction c arbitrary: h)
    case (Suc c)
    then have "peek (drop c (cstr k)) = peek (drop c k)"
      by (intro peek_drop_cstr) simp
    then show ?case
      using Suc by simp
  qed simp
  then show ?thesis
    by (simp add: hash_key_def strlen_cstr)
qed

text \<open>The comparison of \<open>hsearch_r\<close> finds exactly the live slot with the key.\<close>

definition hmatches :: "hsearch_data \<Rightarrow> char list \<Rightarrow> nat \<Rightarrow> bool" where
  "hmatches htab k i \<longleftrightarrow>
     used (table htab ! i) = int (hash_key (hsize htab) k) \<and> strcmp k (key (entry (table htab ! i))) = 0"

lemma hmatches_iff:
  assumes "hinv htab" "NUL \<notin> set k" "1 \<le> i" "i \<le> hsize htab"
  shows "hmatches htab k i \<longleftrightarrow> hfind htab k = Some i"
proof
  assume m: "hmatches htab k i"
  then have "live htab i"
    using assms(3,4) hash_key_range [of "hsize htab" k] hinvD(2) [OF assms(1)]
    by (auto simp: hmatches_def live_def)
  moreover from this have "NUL \<notin> set (key (entry (table htab ! i)))"
    using hinvD(4) [OF assms(1)] by (auto simp: hentry_ok_def Let_def)
  ultimately show "hfind htab k = Some i"
    using m assms(2) hfind_live [OF assms(1)] by (auto simp: hmatches_def cstr_id)
next
  assume "hfind htab k = Some i"
  then show "hmatches htab k i"
    using hfind_SomeD [of htab k i] hinvD(4) [OF assms(1), of i]
    by (auto simp: hmatches_def hentry_ok_def Let_def)
qed

lemma compare_Keep_iff:
  "compare_and_overwrite_entry hk k d action htab flag (hash_key (hsize htab) k) i = KeepSearching
   \<longleftrightarrow> \<not> hmatches htab k i"
  by (auto simp: compare_and_overwrite_entry_def hmatches_def Let_def split: option.splits)

section \<open>The search loop\<close>

lemma hprobe_step:
  assumes "prime_nat (hsize htab)" "3 < hsize htab" "Suc m < hsize htab"
  shows "hprobe (Suc fuel) hk k d action htab flag (hash_key (hsize htab) k)
           (1 + hash_key (hsize htab) k mod (hsize htab - 2)) (probe_at (hsize htab) k m) =
    (case compare_and_overwrite_entry hk k d action htab flag (hash_key (hsize htab) k) (probe_at (hsize htab) k (Suc m)) of
       KeepSearching \<Rightarrow>
         if used (table htab ! probe_at (hsize htab) k (Suc m)) \<noteq> 0
         then hprobe fuel hk k d action htab flag (hash_key (hsize htab) k)
           (1 + hash_key (hsize htab) k mod (hsize htab - 2)) (probe_at (hsize htab) k (Suc m))
         else Some (Stopped (probe_at (hsize htab) k (Suc m)))
     | r \<Rightarrow> Some (Returned r))"
  unfolding hprobe.simps probe_step_def [symmetric] probe_at_Suc [symmetric] Let_def
  using probe_at_return [OF assms(1,2), of "Suc m" k] assms(3) by simp

lemma hprobe_last:
  assumes "3 < hsize htab"
  shows "hprobe (Suc fuel) hk k d action htab flag (hash_key (hsize htab) k)
           (1 + hash_key (hsize htab) k mod (hsize htab - 2)) (probe_at (hsize htab) k (hsize htab - 1))
         = Some (Stopped (hash_key (hsize htab) k))"
proof -
  have "probe_step (hsize htab) (1 + hash_key (hsize htab) k mod (hsize htab - 2))
      (probe_at (hsize htab) k (hsize htab - 1)) = hash_key (hsize htab) k"
    using probe_at_Suc [of "hsize htab" k "hsize htab - 1"] probe_at_period [OF assms, of k] assms by simp
  then show ?thesis
    by (simp add: probe_step_def [symmetric])
qed

lemma hprobe_run:
  assumes "prime_nat (hsize htab)" "3 < hsize htab" "M < hsize htab" "m \<le> M"
    and "\<And>l. m < l \<Longrightarrow> l \<le> M \<Longrightarrow> used (table htab ! probe_at (hsize htab) k l) \<noteq> 0"
    and "\<And>l. m < l \<Longrightarrow> l \<le> M \<Longrightarrow> \<not> hmatches htab k (probe_at (hsize htab) k l)"
  shows "hprobe (fuel + (M - m)) hk k d action htab flag (hash_key (hsize htab) k)
           (1 + hash_key (hsize htab) k mod (hsize htab - 2)) (probe_at (hsize htab) k m)
       = hprobe fuel hk k d action htab flag (hash_key (hsize htab) k)
           (1 + hash_key (hsize htab) k mod (hsize htab - 2)) (probe_at (hsize htab) k M)"
  using assms(4-6)
proof (induction "M - m" arbitrary: m)
  case (Suc x)
  then have "m < M" and fuel: "fuel + (M - m) = Suc (fuel + (M - Suc m))"
    by simp_all
  then have keep: "compare_and_overwrite_entry hk k d action htab flag (hash_key (hsize htab) k)
      (probe_at (hsize htab) k (Suc m)) = KeepSearching"
    and used: "used (table htab ! probe_at (hsize htab) k (Suc m)) \<noteq> 0" and "Suc m < hsize htab"
    using Suc.prems assms(3) by (auto simp: compare_Keep_iff)
  show ?case
    unfolding fuel hprobe_step [OF assms(1,2) \<open>Suc m < hsize htab\<close>] keep
    using Suc.hyps(1) [of "Suc m"] Suc.hyps(2) Suc.prems \<open>m < M\<close> used by simp
qed simp

text \<open>A key that is in the table is found at its slot.\<close>

lemma hsearch_probe_hit:
  assumes "hinv htab" "NUL \<notin> set k" "hfind htab k = Some i"
  shows "hsearch_probe hk k d action htab flag
       = Some (Returned (compare_and_overwrite_entry hk k d action htab flag (hash_key (hsize htab) k) i))"
proof -
  let ?n = "hsize htab"
  note n = hinvD(1,2) [OF assms(1)]
  have i: "live htab i" "key (entry (table htab ! i)) = k"
    using hfind_SomeD [OF assms(3)] by auto
  then obtain m where m: "m < ?n" "probe_at ?n k m = i"
    and path: "\<And>l. l < m \<Longrightarrow> used (table htab ! probe_at ?n k l) \<noteq> 0"
    using hinvD(4) [OF assms(1) i(1)] by (auto simp: hentry_ok_def Let_def on_path_def)
  have miss: "\<not> hmatches htab k (probe_at ?n k l)" if "l < m" for l
    using hmatches_iff [OF assms(1,2), of "probe_at ?n k l"] probe_at_range [OF n(2), of k l]
      inj_onD [OF probe_at_inj [OF n], of k l m] that m assms(3) by auto
  have hit: "hmatches htab k i"
    using hmatches_iff [OF assms(1,2)] i(1) assms(3) by (auto simp: live_def)
  have ui: "used (table htab ! i) \<noteq> 0"
    using i(1) by (simp add: live_def)
  show ?thesis
  proof (cases m)
    case 0
    then have "i = hash_key ?n k"
      using m by (simp add: probe_at_0)
    then show ?thesis
      using ui hit by (simp add: hsearch_probe_def Let_def compare_Keep_iff split: cmp_result.split)
  next
    case (Suc m')
    let ?h2 = "1 + hash_key ?n k mod (?n - 2)"
    have "hprobe ?n hk k d action htab flag (hash_key ?n k) ?h2 (probe_at ?n k 0)
        = hprobe (?n - m') hk k d action htab flag (hash_key ?n k) ?h2 (probe_at ?n k m')"
      using hprobe_run [OF n, of m' 0 k "?n - m'" hk d action flag] Suc m(1) path miss by simp
    also have "?n - m' = Suc (?n - m)"
      using m(1) Suc by simp
    also have "hprobe (Suc (?n - m)) hk k d action htab flag (hash_key ?n k) ?h2 (probe_at ?n k m')
        = Some (Returned (compare_and_overwrite_entry hk k d action htab flag (hash_key ?n k) i))"
      using hprobe_step [OF n, of m' "?n - m" hk k d action flag] m Suc hit
      by (auto simp: compare_Keep_iff split: cmp_result.split simp del: hprobe.simps)
    finally have "hprobe ?n hk k d action htab flag (hash_key ?n k) ?h2 (hash_key ?n k)
        = Some (Returned (compare_and_overwrite_entry hk k d action htab flag (hash_key ?n k) i))"
      by (simp only: probe_at_0)
    moreover have "used (table htab ! hash_key ?n k) \<noteq> 0" "\<not> hmatches htab k (hash_key ?n k)"
      using path [of 0] miss [of 0] Suc by (auto simp: probe_at_0)
    ultimately show ?thesis
      by (simp add: hsearch_probe_def Let_def compare_Keep_iff [THEN iffD2])
  qed
qed

text \<open>
  A key that is not in the table ends the search at the first free slot of its path, or, when no
  slot was ever free, back at its first slot.
\<close>

lemma hsearch_probe_miss:
  assumes "hinv htab" "NUL \<notin> set k" "hfind htab k = None"
  shows "(\<exists>idx. hsearch_probe hk k d action htab flag = Some (Stopped idx)
            \<and> 1 \<le> idx \<and> idx \<le> hsize htab \<and> used (table htab ! idx) = 0 \<and> on_path htab k idx)
       \<or> (hsearch_probe hk k d action htab flag = Some (Stopped (hash_key (hsize htab) k))
            \<and> (\<forall>i \<in> {1..hsize htab}. used (table htab ! i) \<noteq> 0))"
proof -
  let ?n = "hsize htab" and ?P = "probe_at (hsize htab) k"
  let ?h2 = "1 + hash_key ?n k mod (?n - 2)"
  note n = hinvD(1,2) [OF assms(1)]
  have miss: "\<not> hmatches htab k (?P l)" for l
    using hmatches_iff [OF assms(1,2), of "?P l"] probe_at_range [OF n(2), of k l] assms(3) by auto
  have first: "hsearch_probe hk k d action htab flag =
      (if used (table htab ! ?P 0) \<noteq> 0 then hprobe ?n hk k d action htab flag (hash_key ?n k) ?h2 (?P 0)
       else Some (Stopped (?P 0)))"
    using miss [of 0] by (simp add: hsearch_probe_def Let_def probe_at_0 compare_Keep_iff [THEN iffD2])
  have run: "hprobe ?n hk k d action htab flag (hash_key ?n k) ?h2 (?P 0)
      = hprobe (?n - m) hk k d action htab flag (hash_key ?n k) ?h2 (?P m)"
    if "m < ?n" "\<And>l. l \<le> m \<Longrightarrow> used (table htab ! ?P l) \<noteq> 0" for m
    using hprobe_run [OF n that(1), of 0 k "?n - m" hk d action flag] that miss by simp
  show ?thesis
  proof (cases "\<exists>m < ?n. used (table htab ! ?P m) = 0")
    case True
    define M where "M = (LEAST m. m < ?n \<and> used (table htab ! ?P m) = 0)"
    have M: "M < ?n" "used (table htab ! ?P M) = 0"
      using LeastI_ex [OF True] by (auto simp: M_def)
    have before: "used (table htab ! ?P l) \<noteq> 0" if "l < M" for l
      using not_less_Least [OF that [unfolded M_def]] that M(1) by auto
    have path: "on_path htab k (?P M)"
      using M(1) before by (auto simp: on_path_def)
    have "hsearch_probe hk k d action htab flag = Some (Stopped (?P M))"
    proof (cases M)
      case 0
      then show ?thesis
        using M first by simp
    next
      case (Suc m)
      then have "?n - m = Suc (?n - M)"
        using M(1) by simp
      then have "hprobe (?n - m) hk k d action htab flag (hash_key ?n k) ?h2 (?P m) = Some (Stopped (?P M))"
        using hprobe_step [OF n, of m "?n - M" hk k d action flag] M Suc miss [of M]
        by (simp add: compare_Keep_iff [THEN iffD2] del: hprobe.simps)
      then show ?thesis
        using first run [of m] before Suc M(1) by simp
    qed
    then show ?thesis
      using M(2) path probe_at_range [OF n(2), of k M] by blast
  next
    case False
    then have all: "used (table htab ! ?P m) \<noteq> 0" if "m < ?n" for m
      using that by blast
    have "used (table htab ! i) \<noteq> 0" if "i \<in> {1..?n}" for i
    proof -
      have "i \<in> ?P ` {0..<?n}"
        unfolding probe_at_all [OF n, of k] by (rule that)
      then show ?thesis
        using all by auto
    qed
    moreover have "hprobe ?n hk k d action htab flag (hash_key ?n k) ?h2 (?P 0) = Some (Stopped (hash_key ?n k))"
      using run [of "?n - 1"] all hprobe_last [OF n(2), of 0 hk k d action flag] n(2) by simp
    ultimately show ?thesis
      using first all [of 0] n(2) by simp
  qed
qed

section \<open>Changing one slot\<close>

lemma on_path_mono:
  assumes "on_path htab k i" "hsize htab' = hsize htab"
    and "\<And>j. used (table htab ! j) \<noteq> 0 \<Longrightarrow> used (table htab' ! j) \<noteq> 0"
  shows "on_path htab' k i"
  using assms(1,3) unfolding on_path_def assms(2) by blast

lemma habs_Some_iff:
  assumes "hinv htab"
  shows "habs htab k = Some v \<longleftrightarrow>
    (\<exists>i. live htab i \<and> key (entry (table htab ! i)) = k \<and> data (entry (table htab ! i)) = v)"
proof
  assume "habs htab k = Some v"
  then obtain i where "hfind htab k = Some i" "data (entry (table htab ! i)) = v"
    by (auto simp: habs_def)
  then show "\<exists>i. live htab i \<and> key (entry (table htab ! i)) = k \<and> data (entry (table htab ! i)) = v"
    using hfind_SomeD by blast
next
  assume "\<exists>i. live htab i \<and> key (entry (table htab ! i)) = k \<and> data (entry (table htab ! i)) = v"
  then show "habs htab k = Some v"
    using hfind_live [OF assms] by (auto simp: habs_def)
qed

lemma habs_eqI:
  assumes "hinv htab" "\<And>v. (\<exists>i. live htab i \<and> key (entry (table htab ! i)) = k
      \<and> data (entry (table htab ! i)) = v) \<longleftrightarrow> x = Some v"
  shows "habs htab k = x"
proof -
  have "habs htab k = Some v \<longleftrightarrow> x = Some v" for v
    using habs_Some_iff [OF assms(1), of k v] assms(2) [of v] by blast
  then show ?thesis
    by (cases x; cases "habs htab k") auto
qed

text \<open>The table with slot \<open>i\<close> replaced by \<open>s\<close> and the counter set to \<open>f\<close>.\<close>

definition hput :: "hsearch_data \<Rightarrow> nat \<Rightarrow> hslot \<Rightarrow> nat \<Rightarrow> hsearch_data" where
  "hput htab i s f = htab\<lparr>table := (table htab)[i := s], filled := f\<rparr>"

lemma hput_simps [simp]:
  "hsize (hput htab i s f) = hsize htab" "filled (hput htab i s f) = f"
  "length (table (hput htab i s f)) = length (table htab)"
  by (simp_all add: hput_def)

lemma hput_nth:
  "i < length (table htab) \<Longrightarrow> table (hput htab i s f) ! j = (if j = i then s else table htab ! j)"
  by (simp add: hput_def nth_list_update)

lemma live_hput:
  "i < length (table htab) \<Longrightarrow> 1 \<le> i \<Longrightarrow> i \<le> hsize htab
   \<Longrightarrow> live (hput htab i s f) j \<longleftrightarrow> (if j = i then 0 < used s else live htab j)"
  by (auto simp: live_def hput_nth)

lemma finite_live: "finite {i. live htab i}"
  by (rule finite_subset [of _ "{1..hsize htab}"]) (auto simp: live_def)

lemma free_slots_card: "free_slots htab = card {i \<in> {1..hsize htab}. used (table htab ! i) = 0}"
proof -
  have "{i \<in> {1..hsize htab}. used (table htab ! i) = 0}
      = set (filter (\<lambda>i. used (table htab ! i) = 0) [1..<hsize htab + 1])"
    by auto
  then show ?thesis
    by (simp only: free_slots_def distinct_card [symmetric] distinct_filter distinct_upt)
qed

lemma hinv_create:
  assumes inv: "hinv htab" and k: "NUL \<notin> set (key e)" "NUL \<notin> set (data e)" "hfind htab (key e) = None"
    and i: "1 \<le> i" "i \<le> hsize htab" "used (table htab ! i) \<le> 0" "on_path htab (key e) i"
  defines "htab' \<equiv> hput htab i \<lparr>used = int (hash_key (hsize htab) (key e)), entry = e\<rparr> (filled htab + 1)"
  shows "hinv htab'" "habs htab' = (habs htab)(key e \<mapsto> data e)"
proof -
  have len: "i < length (table htab)"
    using hinvD(3) [OF inv] i by simp
  have h: "0 < hash_key (hsize htab) (key e)"
    using hash_key_range [of "hsize htab"] hinvD(2) [OF inv] by (simp add: Suc_le_eq)
  have nth: "table htab' ! j = (if j = i then \<lparr>used = int (hash_key (hsize htab) (key e)), entry = e\<rparr> else table htab ! j)" for j
    unfolding htab'_def by (rule hput_nth [OF len])
  have live': "live htab' j \<longleftrightarrow> j = i \<or> live htab j" for j
    unfolding htab'_def using live_hput [OF len i(1,2)] h by auto
  have ni: "\<not> live htab i"
    using i(3) by (simp add: live_def)
  have path: "on_path htab' c j" if "on_path htab c j" for c j
    using that by (rule on_path_mono) (auto simp: nth h, simp add: htab'_def)
  have "hentry_ok htab' j" if "live htab' j" for j
    using hinvD(4) [OF inv, of j] that k i(4) path
    by (auto simp: live' hentry_ok_def Let_def nth) (auto simp: htab'_def)
  moreover have "a = b" if "live htab' a" "live htab' b" "key (entry (table htab' ! a)) = key (entry (table htab' ! b))" for a b
    using that hinvD(5) [OF inv, of a b] k(3) by (auto simp: live' nth hfind_None_iff split: if_splits)
  moreover have "{j. live htab' j} = insert i {j. live htab j}"
    by (auto simp: live')
  then have "filled htab' = card {j. live htab' j}"
    using ni hinvD(6) [OF inv] by (simp add: finite_live htab'_def)
  ultimately show inv': "hinv htab'"
    using hinvD(1-3) [OF inv] by (auto simp: hinv_def htab'_def)
  show "habs htab' = (habs htab)(key e \<mapsto> data e)"
  proof
    fix c
    show "habs htab' c = ((habs htab)(key e \<mapsto> data e)) c"
      using k(3) ni
      by (intro habs_eqI [OF inv']) (auto simp: live' nth habs_Some_iff [OF inv] hfind_None_iff)
  qed
qed

lemma hinv_delete:
  assumes inv: "hinv htab" and i: "live htab i" and s: "used s = -1"
  defines "htab' \<equiv> hput htab i s (filled htab - 1)"
  shows "hinv htab'" "habs htab' = (habs htab)(key (entry (table htab ! i)) := None)"
proof -
  have len: "i < length (table htab)" and i': "1 \<le> i" "i \<le> hsize htab"
    using hinvD(3) [OF inv] i by (simp_all add: live_def)
  have nth: "table htab' ! j = (if j = i then s else table htab ! j)" for j
    unfolding htab'_def by (rule hput_nth [OF len])
  have live': "live htab' j \<longleftrightarrow> j \<noteq> i \<and> live htab j" for j
    unfolding htab'_def using live_hput [OF len i'] s by auto
  have path: "on_path htab' c j" if "on_path htab c j" for c j
    using that by (rule on_path_mono) (auto simp: nth s, simp add: htab'_def)
  have "hentry_ok htab' j" if "live htab' j" for j
    using hinvD(4) [OF inv, of j] that path
    by (auto simp: live' hentry_ok_def Let_def nth) (auto simp: htab'_def)
  moreover have "a = b" if "live htab' a" "live htab' b" "key (entry (table htab' ! a)) = key (entry (table htab' ! b))" for a b
    using that hinvD(5) [OF inv, of a b] by (auto simp: live' nth split: if_splits)
  moreover have "{j. live htab' j} = {j. live htab j} - {i}"
    by (auto simp: live')
  then have "filled htab' = card {j. live htab' j}"
    using i hinvD(6) [OF inv] by (simp add: finite_live htab'_def)
  ultimately show inv': "hinv htab'"
    using hinvD(1-3) [OF inv] by (auto simp: hinv_def htab'_def)
  show "habs htab' = (habs htab)(key (entry (table htab ! i)) := None)"
  proof
    fix c
    show "habs htab' c = ((habs htab)(key (entry (table htab ! i)) := None)) c"
    proof (rule habs_eqI [OF inv'])
      fix v
      have uniq: "j = i" if "live htab j" "key (entry (table htab ! j)) = key (entry (table htab ! i))" for j
        using hinvD(5) [OF inv that(1) i that(2)] .
      show "(\<exists>j. live htab' j \<and> key (entry (table htab' ! j)) = c \<and> data (entry (table htab' ! j)) = v)
        \<longleftrightarrow> ((habs htab)(key (entry (table htab ! i)) := None)) c = Some v"
      proof (cases "c = key (entry (table htab ! i))")
        case True
        then show ?thesis
          using uniq by (auto simp: live' nth)
      next
        case False
        then have "(\<exists>j. live htab' j \<and> key (entry (table htab' ! j)) = c \<and> data (entry (table htab' ! j)) = v)
          \<longleftrightarrow> (\<exists>j. live htab j \<and> key (entry (table htab ! j)) = c \<and> data (entry (table htab ! j)) = v)"
          by (intro iff_exI) (auto simp: live' nth)
        then show ?thesis
          using False habs_Some_iff [OF inv, of c v] by simp
      qed
    qed
  qed
qed

lemma hinv_overwrite:
  assumes inv: "hinv htab" and i: "live htab i" and s: "used s = used (table htab ! i)"
    "key (entry s) = key (entry (table htab ! i))" "NUL \<notin> set (data (entry s))"
  defines "htab' \<equiv> hput htab i s (filled htab)"
  shows "hinv htab'" "habs htab' = (habs htab)(key (entry s) \<mapsto> data (entry s))"
proof -
  have len: "i < length (table htab)" and i': "1 \<le> i" "i \<le> hsize htab" "0 < used s"
    using hinvD(3) [OF inv] i s by (simp_all add: live_def)
  have nth: "table htab' ! j = (if j = i then s else table htab ! j)" for j
    unfolding htab'_def by (rule hput_nth [OF len])
  have live': "live htab' j \<longleftrightarrow> live htab j" for j
    unfolding htab'_def using live_hput [OF len i'(1,2)] i'(3) i by auto
  have path: "on_path htab' c j" if "on_path htab c j" for c j
    using that by (rule on_path_mono) (auto simp: nth s, simp add: htab'_def)
  have "hentry_ok htab' j" if "live htab' j" for j
    using hinvD(4) [OF inv, of j] that path s
    by (auto simp: live' hentry_ok_def Let_def nth) (auto simp: htab'_def)
  moreover have "a = b" if "live htab' a" "live htab' b" "key (entry (table htab' ! a)) = key (entry (table htab' ! b))" for a b
    using that hinvD(5) [OF inv, of a b] s(2) by (auto simp: live' nth split: if_splits)
  moreover have "filled htab' = card {j. live htab' j}"
    using hinvD(6) [OF inv] by (simp only: live') (simp add: htab'_def)
  ultimately show inv': "hinv htab'"
    using hinvD(1-3) [OF inv] by (auto simp: hinv_def htab'_def)
  show "habs htab' = (habs htab)(key (entry s) \<mapsto> data (entry s))"
  proof
    fix c
    show "habs htab' c = ((habs htab)(key (entry s) \<mapsto> data (entry s))) c"
    proof (rule habs_eqI [OF inv'])
      fix v
      have uniq: "j = i" if "live htab j" "key (entry (table htab ! j)) = key (entry (table htab ! i))" for j
        using hinvD(5) [OF inv that(1) i that(2)] .
      show "(\<exists>j. live htab' j \<and> key (entry (table htab' ! j)) = c \<and> data (entry (table htab' ! j)) = v)
        \<longleftrightarrow> ((habs htab)(key (entry s) \<mapsto> data (entry s))) c = Some v"
      proof (cases "c = key (entry s)")
        case True
        then show ?thesis
          using uniq i s(2) by (auto simp: live' nth)
      next
        case False
        then have "(\<exists>j. live htab' j \<and> key (entry (table htab' ! j)) = c \<and> data (entry (table htab' ! j)) = v)
          \<longleftrightarrow> (\<exists>j. live htab j \<and> key (entry (table htab ! j)) = c \<and> data (entry (table htab ! j)) = v)"
          using s(2) by (intro iff_exI) (auto simp: live' nth)
        then show ?thesis
          using False habs_Some_iff [OF inv, of c v] by simp
      qed
    qed
  qed
qed

lemma free_slots_hput:
  assumes "i < length (table htab)"
  shows "free_slots htab \<le> free_slots (hput htab i s f) + 1"
proof -
  let ?F = "\<lambda>h. {j \<in> {1..hsize h}. used (table h ! j) = 0}"
  have "?F htab \<subseteq> insert i (?F (hput htab i s f))"
    using assms by (auto simp: hput_nth)
  then have "card (?F htab) \<le> card (insert i (?F (hput htab i s f)))"
    by (intro card_mono) auto
  also have "\<dots> \<le> card (?F (hput htab i s f)) + 1"
    using card_insert_le_m1 [of "card (?F (hput htab i s f)) + 1"] by (simp add: card_insert_if)
  finally show ?thesis
    by (simp only: free_slots_card)
qed

lemma free_slots_hput_used:
  assumes "i < length (table htab)" "used (table htab ! i) \<noteq> 0" "used s \<noteq> 0"
  shows "free_slots (hput htab i s f) = free_slots htab"
proof -
  have "{j \<in> {1..hsize htab}. used (table (hput htab i s f) ! j) = 0} = {j \<in> {1..hsize htab}. used (table htab ! j) = 0}"
    using assms by (auto simp: hput_nth)
  then show ?thesis
    by (simp add: free_slots_card)
qed

lemma free_slots_filled:
  assumes "hinv htab" "filled htab = hsize htab"
  shows "free_slots htab = 0"
proof -
  have "{i. live htab i} = {1..hsize htab}"
    using assms hinvD(6) [OF assms(1)] by (intro card_subset_eq) (auto simp: live_def)
  then have "live htab i" if "i \<in> {1..hsize htab}" for i
    using that by blast
  then have "{i \<in> {1..hsize htab}. used (table htab ! i) = 0} = {}"
    by (force simp: live_def)
  then show ?thesis
    by (simp add: free_slots_card)
qed

lemma free_slots_pos: "0 < free_slots htab \<Longrightarrow> \<exists>i \<in> {1..hsize htab}. used (table htab ! i) = 0"
  by (auto simp: free_slots_card card_gt_0_iff)

section \<open>Looking up, entering and deleting\<close>

lemma compare_find:
  "hmatches htab k i \<Longrightarrow>
   compare_and_overwrite_entry hk k d FIND htab flag (hash_key (hsize htab) k) i = Found i htab"
  by (auto simp: compare_and_overwrite_entry_def hmatches_def Let_def split: option.split)

lemma hsearch_find:
  assumes "hinv htab" "NUL \<notin> set k"
  shows "hsearch_r hk k d FIND htab flag =
    Some (case hfind htab k of Some i \<Rightarrow> HOk i i | None \<Rightarrow> HFail ESRCH, htab)"
proof (cases "hfind htab k")
  case None
  then show ?thesis
    using hsearch_probe_miss [OF assms None, of hk d FIND flag] by (auto simp: hsearch_r_def Let_def)
next
  case (Some i)
  then have "hmatches htab k i"
    using hmatches_iff [OF assms] hfind_SomeD [OF Some] by (auto simp: live_def)
  then show ?thesis
    using Some by (simp add: hsearch_r_def Let_def hsearch_probe_hit [OF assms Some] compare_find)
qed

text \<open>What a call of \<open>hsearch_r\<close> with \<open>ENTER\<close> does to the table, as a map.\<close>

definition enter_result :: "hsearch_data \<Rightarrow> char list \<Rightarrow> char list \<Rightarrow> hret \<Rightarrow> hsearch_data \<Rightarrow> bool" where
  "enter_result htab k v r htab' \<longleftrightarrow>
     hinv htab' \<and> free_slots htab \<le> free_slots htab' + 1
     \<and> (k \<in> dom (habs htab) \<longrightarrow> free_slots htab \<le> free_slots htab')
     \<and> habs htab' = (case r of HOk _ _ \<Rightarrow> (habs htab)(k \<mapsto> v) | HFail _ \<Rightarrow> habs htab)"

lemma hdelete_slot_hput:
  "hdelete_slot htab i = hput htab i \<lparr>used = -1, entry = \<lparr>key = [], data = [], callback = None, eflags = 0\<rparr>\<rparr> (filled htab - 1)"
  by (simp add: hdelete_slot_def hput_def)

lemma set_data_hput:
  "set_data htab i d = hput htab i ((table htab ! i)\<lparr>entry := (entry (table htab ! i))\<lparr>data := d\<rparr>\<rparr>) (filled htab)"
  by (simp add: set_data_def hput_def)

lemma habs_None_iff: "habs htab k = None \<longleftrightarrow> hfind htab k = None"
  by (simp add: habs_def)

lemma hinsert_at_result:
  assumes inv: "hinv htab" and k: "NUL \<notin> set k" "hfind htab k = None"
    and i: "1 \<le> i" "i \<le> hsize htab" "used (table htab ! i) \<le> 0" "on_path htab k i"
  shows "case hinsert_at hk k v htab flag (hash_key (hsize htab) k) i of (r, htab') \<Rightarrow>
    enter_result htab k (cstr v) r htab'"
proof -
  define e where "e = \<lparr>key = cstr k, data = cstr v, callback = callback_init hk (cstr k), eflags = flags_init hk (cstr k)\<rparr>"
  define h' where "h' = hput htab i \<lparr>used = int (hash_key (hsize htab) (key e)), entry = e\<rparr> (filled htab + 1)"
  have e: "key e = k" "data e = cstr v"
    using k(1) by (simp_all add: e_def cstr_id)
  have len: "i < length (table htab)"
    using hinvD(3) [OF inv] i by simp
  have create: "hinv h'" "habs h' = (habs htab)(k \<mapsto> cstr v)"
    using hinv_create [OF inv, of e i] k i e unfolding h'_def by simp_all
  have slot: "table h' ! i = \<lparr>used = int (hash_key (hsize htab) k), entry = e\<rparr>"
    unfolding h'_def using len e by (simp add: hput_nth)
  have live: "live h' i"
    using i slot hash_key_range [of "hsize htab" k] hinvD(2) [OF inv] by (simp add: live_def h'_def)
  have free: "free_slots htab \<le> free_slots h' + 1"
    unfolding h'_def by (rule free_slots_hput [OF len])
  have "free_slots (hdelete_slot h' i) = free_slots h'"
    unfolding hdelete_slot_hput using live hinvD(3) [OF create(1)]
    by (intro free_slots_hput_used) (auto simp: live_def)
  moreover have "hinv (hdelete_slot h' i)" "habs (hdelete_slot h' i) = (habs h')(k := None)"
    unfolding hdelete_slot_hput using hinv_delete [OF create(1) live] slot e by simp_all
  moreover have "((habs htab)(k \<mapsto> cstr v))(k := None) = habs htab"
    using k(2) by (auto simp: habs_def)
  ultimately have del: "enter_result htab k (cstr v) (HFail err) (hdelete_slot h' i)" for err
    using create free k(2) by (simp add: enter_result_def domIff habs_None_iff)
  have "enter_result htab k (cstr v) (HOk 1 i) h'"
    using create free k(2) by (simp add: enter_result_def domIff habs_None_iff)
  moreover have "hinsert_at hk k v htab flag (hash_key (hsize htab) k) i =
      (if change_ok hk e (Some v) Env_op_create flag then (HFail EPERM, hdelete_slot h' i)
       else if callback_rejects hk e k (Some v) Env_op_create flag then (HFail EINVAL, hdelete_slot h' i)
       else (HOk 1 i, h'))"
    unfolding hinsert_at_def Let_def h'_def e(1) by (simp add: e_def hput_def)
  ultimately show ?thesis
    using del by auto
qed

text \<open>
  Entering a value, when the key is present or a slot was never used: the call ends, keeps the
  invariant, and the table then maps the key to the value, or is unchanged when a check refused.
\<close>

lemma hsearch_enter:
  assumes inv: "hinv htab" and k: "NUL \<notin> set k" and room: "0 < free_slots htab \<or> k \<in> dom (habs htab)"
  shows "\<exists>r htab'. hsearch_r hk k (Some v) ENTER htab flag = Some (r, htab') \<and> enter_result htab k (cstr v) r htab'"
proof (cases "hfind htab k")
  case (Some i)
  then have "live htab i" and key: "key (entry (table htab ! i)) = k" and m: "hmatches htab k i"
    using hmatches_iff [OF inv k] hfind_SomeD [OF Some] by (auto simp: live_def)
  let ?h' = "set_data htab i (cstr v)"
  have len: "i < length (table htab)"
    using hinvD(3) [OF inv] \<open>live htab i\<close> by (simp add: live_def)
  have ow: "hinv ?h'" "habs ?h' = (habs htab)(k \<mapsto> cstr v)"
    unfolding set_data_hput using hinv_overwrite [OF inv \<open>live htab i\<close>] key by simp_all
  have "free_slots ?h' = free_slots htab"
    unfolding set_data_hput using \<open>live htab i\<close> by (intro free_slots_hput_used [OF len]) (auto simp: live_def)
  with ow have ok: "enter_result htab k (cstr v) (HOk i i) ?h'"
    by (simp add: enter_result_def)
  have fail: "enter_result htab k (cstr v) (HFail err) htab" for err
    using inv by (simp add: enter_result_def)
  have "compare_and_overwrite_entry hk k (Some v) ENTER htab flag (hash_key (hsize htab) k) i \<in>
      {Found i ?h', Rejected EPERM, Rejected EINVAL}"
    using m by (auto simp: compare_and_overwrite_entry_def hmatches_def Let_def)
  moreover have "hsearch_r hk k (Some v) ENTER htab flag =
      (case compare_and_overwrite_entry hk k (Some v) ENTER htab flag (hash_key (hsize htab) k) i of
         Found idx htab \<Rightarrow> Some (HOk idx idx, htab) | Rejected e \<Rightarrow> Some (HFail e, htab) | KeepSearching \<Rightarrow> None)"
    by (simp add: hsearch_r_def Let_def hsearch_probe_hit [OF inv k Some] split: cmp_result.split)
  ultimately show ?thesis
    using ok fail by fastforce
next
  case None
  then have "0 < free_slots htab"
    using room by (auto simp: habs_def)
  then have nfull: "filled htab \<noteq> hsize htab"
    using free_slots_filled [OF inv] by auto
  from \<open>0 < free_slots htab\<close> obtain idx where idx: "hsearch_probe hk k (Some v) ENTER htab flag = Some (Stopped idx)"
    "1 \<le> idx" "idx \<le> hsize htab" "used (table htab ! idx) = 0" "on_path htab k idx"
    using hsearch_probe_miss [OF inv k None, of hk "Some v" ENTER flag] free_slots_pos by blast
  let ?h = "hash_key (hsize htab) k"
  let ?i = "if used (table htab ! ?h) = -1 then ?h else idx"
  have "on_path htab k ?h"
    unfolding on_path_def using hinvD(2) [OF inv] by (intro exI [of _ 0]) (simp add: probe_at_0)
  then have "case hinsert_at hk k v htab flag ?h ?i of (r, htab') \<Rightarrow> enter_result htab k (cstr v) r htab'"
    using idx hash_key_range [of "hsize htab" k] hinvD(2) [OF inv]
    by (intro hinsert_at_result [OF inv k None]) auto
  moreover have "hsearch_r hk k (Some v) ENTER htab flag = Some (hinsert_at hk k v htab flag ?h ?i)"
    using idx(1) nfull by (simp add: hsearch_r_def Let_def)
  ultimately show ?thesis
    by (cases "hinsert_at hk k v htab flag ?h ?i") simp
qed

text \<open>With no check that refuses, entering succeeds.\<close>

definition permissive :: "env_hooks \<Rightarrow> bool" where
  "permissive hk \<longleftrightarrow> (\<forall>e v op f. \<not> change_ok hk e v op f) \<and> (\<forall>cb n v op f. \<not> callback_fn hk cb n v op f)"

lemma permissiveD:
  assumes "permissive hk"
  shows "change_ok hk e v op f = False" "callback_rejects hk e n v op f = False"
  using assms by (auto simp: permissive_def callback_rejects_def split: option.split)

lemma hsearch_enter_ok:
  assumes hk: "permissive hk" and inv: "hinv htab" and k: "NUL \<notin> set k"
    and room: "0 < free_slots htab \<or> k \<in> dom (habs htab)"
    and run: "hsearch_r hk k (Some v) ENTER htab flag = Some (r, htab')"
  shows "\<exists>a b. r = HOk a b"
proof (cases "hfind htab k")
  case (Some i)
  then have "hmatches htab k i"
    using hmatches_iff [OF inv k] hfind_SomeD [OF Some] by (auto simp: live_def)
  then have "compare_and_overwrite_entry hk k (Some v) ENTER htab flag (hash_key (hsize htab) k) i
      = Found i (set_data htab i (cstr v))"
    by (simp add: compare_and_overwrite_entry_def hmatches_def Let_def permissiveD [OF hk])
  then show ?thesis
    using run by (auto simp: hsearch_r_def Let_def hsearch_probe_hit [OF inv k Some])
next
  case None
  then have "0 < free_slots htab"
    using room by (auto simp: habs_def)
  then have "filled htab \<noteq> hsize htab"
    using free_slots_filled [OF inv] by auto
  moreover obtain idx where "hsearch_probe hk k (Some v) ENTER htab flag = Some (Stopped idx)"
    using hsearch_probe_miss [OF inv k None, of hk "Some v" ENTER flag] by blast
  ultimately show ?thesis
    using run by (auto simp: hsearch_r_def Let_def hinsert_at_def permissiveD [OF hk])
qed

lemma hdelete_result:
  assumes inv: "hinv htab" and k: "NUL \<notin> set k"
  shows "\<exists>b htab'. hdelete_r hk k htab flag = Some (b, htab') \<and> hinv htab' \<and> free_slots htab' = free_slots htab
    \<and> habs htab' = (if b then (habs htab)(k := None) else habs htab) \<and> (b \<longrightarrow> k \<in> dom (habs htab))
    \<and> (permissive hk \<longrightarrow> b = (k \<in> dom (habs htab)))"
proof (cases "hfind htab k")
  case None
  then have "hdelete_r hk k htab flag = Some (False, htab)" "k \<notin> dom (habs htab)"
    by (simp_all add: hdelete_r_def hsearch_find [OF inv k] habs_def domIff)
  then show ?thesis
    using inv by (intro exI [of _ False] exI [of _ htab]) simp
next
  case (Some i)
  then have live: "live htab i" and key: "key (entry (table htab ! i)) = k"
    using hfind_SomeD [OF Some] by auto
  let ?h' = "hdelete_slot htab i"
  have del: "hinv ?h'" "habs ?h' = (habs htab)(k := None)"
    unfolding hdelete_slot_hput using hinv_delete [OF inv live] key by simp_all
  have free: "free_slots ?h' = free_slots htab"
    unfolding hdelete_slot_hput using live hinvD(3) [OF inv]
    by (intro free_slots_hput_used) (auto simp: live_def)
  have dom: "k \<in> dom (habs htab)"
    using Some by (simp add: habs_def domIff)
  let ?refused = "change_ok hk (entry (table htab ! i)) None Env_op_delete flag
    \<or> callback_rejects hk (entry (table htab ! i)) k None Env_op_delete flag"
  have eq: "hdelete_r hk k htab flag = (if ?refused then Some (False, htab) else Some (True, ?h'))"
    by (simp add: hdelete_r_def hsearch_find [OF inv k] Some Let_def)
  show ?thesis
  proof (cases ?refused)
    case True
    moreover from this have "\<not> permissive hk"
      using permissiveD by blast
    ultimately show ?thesis
      using inv eq by auto
  next
    case False
    then show ?thesis
      unfolding eq using del free dom by (intro exI [of _ True] exI [of _ ?h']) simp
  qed
qed

section \<open>Creating a table\<close>

definition fresh_table :: "nat \<Rightarrow> hsearch_data" where
  "fresh_table n = \<lparr>table = replicate (n + 1) empty_slot, hsize = n, filled = 0\<rparr>"

lemma fresh_table_ok:
  assumes "prime_nat n" "3 < n"
  shows "hinv (fresh_table n)" "habs (fresh_table n) = Map.empty" "free_slots (fresh_table n) = n"
proof -
  have hs: "hsize (fresh_table n) = n"
    by (simp add: fresh_table_def)
  have slot: "used (table (fresh_table n) ! i) = 0" if "i \<le> n" for i
    using that unfolding fresh_table_def
    by (simp only: hsearch_data.simps nth_replicate less_Suc_eq_le Suc_eq_plus1 [symmetric])
      (simp add: empty_slot_def)
  have live: "\<not> live (fresh_table n) i" for i
    using slot [of i] by (auto simp: live_def hs)
  then show "hinv (fresh_table n)"
    using assms by (auto simp: hinv_def fresh_table_def)
  show "habs (fresh_table n) = Map.empty"
    using live by (auto simp: habs_def hfind_None_iff [THEN iffD2])
  have "{i \<in> {1..n}. used (table (fresh_table n) ! i) = 0} = {1..n}"
    using slot by auto
  then show "free_slots (fresh_table n) = n"
    by (simp add: free_slots_card hs)
qed

lemma hcreate_result:
  assumes "4 \<le> nel" "table htab = []"
  shows "\<exists>htab'. hcreate_r nel htab = Some (True, htab') \<and> hinv htab' \<and> habs htab' = Map.empty
    \<and> nel \<le> hsize htab' \<and> free_slots htab' = hsize htab'"
proof -
  define n where "n = (if even nel then nel + 1 else nel)"
  have n: "odd n" "3 < n" "nel \<le> n"
    using assms(1) by (auto simp: n_def)
  obtain p where "prime_nat p" "odd p" "n < p"
    using prime_above by blast
  then obtain q where q: "next_prime n = Some q" "prime_nat q" "n \<le> q"
    using next_prime_found [OF n(1,2), of p] by auto
  then have "hcreate_r nel htab = Some (True, fresh_table q)"
    using assms(2) by (simp add: hcreate_r_def fresh_table_def n_def)
  moreover have "hsize (fresh_table q) = q"
    by (simp add: fresh_table_def)
  ultimately show ?thesis
    using fresh_table_ok [OF q(2)] n q by auto
qed

section \<open>Correctness of the table\<close>

lemma prime_5: "prime_nat 5"
proof -
  have "isprime 5"
    by code_simp
  then show ?thesis
    using isprime_iff [of 5] by simp
qed





text \<open>
  C23: A search ends and answers for the table as a map: with double hashing over a prime size
  the probe loop finds a key exactly when it is in the table, also past deleted slots, and
  changes nothing.
\<close>

theorem hsearch_lookup:
  assumes "hinv htab" "NUL \<notin> set k"
  shows "\<exists>r. hsearch_r hk k d FIND htab flag = Some (r, htab)
    \<and> (case habs htab k of
         None \<Rightarrow> r = HFail ESRCH
       | Some v \<Rightarrow> \<exists>i. r = HOk i i \<and> key (entry (table htab ! i)) = k \<and> data (entry (table htab ! i)) = v)"
proof (cases "hfind htab k")
  case None
  then show ?thesis
    by (simp add: hsearch_find [OF assms] habs_def)
next
  case (Some i)
  then show ?thesis
    using hfind_SomeD [OF Some] by (simp add: hsearch_find [OF assms] habs_def)
qed

text \<open>The hooks of an environment with no callbacks, no flags and no permission check.\<close>

definition no_hooks :: env_hooks where
  "no_hooks = \<lparr>change_ok = \<lambda>_ _ _ _. False, callback_fn = \<lambda>_ _ _ _ _. False,
     callback_init = \<lambda>_. None, flags_init = \<lambda>_. 0\<rparr>"

theorem hsearch_lookup_witness:
  "\<exists>r. hsearch_r no_hooks ''baudrate'' None FIND (fresh_table 5) 0 = Some (r, fresh_table 5) \<and> r = HFail ESRCH"
  using hsearch_lookup [OF fresh_table_ok(1) [OF prime_5], of "''baudrate''" no_hooks None 0]
    fresh_table_ok(2) [OF prime_5] by simp



text \<open>
  C25: Deleting ends, keeps the table invariant, and removes the key from the map or changes
  nothing; with no check that refuses it succeeds exactly when the key was there. The slot
  becomes a tombstone, so no never-used slot is lost or gained.
\<close>

theorem hdelete_removes:
  assumes "hinv htab" "NUL \<notin> set k"
  shows "\<exists>b htab'. hdelete_r hk k htab flag = Some (b, htab') \<and> hinv htab' \<and> free_slots htab' = free_slots htab
    \<and> habs htab' = (if b then (habs htab)(k := None) else habs htab)
    \<and> (permissive hk \<longrightarrow> b = (k \<in> dom (habs htab)))"
  using hdelete_result [OF assms] by blast

theorem hdelete_removes_witness:
  "\<exists>b htab'. hdelete_r no_hooks ''baudrate'' (fresh_table 5) 0 = Some (b, htab') \<and> hinv htab' \<and> \<not> b"
  using hdelete_removes [OF fresh_table_ok(1) [OF prime_5], of "''baudrate''" no_hooks 0]
    fresh_table_ok(2) [OF prime_5] by (auto simp: permissive_def no_hooks_def)

text \<open>
  When every slot was used at some time, the search for a new key comes back to its first slot;
  if that slot is live, the code enters the new key there although the table is not full, and the old entry is
  lost. Here slots 1 to 4 are live, slot 5 is a tombstone, and entering \<open>h\<close> (hash 1) drops \<open>c\<close>.
\<close>

definition full_slot :: "char list \<Rightarrow> int \<Rightarrow> hslot" where
  "full_slot k h = \<lparr>used = h, entry = \<lparr>key = k, data = ''1'', callback = None, eflags = 0\<rparr>\<rparr>"

definition tombstone_table :: hsearch_data where
  "tombstone_table = \<lparr>table = [empty_slot, full_slot ''c'' 1, full_slot ''d'' 1, full_slot ''a'' 3,
     full_slot ''b'' 4, full_slot [] (-1)], hsize = 5, filled = 4\<rparr>"

lemma hsearch_loses_entry:
  "habs tombstone_table ''c'' = Some ''1''
   \<and> map_option (\<lambda>(r, htab). (r, habs htab ''c'')) (hsearch_r no_hooks ''h'' (Some ''2'') ENTER tombstone_table 0)
     = Some (HOk 1 1, None)"
  by code_simp

end
