(* ===== verification/Env_Store.thy ===== *)
theory Env_Store
  imports C_Printf
begin

text \<open>
  The interface of the environment: what the clients of \<open>getenv\<close> and \<open>setenv\<close> rely on.
  \<open>vars\<close> is the environment as a map and \<open>room\<close> the number of variables that can still be
  created; a variable that is there already takes none. \<open>setenv\<close> returns the exit code of the C function, 0 for success.
\<close>

section \<open>The interface\<close>

locale env_store =
  fixes inv :: "'s \<Rightarrow> bool"
    and vars :: "'s \<Rightarrow> char list \<Rightarrow> char list option"
    and room :: "'s \<Rightarrow> nat"
    and getenv :: "char list \<Rightarrow> 's \<Rightarrow> char list option"
    and setenv :: "char list \<Rightarrow> char list \<Rightarrow> 's \<Rightarrow> (int \<times> 's) option"
    and name_ok :: "char list \<Rightarrow> bool"
  assumes getenv_vars: "\<lbrakk>inv s; name_ok k\<rbrakk> \<Longrightarrow> getenv k s = vars s k"
    and setenv_result: "\<lbrakk>inv s; name_ok k; 0 < room s\<rbrakk> \<Longrightarrow>
      \<exists>rc s'. setenv k v s = Some (rc, s') \<and> inv s' \<and> room s \<le> room s' + 1
        \<and> vars s' = (if rc \<noteq> 0 then vars s
                     else if cstr v = [] then (vars s)(k := None) else (vars s)(k \<mapsto> cstr v))"
    and setenv_present: "\<lbrakk>inv s; name_ok k; k \<in> dom (vars s); cstr v \<noteq> []\<rbrakk> \<Longrightarrow>
      \<exists>rc s'. setenv k v s = Some (rc, s') \<and> inv s' \<and> room s \<le> room s'
        \<and> vars s' = (if rc \<noteq> 0 then vars s else (vars s)(k \<mapsto> cstr v))"
begin

lemma getenv_setenv:
  assumes "inv s" "name_ok k" "name_ok k'" "0 < room s" "setenv k v s = Some (0, s')"
  shows "getenv k' s' = (if k' = k then (if cstr v = [] then None else Some (cstr v)) else getenv k' s)"
  using setenv_result [OF assms(1,2,4), of v] assms by (auto simp: getenv_vars)

lemma setenv_inv:
  assumes "inv s" "name_ok k" "0 < room s" "setenv k v s = Some (rc, s')"
  shows "inv s'" "room s \<le> room s' + 1"
  using setenv_result [OF assms(1-3), of v] assms(4) by auto

text \<open>A failed assignment leaves every variable as it was.\<close>

lemma setenv_failed:
  assumes "inv s" "name_ok k" "name_ok k'" "0 < room s" "setenv k v s = Some (rc, s')" "rc \<noteq> 0"
  shows "getenv k' s' = getenv k' s"
  using setenv_result [OF assms(1,2,4), of v] assms by (auto simp: getenv_vars)

end

section \<open>A sequence of assignments\<close>

text \<open>Assignments made one after the other, and their effect on the map.\<close>

fun run_sets ::
  "(char list \<Rightarrow> char list \<Rightarrow> 's \<Rightarrow> (int \<times> 's) option) \<Rightarrow> (char list \<times> char list) list \<Rightarrow> 's \<Rightarrow> 's option" where
  "run_sets setenv [] s = Some s"
| "run_sets setenv ((k, v) # ops) s =
     (case setenv k v s of None \<Rightarrow> None | Some (_, s') \<Rightarrow> run_sets setenv ops s')"

fun set_vars ::
  "(char list \<times> char list) list \<Rightarrow> (char list \<Rightarrow> char list option) \<Rightarrow> (char list \<Rightarrow> char list option)" where
  "set_vars [] m = m"
| "set_vars ((k, v) # ops) m = set_vars ops (if cstr v = [] then m(k := None) else m(k \<mapsto> cstr v))"

text \<open>An environment whose checks refuse nothing.\<close>

locale open_env_store = env_store +
  assumes setenv_open: "\<lbrakk>inv s; name_ok k; 0 < room s; setenv k v s = Some (rc, s')\<rbrakk> \<Longrightarrow>
      vars s' = (if cstr v = [] then (vars s)(k := None) else (vars s)(k \<mapsto> cstr v))"
begin

lemma run_sets_result:
  "inv s \<Longrightarrow> length ops \<le> room s \<Longrightarrow> \<forall>(k, v) \<in> set ops. name_ok k
   \<Longrightarrow> \<exists>s'. run_sets setenv ops s = Some s' \<and> inv s' \<and> vars s' = set_vars ops (vars s)
     \<and> room s \<le> room s' + length ops"
proof (induction ops arbitrary: s)
  case (Cons op ops)
  obtain k v where op: "op = (k, v)"
    by force
  obtain rc s1 where s1: "setenv k v s = Some (rc, s1)" "inv s1" "room s \<le> room s1 + 1"
    using setenv_result [of s k v] Cons.prems op by auto
  moreover from this have "vars s1 = (if cstr v = [] then (vars s)(k := None) else (vars s)(k \<mapsto> cstr v))"
    using setenv_open [of s k v] Cons.prems op by auto
  moreover obtain s' where "run_sets setenv ops s1 = Some s'" "inv s'" "vars s' = set_vars ops (vars s1)"
    "room s1 \<le> room s' + length ops"
    using Cons.IH [of s1] s1 Cons.prems by auto
  ultimately show ?case
    by (auto simp: op)
qed auto

end

end
