(* ===== verification/Env.thy ===== *)
theory Env
  imports Env_Hash Env_Store
begin

text \<open>
  The environment functions of \<^verbatim>\<open>cmd/nvedit.c\<close> over the hash table of \<^verbatim>\<open>lib/hashtable.c\<close>,
  and the proof that they meet the interface of \<open>Env_Store\<close>. The lookup before the table is
  imported, \<open>getenv_f\<close>, is the parameter \<open>early\<close>.
\<close>

section \<open>Operations\<close>

record env_state =
  env_htab :: hsearch_data
  env_ready :: bool
  env_id :: int

text \<open>\<open>H_FORCE\<close>, \<open>H_PROGRAMMATIC\<close> and the return code \<open>CMD_RET_USAGE\<close> (-1) of the commands.\<close>

definition H_FORCE :: u32 where
  "H_FORCE = 2"

definition H_PROGRAMMATIC :: u32 where
  "H_PROGRAMMATIC = 512"

definition CMD_RET_USAGE :: int where
  "CMD_RET_USAGE = -1"

text \<open>
  The option loop of \<open>_do_env_set\<close> over the arguments after the command name: the remaining
  arguments and flags, or \<open>None\<close> for an unknown option.
\<close>

primrec env_set_options :: "char list list \<Rightarrow> u32 \<Rightarrow> (char list list \<times> u32) option" where
  "env_set_options [] env_flag = Some ([], env_flag)"
| "env_set_options (a # argv) env_flag =
     (if peek a = CHR ''-'' then
        if \<forall>c \<in> set (cstr (tl a)). c = CHR ''f'' then
          env_set_options argv (if cstr (tl a) = [] then env_flag else env_flag OR H_FORCE)
        else None
      else Some (a # argv, env_flag))"

text \<open>The arguments from the value on, joined with blanks.\<close>

fun join_args :: "char list list \<Rightarrow> char list" where
  "join_args [] = []"
| "join_args [v] = cstr v"
| "join_args (v # vs) = cstr v @ CHR '' '' # join_args vs"

text \<open>
  \<open>_do_env_set\<close> on the arguments after the command name. The outer \<open>None\<close> is a name
  argument that is missing, which the C code dereferences.
\<close>

definition do_env_set :: "env_hooks \<Rightarrow> char list list \<Rightarrow> u32 \<Rightarrow> env_state \<Rightarrow> (int \<times> env_state) option" where
  "do_env_set hk argv env_flag st =
     (case env_set_options argv env_flag of
        None \<Rightarrow> Some (CMD_RET_USAGE, st)
      | Some ([], _) \<Rightarrow> None
      | Some (name # vals, env_flag) \<Rightarrow>
          if strchr name CHR ''='' \<noteq> None then Some (1, st)
          else
            let st = st\<lparr>env_id := env_id st + 1\<rparr> in
            if vals = [] then
              (case hdelete_r hk name (env_htab st) env_flag of
                 None \<Rightarrow> None
               | Some (rc, htab) \<Rightarrow> Some (if rc then 0 else 1, st\<lparr>env_htab := htab\<rparr>))
            else
              (case hsearch_r hk name (Some (join_args vals)) ENTER (env_htab st) env_flag of
                 None \<Rightarrow> None
               | Some (HOk _ _, htab) \<Rightarrow> Some (0, st\<lparr>env_htab := htab\<rparr>)
               | Some (HFail _, htab) \<Rightarrow> Some (1, st\<lparr>env_htab := htab\<rparr>)))"

definition setenv :: "env_hooks \<Rightarrow> char list \<Rightarrow> char list option \<Rightarrow> env_state \<Rightarrow> (int \<times> env_state) option" where
  "setenv hk varname varvalue st =
     (if \<not> env_ready st then Some (1, st)
      else case varvalue of
             None \<Rightarrow> do_env_set hk [varname] H_PROGRAMMATIC st
           | Some v \<Rightarrow>
               if peek v = NUL then do_env_set hk [varname] H_PROGRAMMATIC st
               else do_env_set hk [varname, v] H_PROGRAMMATIC st)"

definition getenv :: "env_hooks \<Rightarrow> (char list \<Rightarrow> char list option) \<Rightarrow> char list \<Rightarrow> env_state \<Rightarrow> char list option" where
  "getenv hk early name st =
     (if env_ready st then
        case hsearch_r hk name None FIND (env_htab st) 0 of
          Some (HOk _ i, htab) \<Rightarrow> Some (data (entry (table htab ! i)))
        | _ \<Rightarrow> None
      else early name)"

function itoa_loop :: "ulong \<Rightarrow> char list \<Rightarrow> char list" where
  "itoa_loop i p =
     (let p = char_of (48 + unat (i mod 10)) # p; i = i div 10
      in if 0 < i then itoa_loop i p else p)"
  by auto
termination
proof (relation "measure (\<lambda>(i, p). unat i)", goal_cases)
  case (2 i p p' i')
  then have "unat i' = unat i div 10" "0 < unat i'"
    by (simp_all only: unat_div word_less_nat_alt unat_0 unat_numeral) simp
  then show ?case
    by (cases "unat i") simp_all
qed simp

declare itoa_loop.simps [simp del]

definition simple_itoa :: "ulong \<Rightarrow> char list" where
  "simple_itoa i = itoa_loop i []"

definition setenv_ulong :: "env_hooks \<Rightarrow> char list \<Rightarrow> ulong \<Rightarrow> env_state \<Rightarrow> (int \<times> env_state) option" where
  "setenv_ulong hk varname val st = setenv hk varname (Some (simple_itoa val)) st"

definition setenv_hex :: "env_hooks \<Rightarrow> char list \<Rightarrow> ulong \<Rightarrow> env_state \<Rightarrow> (int \<times> env_state) option" where
  "setenv_hex hk varname val st =
     (case sprintf (\<lambda>_. 0) ''%lx'' [VInt val] of
        None \<Rightarrow> None
      | Some str \<Rightarrow> setenv hk varname (Some str) st)"

definition getenv_hex ::
  "env_hooks \<Rightarrow> (char list \<Rightarrow> char list option) \<Rightarrow> char list \<Rightarrow> ulong \<Rightarrow> env_state \<Rightarrow> ulong" where
  "getenv_hex hk early varname default_val st =
     (case getenv hk early varname st of
        None \<Rightarrow> default_val
      | Some s \<Rightarrow>
          let (val, endp) = simple_strtoul s 16
          in if length endp = length s then default_val else val)"

definition getenv_ulong ::
  "env_hooks \<Rightarrow> (char list \<Rightarrow> char list option) \<Rightarrow> char list \<Rightarrow> nat \<Rightarrow> ulong \<Rightarrow> env_state \<Rightarrow> ulong" where
  "getenv_ulong hk early name base default_val st =
     (case getenv hk early name st of
        None \<Rightarrow> default_val
      | Some s \<Rightarrow> fst (simple_strtoul s base))"

section \<open>The environment meets its interface\<close>

definition env_inv :: "env_state \<Rightarrow> bool" where
  "env_inv st \<longleftrightarrow> env_ready st \<and> hinv (env_htab st)"

definition env_vars :: "env_state \<Rightarrow> char list \<Rightarrow> char list option" where
  "env_vars st = habs (env_htab st)"

definition env_room :: "env_state \<Rightarrow> nat" where
  "env_room st = free_slots (env_htab st)"

text \<open>A name \<open>setenv\<close> takes literally: a C string with no \<open>=\<close> that does not start with a dash.\<close>

definition env_name :: "char list \<Rightarrow> bool" where
  "env_name k \<longleftrightarrow> NUL \<notin> set k \<and> CHR ''='' \<notin> set k \<and> peek k \<noteq> CHR ''-''"

lemma peek_NUL_iff: "peek v = NUL \<longleftrightarrow> cstr v = []"
  by (cases v) auto

lemma env_set_options_name:
  "env_name k \<Longrightarrow> env_set_options (k # vals) f = Some (k # vals, f)"
  by (simp add: env_name_def)

lemma getenv_habs: "env_inv st \<Longrightarrow> env_name k \<Longrightarrow> getenv hk early k st = habs (env_htab st) k"
  by (auto simp: getenv_def env_inv_def env_name_def hsearch_find habs_def split: option.split)

lemma setenv_delete:
  assumes "env_inv st" "env_name k" "cstr v = []"
  shows "setenv hk k (Some v) st =
    (case hdelete_r hk k (env_htab st) H_PROGRAMMATIC of
       None \<Rightarrow> None
     | Some (rc, htab) \<Rightarrow> Some (if rc then 0 else 1, st\<lparr>env_id := env_id st + 1, env_htab := htab\<rparr>))"
  using assms
  by (simp add: setenv_def env_inv_def do_env_set_def env_set_options_name peek_NUL_iff Let_def
      strchr_None_iff cstr_id env_name_def del: env_set_options.simps)

lemma setenv_enter:
  assumes "env_inv st" "env_name k" "cstr v \<noteq> []"
  shows "setenv hk k (Some v) st =
    (case hsearch_r hk k (Some (cstr v)) ENTER (env_htab st) H_PROGRAMMATIC of
       None \<Rightarrow> None
     | Some (r, htab) \<Rightarrow>
         Some (case r of HOk _ _ \<Rightarrow> 0 | HFail _ \<Rightarrow> 1, st\<lparr>env_id := env_id st + 1, env_htab := htab\<rparr>))"
  using assms
  by (auto simp: setenv_def env_inv_def do_env_set_def env_set_options_name peek_NUL_iff Let_def
      strchr_None_iff cstr_id env_name_def simp del: env_set_options.simps split: option.split hret.split)

lemma setenv_result:
  assumes "env_inv st" "env_name k" "0 < env_room st"
  shows "\<exists>rc st'. setenv hk k (Some v) st = Some (rc, st') \<and> env_inv st' \<and> env_room st \<le> env_room st' + 1
    \<and> env_vars st' = (if rc \<noteq> 0 then env_vars st
        else if cstr v = [] then (env_vars st)(k := None) else (env_vars st)(k \<mapsto> cstr v))"
proof (cases "cstr v = []")
  case True
  have "NUL \<notin> set k" "hinv (env_htab st)"
    using assms by (simp_all add: env_inv_def env_name_def)
  then obtain b htab' where "hdelete_r hk k (env_htab st) H_PROGRAMMATIC = Some (b, htab')" "hinv htab'"
    "free_slots htab' = free_slots (env_htab st)"
    "habs htab' = (if b then (habs (env_htab st))(k := None) else habs (env_htab st))"
    using hdelete_result [of "env_htab st" k hk H_PROGRAMMATIC] by blast
  then show ?thesis
    using assms True setenv_delete [OF assms(1,2) True, of hk]
    by (cases b) (simp_all add: env_inv_def env_room_def env_vars_def)
next
  case False
  obtain r htab' where "hsearch_r hk k (Some (cstr v)) ENTER (env_htab st) H_PROGRAMMATIC = Some (r, htab')"
    "enter_result (env_htab st) k (cstr v) r htab'"
    using hsearch_enter [of "env_htab st" k hk "cstr v" H_PROGRAMMATIC] assms
    by (auto simp: env_inv_def env_name_def env_room_def)
  then show ?thesis
    using assms False setenv_enter [OF assms(1,2) False, of hk]
    by (cases r) (simp_all add: env_inv_def env_room_def env_vars_def enter_result_def)
qed

lemma setenv_present:
  assumes "env_inv st" "env_name k" "k \<in> dom (env_vars st)" "cstr v \<noteq> []"
  shows "\<exists>rc st'. setenv hk k (Some v) st = Some (rc, st') \<and> env_inv st' \<and> env_room st \<le> env_room st'
    \<and> env_vars st' = (if rc \<noteq> 0 then env_vars st else (env_vars st)(k \<mapsto> cstr v))"
proof -
  obtain r htab' where "hsearch_r hk k (Some (cstr v)) ENTER (env_htab st) H_PROGRAMMATIC = Some (r, htab')"
    "enter_result (env_htab st) k (cstr v) r htab'"
    using hsearch_enter [of "env_htab st" k hk "cstr v" H_PROGRAMMATIC] assms
    by (auto simp: env_inv_def env_name_def env_vars_def)
  then show ?thesis
    using assms(1,3) setenv_enter [OF assms(1,2,4), of hk]
    by (cases r) (simp_all add: env_inv_def env_room_def env_vars_def enter_result_def)
qed

lemma permissive_no_hooks: "permissive no_hooks"
  by (simp add: permissive_def no_hooks_def)

lemma setenv_open:
  assumes "permissive hk" "env_inv st" "env_name k" "0 < env_room st \<or> k \<in> dom (env_vars st)"
    and "setenv hk k (Some v) st = Some (rc, st')"
  shows "env_vars st' = (if cstr v = [] then (env_vars st)(k := None) else (env_vars st)(k \<mapsto> cstr v))"
proof (cases "cstr v = []")
  case True
  obtain b htab' where "hdelete_r hk k (env_htab st) H_PROGRAMMATIC = Some (b, htab')"
    "habs htab' = (if b then (habs (env_htab st))(k := None) else habs (env_htab st))"
    "b = (k \<in> dom (habs (env_htab st)))"
    using hdelete_result [of "env_htab st" k hk H_PROGRAMMATIC] assms by (auto simp: env_inv_def env_name_def)
  then show ?thesis
    using assms(5) True setenv_delete [OF assms(2,3) True, of hk] by (auto simp: env_vars_def domIff)
next
  case False
  obtain r htab' where r: "hsearch_r hk k (Some (cstr v)) ENTER (env_htab st) H_PROGRAMMATIC = Some (r, htab')"
    "enter_result (env_htab st) k (cstr v) r htab'"
    using hsearch_enter [of "env_htab st" k hk "cstr v" H_PROGRAMMATIC] assms
    by (auto simp: env_inv_def env_name_def env_room_def env_vars_def)
  moreover obtain a b where "r = HOk a b"
    using hsearch_enter_ok [OF assms(1) _ _ _ r(1)] assms(2-4)
    by (auto simp: env_inv_def env_name_def env_room_def env_vars_def)
  ultimately show ?thesis
    using assms(5) False setenv_enter [OF assms(2,3) False, of hk]
    by (auto simp: env_vars_def enter_result_def)
qed

interpretation uenv: env_store env_inv env_vars env_room "getenv hk early"
  "\<lambda>k v. setenv hk k (Some v)" env_name for hk early
  by unfold_locales (simp add: getenv_habs env_vars_def, rule setenv_result, assumption+, rule setenv_present)

interpretation open_uenv: open_env_store env_inv env_vars env_room "getenv no_hooks early"
  "\<lambda>k v. setenv no_hooks k (Some v)" env_name for early
  by unfold_locales (rule setenv_open [OF permissive_no_hooks], simp_all)

section \<open>Stored values are read back\<close>

lemma sprintf_lx:
  "sprintf m ''%lx'' [VInt val] = Some (rev (map (digit_char True) (nat_digits 16 (unat val))) @ [NUL])"
proof -
  let ?ds = "rev (map (digit_char True) (nat_digits 16 (unat val)))"
  have len: "length (nat_digits 16 (unat val)) \<le> 8"
    using length_nat_digits [of 16 "unat val" 7] unat_u32_less [of val] by simp
  have "number (ucast val) 16 (-1) (-1) (no_flags\<lparr>SMALL := True\<rparr>) = ?ds"
    by (simp add: number_unsigned no_flags_def number_tmp_digits unat_ucast_u64)
  then have "vsn_loop m ''%lx'' ([], [VInt val], []) = Some (?ds, [], [])"
    by (simp add: vsn_directive_def parse_width_def is_digit_def parse_precision_def parse_qualifier_def
        vsn_convert_def va_number_def no_flags_def)
  then show ?thesis
    using len by (simp add: sprintf_def vsnprintf_def INT_MAX_def)
qed

lemma hex_digits_no_NUL: "NUL \<notin> set (rev (map (digit_char True) (nat_digits 16 n)))"
proof
  assume "NUL \<in> set (rev (map (digit_char True) (nat_digits 16 n)))"
  then obtain d where "digit_char True d = NUL" "d \<in> set (nat_digits 16 n)"
    unfolding set_rev set_map by (metis imageE)
  moreover from this have "d < 16"
    using nat_digits_less [of 16 d n] by simp
  ultimately show False
    using digit_char_value [of d True] by (simp add: isxdigit_iff [of NUL])
qed

lemma strtoul_hex_digits:
  "simple_strtoul (rev (map (digit_char True) (nat_digits 16 (unat n)))) 16 = (n, [])"
  using simple_strtoul_digits [of "rev (nat_digits 16 (unat n))" 16 "[]" True] nat_digits_less [of 16 _ "unat n"]
  by (simp add: rev_map isxdigit_iff digits_value_rev_nat_digits)


definition env5 :: env_state where
  "env5 = \<lparr>env_htab = fresh_table 5, env_ready = True, env_id = 0\<rparr>"

lemma env5_ok: "env_inv env5"
  using fresh_table_ok [OF prime_5] by (simp add: env_inv_def env5_def)


text \<open>
  C37: A number stored with \<open>setenv_hex\<close> is the number \<open>getenv_hex\<close> reads, for every 32-bit
  value: the value is printed by the formatter, entered into the table, found again and parsed.
\<close>

theorem setenv_hex_getenv_hex:
  assumes "env_inv st" "env_name k" "0 < env_room st"
  shows "\<exists>rc st'. setenv_hex no_hooks k val st = Some (rc, st') \<and> getenv_hex no_hooks early k dflt st' = val"
proof -
  let ?ds = "rev (map (digit_char True) (nat_digits 16 (unat val)))"
  have v: "cstr (?ds @ [NUL]) = ?ds" "?ds \<noteq> []"
    using cstr_append_NUL [OF hex_digits_no_NUL, of "unat val" "[]"] by simp_all
  obtain rc st' where st': "setenv no_hooks k (Some (?ds @ [NUL])) st = Some (rc, st')" "env_inv st'"
    using setenv_result [OF assms, of no_hooks "?ds @ [NUL]"] by auto
  then have "env_vars st' = (env_vars st)(k \<mapsto> ?ds)"
    using setenv_open [OF permissive_no_hooks assms(1,2) disjI1 [OF assms(3)] st'(1)] v by simp
  then have "getenv no_hooks early k st' = Some ?ds"
    using getenv_habs [OF st'(2) assms(2)] by (simp add: env_vars_def)
  then have "getenv_hex no_hooks early k dflt st' = val"
    using v(2) strtoul_hex_digits [of val] by (simp add: getenv_hex_def)
  moreover have "setenv_hex no_hooks k val st = Some (rc, st')"
    using st'(1) by (simp add: setenv_hex_def sprintf_lx)
  ultimately show ?thesis
    by blast
qed

theorem setenv_hex_getenv_hex_witness:
  "\<exists>rc st'. setenv_hex no_hooks ''fastboot_buffer'' 0x12C00000 env5 = Some (rc, st')
    \<and> getenv_hex no_hooks (\<lambda>_. None) ''fastboot_buffer'' 0 st' = 0x12C00000"
proof -
  have "env_name ''fastboot_buffer''" "0 < env_room env5"
    by code_simp+
  then show ?thesis
    by (rule setenv_hex_getenv_hex [OF env5_ok])
qed

end
