(* ===== verification/Env_Import.thy ===== *)
theory Env_Import
  imports Env
begin

text \<open>
  The linear form of the environment: \<open>hexport_r\<close>, \<open>himport_r\<close> and \<open>hwalk_r\<close> of
  \<^verbatim>\<open>lib/hashtable.c\<close>. The parser of \<open>himport_r\<close> writes terminators and unescaped values
  only behind its read position, so it is a function of the unread rest of its copy.
\<close>

section \<open>Export\<close>

definition cmpkey :: "ENTRY \<Rightarrow> ENTRY \<Rightarrow> int" where
  "cmpkey e1 e2 = strcmp (key e1) (key e2)"

text \<open>\<open>match_string\<close>; regular expressions, \<^verbatim>\<open>lib/slre.c\<close>, are the parameter \<open>re\<close>.\<close>

definition match_string :: "(char list \<Rightarrow> char list \<Rightarrow> bool) \<Rightarrow> u32 \<Rightarrow> char list \<Rightarrow> char list \<Rightarrow> bool" where
  "match_string re flag str pat =
     (case (bit flag H_MATCH_IDENT, bit flag H_MATCH_SUBSTR, bit flag H_MATCH_REGEX) of
        (True, False, False) \<Rightarrow> strcmp str pat = 0
      | (False, True, False) \<Rightarrow> strstr str pat \<noteq> None
      | (False, False, True) \<Rightarrow> re pat str
      | _ \<Rightarrow> False)"

definition match_entry :: "(char list \<Rightarrow> char list \<Rightarrow> bool) \<Rightarrow> ENTRY \<Rightarrow> u32 \<Rightarrow> char list list \<Rightarrow> bool" where
  "match_entry re ep flag argv \<longleftrightarrow>
     (\<exists>a \<in> set argv. (bit flag H_MATCH_KEY \<and> match_string re flag (key ep) a)
                   \<or> (bit flag H_MATCH_DATA \<and> match_string re flag (data ep) a))"

text \<open>Pass 1: the entries to export, in table order.\<close>

definition export_list :: "(char list \<Rightarrow> char list \<Rightarrow> bool) \<Rightarrow> hsearch_data \<Rightarrow> u32 \<Rightarrow> char list list \<Rightarrow> ENTRY list" where
  "export_list re htab flag argv =
     filter (\<lambda>ep. (argv = [] \<or> match_entry re ep flag argv)
                 \<and> \<not> (bit flag H_HIDE_DOT \<and> peek (key ep) = CHR ''.''))
       (map (\<lambda>i. entry (table htab ! i))
          (filter (\<lambda>i. 0 < used (table htab ! i)) [1..<hsize htab + 1]))"

fun escaped_length :: "char \<Rightarrow> char list \<Rightarrow> nat" where
  "escaped_length sep [] = 0"
| "escaped_length sep (c # s) =
     (if c = NUL then 0
      else (if c = sep \<or> c = CHR 0x5C then 2 else 1) + escaped_length sep s)"

definition entry_length :: "char \<Rightarrow> ENTRY \<Rightarrow> nat" where
  "entry_length sep ep =
     strlen (key ep) + 2 + (if sep = NUL then strlen (data ep) else escaped_length sep (data ep)) + 2"

definition total_length :: "char \<Rightarrow> ENTRY list \<Rightarrow> nat" where
  "total_length sep es = sum_list (map (entry_length sep) es)"

text \<open>Pass 2: the text of one entry.\<close>

fun escape :: "char \<Rightarrow> char list \<Rightarrow> char list" where
  "escape sep [] = []"
| "escape sep (c # s) =
     (if c = NUL then []
      else if c = sep \<or> c = CHR 0x5C then CHR 0x5C # c # escape sep s
      else c # escape sep s)"

definition entry_text :: "char \<Rightarrow> ENTRY \<Rightarrow> char list" where
  "entry_text sep ep = cstr (key ep) @ CHR ''='' # escape sep (data ep) @ [sep]"

text \<open>
  \<open>hexport_r\<close>: the characters written from the start of the buffer on, and the size returned.
  The rest of the buffer up to that size is zero. \<open>Inl\<close> is a buffer that is too small.
\<close>

definition hexport_r ::
  "(char list \<Rightarrow> char list \<Rightarrow> bool) \<Rightarrow> hsearch_data \<Rightarrow> char \<Rightarrow> u32 \<Rightarrow> nat \<Rightarrow> char list list
   \<Rightarrow> errno + (char list \<times> nat)" where
  "hexport_r re htab sep flag sz argv =
     (let es = export_list re htab flag argv;
          totlen = total_length sep es;
          es = qsort cmpkey es;
          text = concat (map (entry_text sep) es) @ [NUL]
      in if sz \<noteq> 0 then
           if sz < totlen + 1 then Inl ENOMEM else Inr (text, sz)
         else Inr (text, totlen + 1))"

section \<open>Import\<close>

text \<open>The variables still to be processed; \<open>None\<close> is a pointer set to \<open>NULL\<close>.\<close>

definition drop_var_from_set :: "char list \<Rightarrow> char list option list \<Rightarrow> bool \<times> char list option list" where
  "drop_var_from_set name vars =
     (if vars = [] then (True, vars)
      else
        let hit = (\<lambda>v. case v of None \<Rightarrow> False | Some s \<Rightarrow> strcmp name s = 0)
        in (\<exists>v \<in> set vars. hit v, map (\<lambda>v. if hit v then None else v) vars))"

text \<open>The characters kept when carriage returns before line feeds are removed, and their number.\<close>

fun crlf_keep :: "char list \<Rightarrow> char list \<times> nat" where
  "crlf_keep [] = ([], 0)"
| "crlf_keep (c # cs) =
     (if c = NUL then ([], 0)
      else
        let (ks, n) = crlf_keep cs
        in if c = CHR 0x0D \<and> cs \<noteq> [] \<and> hd cs = CHR 0x0A then (ks, n + 1) else (c # ks, n))"

text \<open>The value loop: the unescaped value and the rest from its terminator on.\<close>

fun parse_value :: "char \<Rightarrow> char list \<Rightarrow> char list \<times> char list" where
  "parse_value sep [] = ([], [])"
| "parse_value sep (c # cs) =
     (if c = NUL \<or> c = sep then ([], c # cs)
      else if c = CHR 0x5C \<and> peek cs \<noteq> NUL then
        (case cs of
           [] \<Rightarrow> ([], [])
         | d # ds \<Rightarrow> let (v, r) = parse_value sep ds in (d # v, r))
      else let (v, r) = parse_value sep cs in (c # v, r))"

text \<open>What one round of the import loop finds, and where it leaves the read position.\<close>

datatype import_item =
    Comment
  | Delete "char list"
  | Insert "char list" "char list"

definition import_item :: "char \<Rightarrow> char list \<Rightarrow> import_item \<times> char list" where
  "import_item sep dp =
     (let dp = dropWhile isblank dp in
      if peek dp = CHR ''#'' then
        (Comment, tl (dropWhile (\<lambda>c. c \<noteq> NUL \<and> c \<noteq> sep) dp))
      else
        let name_char = (\<lambda>c. c \<noteq> CHR ''='' \<and> c \<noteq> NUL \<and> c \<noteq> sep);
            name = takeWhile name_char dp;
            dp = dropWhile name_char dp
        in if peek dp = NUL \<or> peek (tl dp) = NUL \<or> peek dp = sep \<or> peek (tl dp) = sep then
             (Delete name, if peek dp = CHR ''='' then tl (tl dp) else tl dp)
           else
             let (v, r) = parse_value sep (tl dp) in (Insert name v, tl r))"

text \<open>
  The loop. \<open>stale\<close> is the number of characters of the copy at and behind \<open>data + size\<close>; the
  loop goes on while the read position is before them and not at a terminator. The boolean of
  the result is the value \<open>himport_r\<close> returns.
\<close>

lemma length_parse_value: "length (snd (parse_value sep cs)) \<le> length cs"
proof (induction sep cs rule: parse_value.induct)
  case (2 sep c cs)
  show ?case
  proof (cases "c = NUL \<or> c = sep")
    case stop: False
    show ?thesis
    proof (cases "c = CHR 0x5C \<and> peek cs \<noteq> NUL")
      case True
      then obtain d ds where "cs = d # ds"
        by (cases cs) auto
      then show ?thesis
        using 2(1) [OF stop True] stop True by (simp add: case_prod_unfold Let_def)
    next
      case False
      then show ?thesis
        using 2(2) [OF stop False] stop by (auto simp: case_prod_unfold Let_def)
    qed
  qed simp
qed simp

lemma length_import_item: "dp \<noteq> [] \<Longrightarrow> length (snd (import_item sep dp)) < length dp"
proof -
  assume "dp \<noteq> []"
  define d where "d = dropWhile isblank dp"
  have d: "length d \<le> length dp"
    by (simp add: d_def length_dropWhile_le)
  have tl: "length (tl xs) < length dp" if "length xs \<le> length dp" for xs :: "char list"
    using that \<open>dp \<noteq> []\<close> by (cases xs) auto
  have dw: "length (dropWhile P d) \<le> length dp" for P
    using length_dropWhile_le [of P d] d by linarith
  have "length (tl (snd (parse_value sep (tl xs)))) < length dp" if "length xs \<le> length dp" for xs
    using length_parse_value [of sep "tl xs"] that by (intro tl) simp
  moreover have "length (tl (tl xs)) < length dp" if "length xs \<le> length dp" for xs :: "char list"
    using that by (intro tl) simp
  ultimately show ?thesis
    unfolding import_item_def Let_def d_def [symmetric] case_prod_unfold using tl dw by simp
qed

function himport_loop ::
  "env_hooks \<Rightarrow> char \<Rightarrow> u32 \<Rightarrow> nat \<Rightarrow> char list \<Rightarrow> hsearch_data \<Rightarrow> char list option list
   \<Rightarrow> (bool \<times> hsearch_data \<times> char list option list) option" where
  "himport_loop hk sep flag stale dp htab vars =
     (if dp = [] then Some (True, htab, vars)
      else
        let (item, dp') = import_item sep dp;
            next_round = (\<lambda>htab vars.
              if stale < length dp' \<and> peek dp' \<noteq> NUL
              then himport_loop hk sep flag stale dp' htab vars else Some (True, htab, vars))
        in case item of
             Comment \<Rightarrow> next_round htab vars
           | Delete name \<Rightarrow>
               let (hit, vars) = drop_var_from_set name vars in
               if \<not> hit then next_round htab vars
               else (case hdelete_r hk name htab flag of
                       None \<Rightarrow> None
                     | Some (_, htab) \<Rightarrow> next_round htab vars)
           | Insert name v \<Rightarrow>
               if name = [] then Some (False, htab, vars)
               else
                 let (hit, vars) = drop_var_from_set name vars in
                 if \<not> hit then next_round htab vars
                 else (case hsearch_r hk name (Some v) ENTER htab flag of
                         None \<Rightarrow> None
                       | Some (_, htab) \<Rightarrow> next_round htab vars))"
  by pat_completeness auto
termination
proof (relation "measure (\<lambda>(hk, sep, flag, stale, dp, htab, vars). length dp)", goal_cases)
  case 1
  show ?case ..
qed (use length_import_item in \<open>fastforce dest: arg_cong [of _ _ snd]\<close>)+

declare himport_loop.simps [simp del]

text \<open>The variables that were asked for and not in the text are deleted.\<close>

fun delete_unseen :: "env_hooks \<Rightarrow> u32 \<Rightarrow> char list option list \<Rightarrow> hsearch_data \<Rightarrow> hsearch_data option" where
  "delete_unseen hk flag [] htab = Some htab"
| "delete_unseen hk flag (None # vars) htab = delete_unseen hk flag vars htab"
| "delete_unseen hk flag (Some v # vars) htab =
     (case hdelete_r hk v htab flag of
        None \<Rightarrow> None
      | Some (_, htab) \<Rightarrow> delete_unseen hk flag vars htab)"

definition CONFIG_ENV_MIN_ENTRIES :: nat where
  "CONFIG_ENV_MIN_ENTRIES = 64"

definition CONFIG_ENV_MAX_ENTRIES :: nat where
  "CONFIG_ENV_MAX_ENTRIES = 512"

text \<open>The local copy of the text after \<open>crlf_is_lf\<close>, with its terminator, and the size in force.\<close>

definition import_copy :: "char list \<Rightarrow> bool \<Rightarrow> char list \<times> nat" where
  "import_copy env crlf_is_lf =
     (if crlf_is_lf then
        let (ks, n) = crlf_keep env
        in (ks @ drop (length ks) env @ [NUL], length env - n)
      else (env @ [NUL], length env))"

definition himport_r ::
  "env_hooks \<Rightarrow> char list \<Rightarrow> char \<Rightarrow> u32 \<Rightarrow> bool \<Rightarrow> char list list \<Rightarrow> hsearch_data \<Rightarrow> (bool \<times> hsearch_data) option" where
  "himport_r hk env sep flag crlf_is_lf vars htab =
     (let htab = (if \<not> bit flag H_NOCLEAR \<and> table htab \<noteq> [] then hdestroy_r htab else htab);
          created =
            (if table htab = []
             then hcreate_r (min (CONFIG_ENV_MIN_ENTRIES + length env div 8) CONFIG_ENV_MAX_ENTRIES) htab
             else Some (True, htab))
      in case created of
           None \<Rightarrow> None
         | Some (False, htab) \<Rightarrow> Some (False, htab)
         | Some (True, htab) \<Rightarrow>
             if env = [] then Some (True, htab)
             else
               let (dat, sz) = import_copy env crlf_is_lf in
               case himport_loop hk sep flag (length dat - sz) dat htab (map Some vars) of
                 None \<Rightarrow> None
               | Some (False, htab, _) \<Rightarrow> Some (False, htab)
               | Some (True, htab, vars) \<Rightarrow> map_option (\<lambda>htab. (True, htab)) (delete_unseen hk flag vars htab))"

section \<open>Walking the table\<close>

text \<open>\<open>hwalk_r\<close>: the callback sees the entries in table order until one returns non-zero.\<close>

fun walk_entries :: "('s \<Rightarrow> ENTRY \<Rightarrow> int \<times> 's) \<Rightarrow> 's \<Rightarrow> ENTRY list \<Rightarrow> int \<times> 's" where
  "walk_entries f s [] = (0, s)"
| "walk_entries f s (e # es) =
     (let (retval, s) = f s e in if retval \<noteq> 0 then (retval, s) else walk_entries f s es)"

definition hwalk_r :: "hsearch_data \<Rightarrow> ('s \<Rightarrow> ENTRY \<Rightarrow> int \<times> 's) \<Rightarrow> 's \<Rightarrow> int \<times> 's" where
  "hwalk_r htab f s =
     walk_entries f s (map (\<lambda>i. entry (table htab ! i))
       (filter (\<lambda>i. 0 < used (table htab ! i)) [1..<hsize htab + 1]))"

section \<open>The exported text fits the size that was computed\<close>

lemma length_escape: "length (escape sep s) = escaped_length sep s"
  by (induction sep s rule: escape.induct) auto

lemma length_entry_text:
  assumes "sep \<noteq> NUL \<or> CHR 0x5C \<notin> set (data e)"
  shows "length (entry_text sep e) + 2 \<le> entry_length sep e"
proof (cases "sep = NUL")
  case True
  have "escape NUL s = cstr s" if "CHR 0x5C \<notin> set s" for s
    using that by (induction s) auto
  then show ?thesis
    using assms True by (simp add: entry_text_def entry_length_def strlen_cstr)
next
  case False
  then show ?thesis
    by (simp add: entry_text_def entry_length_def strlen_cstr length_escape)
qed

lemma sum_list_mset_eq: "mset xs = mset ys \<Longrightarrow> sum_list (map f xs) = sum_list (map (f :: 'a \<Rightarrow> nat) ys)"
  by (metis mset_map sum_mset_sum_list)

lemma length_export_text:
  assumes "\<forall>e \<in> set es. sep \<noteq> NUL \<or> CHR 0x5C \<notin> set (data e)"
  shows "length (concat (map (entry_text sep) (qsort cmpkey es))) \<le> total_length sep es"
proof -
  have "length (concat (map (entry_text sep) (qsort cmpkey es))) = sum_list (map (\<lambda>e. length (entry_text sep e)) (qsort cmpkey es))"
    by (simp add: length_concat comp_def)
  also have "\<dots> = sum_list (map (\<lambda>e. length (entry_text sep e)) es)"
    by (rule sum_list_mset_eq) (rule qsort_mset)
  also have "\<dots> \<le> total_length sep es"
    unfolding total_length_def using assms length_entry_text
    by (intro sum_list_mono) (meson add_leD1)
  finally show ?thesis .
qed

section \<open>Reading back what was written\<close>

lemma parse_value_escape:
  assumes "NUL \<notin> set d" "sep \<noteq> CHR 0x5C"
  shows "parse_value sep (escape sep d @ sep # rest) = (d, sep # rest)"
  using assms(1)
proof (induction d)
  case (Cons c d)
  then show ?case
    using assms(2) by (cases "c = sep \<or> c = CHR 0x5C") (auto simp: Let_def)
qed simp

text \<open>A name that survives the parser: no separator, not empty, no leading blank and no comment.\<close>

definition import_name :: "char \<Rightarrow> char list \<Rightarrow> bool" where
  "import_name sep k \<longleftrightarrow> k \<noteq> [] \<and> NUL \<notin> set k \<and> CHR ''='' \<notin> set k \<and> sep \<notin> set k
     \<and> \<not> isblank (hd k) \<and> hd k \<noteq> CHR ''#''"

definition import_sep :: "char \<Rightarrow> bool" where
  "import_sep sep \<longleftrightarrow> sep \<noteq> CHR 0x5C \<and> sep \<noteq> CHR ''=''"

lemma import_item_text:
  assumes "import_name sep (key e)" "import_sep sep" "NUL \<notin> set (data e)" "data e \<noteq> []"
  shows "import_item sep (entry_text sep e @ rest) = (Insert (key e) (data e), rest)"
proof -
  obtain c k where k: "key e = c # k"
    using assms(1) by (cases "key e") (auto simp: import_name_def)
  let ?ok = "\<lambda>c. c \<noteq> CHR ''='' \<and> c \<noteq> NUL \<and> c \<noteq> sep"
  let ?v = "escape sep (data e) @ sep # rest"
  have tx: "entry_text sep e @ rest = key e @ CHR ''='' # ?v"
    using assms(1) by (simp add: entry_text_def import_name_def cstr_id)
  have ok: "?ok x" if "x \<in> set (key e)" for x
    using assms(1) that unfolding import_name_def by metis
  have name: "takeWhile ?ok (key e @ CHR ''='' # ?v) = key e" "dropWhile ?ok (key e @ CHR ''='' # ?v) = CHR ''='' # ?v"
    using takeWhile_append2 [of "key e" ?ok "CHR ''='' # ?v"] dropWhile_append2 [of "key e" ?ok "CHR ''='' # ?v"] ok
    by simp_all
  have blank: "dropWhile isblank (key e @ CHR ''='' # ?v) = key e @ CHR ''='' # ?v" "peek (key e @ CHR ''='' # ?v) \<noteq> CHR ''#''"
    using assms(1) k by (auto simp: import_name_def)
  have first: "peek ?v \<noteq> NUL" "peek ?v \<noteq> sep"
    using assms(2-4) by (cases "data e"; auto simp: import_sep_def)+
  show ?thesis
    using first assms(2) parse_value_escape [OF assms(3), of sep rest]
    by (auto simp: import_item_def Let_def tx name blank import_sep_def)
qed

definition entry_ok :: "char \<Rightarrow> ENTRY \<Rightarrow> bool" where
  "entry_ok sep e \<longleftrightarrow> import_name sep (key e) \<and> NUL \<notin> set (data e) \<and> data e \<noteq> []"

definition put_entries :: "ENTRY list \<Rightarrow> (char list \<Rightarrow> char list option) \<Rightarrow> (char list \<Rightarrow> char list option)" where
  "put_entries es m = foldl (\<lambda>m e. m(key e \<mapsto> data e)) m es"

lemma put_entries_simps: "put_entries [] m = m" "put_entries (e # es) m = put_entries es (m(key e \<mapsto> data e))"
  by (simp_all add: put_entries_def)

lemma entry_text_nonempty: "entry_ok sep e \<Longrightarrow> entry_text sep e @ rest \<noteq> [] \<and> peek (entry_text sep e @ rest) \<noteq> NUL"
  by (cases "key e") (auto simp: entry_ok_def import_name_def entry_text_def)

lemma himport_insert:
  assumes "entry_ok sep e" "import_sep sep" "permissive hk" "hinv htab" "0 < free_slots htab"
  obtains htab' where "hinv htab'" "free_slots htab \<le> free_slots htab' + 1"
    "habs htab' = (habs htab)(key e \<mapsto> data e)"
    "himport_loop hk sep flag stale (entry_text sep e @ rest) htab [] =
      (if stale < length rest \<and> peek rest \<noteq> NUL then himport_loop hk sep flag stale rest htab' []
       else Some (True, htab', []))"
proof -
  have k: "NUL \<notin> set (key e)" "key e \<noteq> []" and d: "cstr (data e) = data e"
    using assms(1) by (auto simp: entry_ok_def import_name_def cstr_id)
  obtain r htab' where r: "hsearch_r hk (key e) (Some (data e)) ENTER htab flag = Some (r, htab')"
    "enter_result htab (key e) (data e) r htab'"
    using hsearch_enter [OF assms(4) k(1), of hk "data e" flag] assms(5) d by auto
  moreover obtain a b where "r = HOk a b"
    using hsearch_enter_ok [OF assms(3,4) k(1) _ r(1)] assms(5) by auto
  moreover have "himport_loop hk sep flag stale (entry_text sep e @ rest) htab [] =
      (if stale < length rest \<and> peek rest \<noteq> NUL then himport_loop hk sep flag stale rest htab' []
       else Some (True, htab', []))"
    using import_item_text [of sep e rest] assms(1,2) entry_text_nonempty [OF assms(1), of rest] k(2) r(1)
    by (subst himport_loop.simps) (auto simp: entry_ok_def drop_var_from_set_def)
  ultimately show ?thesis
    by (intro that) (auto simp: enter_result_def)
qed

lemma himport_entries:
  assumes "import_sep sep" "permissive hk" "stale \<le> length rest" "peek rest = NUL"
  shows "es \<noteq> [] \<Longrightarrow> \<forall>e \<in> set es. entry_ok sep e \<Longrightarrow> hinv htab \<Longrightarrow> length es \<le> free_slots htab \<Longrightarrow>
    \<exists>htab'. himport_loop hk sep flag stale (concat (map (entry_text sep) es) @ rest) htab [] = Some (True, htab', [])
      \<and> hinv htab' \<and> habs htab' = put_entries es (habs htab)"
proof (induction es arbitrary: htab)
  case (Cons e es)
  let ?rest = "concat (map (entry_text sep) es) @ rest"
  have "entry_ok sep e" "0 < free_slots htab"
    using Cons.prems by simp_all
  then obtain htab1 where h1: "hinv htab1" "free_slots htab \<le> free_slots htab1 + 1"
    "habs htab1 = (habs htab)(key e \<mapsto> data e)"
    "himport_loop hk sep flag stale (entry_text sep e @ ?rest) htab [] =
      (if stale < length ?rest \<and> peek ?rest \<noteq> NUL then himport_loop hk sep flag stale ?rest htab1 []
       else Some (True, htab1, []))"
    using himport_insert [OF _ assms(1,2) Cons.prems(3)] by blast
  show ?case
  proof (cases "es = []")
    case True
    then show ?thesis
      using h1 assms(4) by (simp add: put_entries_simps fun_upd_def)
  next
    case False
    then obtain e' es' where es: "es = e' # es'"
      by (cases es) auto
    have "peek ?rest \<noteq> NUL" "stale < length ?rest"
      using entry_text_nonempty [of sep e' "concat (map (entry_text sep) es') @ rest"] Cons.prems(2) es assms(3)
      by (simp_all add: entry_text_def)
    moreover obtain htab' where "himport_loop hk sep flag stale ?rest htab1 [] = Some (True, htab', [])"
      "hinv htab'" "habs htab' = put_entries es (habs htab1)"
      using Cons.IH [OF False _ h1(1)] Cons.prems h1(2) by auto
    ultimately show ?thesis
      using h1(3,4) by (simp add: put_entries_simps del: fun_upd_apply)
  qed
qed simp

text \<open>Entering the live entries of a table into an empty map gives back the table's map.\<close>

lemma put_entries_notin: "k \<notin> key ` set es \<Longrightarrow> put_entries es m k = m k"
  by (induction es arbitrary: m) (auto simp: put_entries_simps)

lemma put_entries_Some:
  "distinct (map key es) \<Longrightarrow> e \<in> set es \<Longrightarrow> put_entries es m (key e) = Some (data e)"
proof (induction es arbitrary: m)
  case (Cons a es)
  show ?case
  proof (cases "e = a")
    case True
    then show ?thesis
      using Cons.prems put_entries_notin [of "key a" es "m(key a \<mapsto> data a)"] by (simp add: put_entries_simps)
  next
    case False
    then show ?thesis
      using Cons by (simp add: put_entries_simps)
  qed
qed simp

lemma export_list_all: "export_list re htab 0 [] =
    map (\<lambda>i. entry (table htab ! i)) (filter (\<lambda>i. 0 < used (table htab ! i)) [1..<hsize htab + 1])"
  by (simp add: export_list_def del: upt_Suc)

lemma live_list: "set (filter (\<lambda>i. 0 < used (table htab ! i)) [1..<hsize htab + 1]) = {i. live htab i}"
  by (auto simp: live_def)

lemma export_list_distinct:
  assumes "hinv htab"
  shows "distinct (map key (export_list re htab 0 []))"
proof -
  have "inj_on (key \<circ> (\<lambda>i. entry (table htab ! i))) {i. live htab i}"
    using hinvD(5) [OF assms] by (auto simp: inj_on_def)
  then show ?thesis
    unfolding export_list_all map_map using live_list [of htab]
    by (simp add: distinct_map del: upt_Suc set_filter set_upt filter_set [symmetric])
qed

lemma put_export_list:
  assumes "hinv htab" "mset es = mset (export_list re htab 0 [])"
  shows "put_entries es Map.empty = habs htab"
proof
  fix k
  have set: "set es = (\<lambda>i. entry (table htab ! i)) ` {i. live htab i}"
    using mset_eq_setD [OF assms(2)] live_list [of htab] unfolding export_list_all by (simp only: set_map)
  have "mset (map key es) = mset (map key (export_list re htab 0 []))"
    using assms(2) by simp
  then have dist: "distinct (map key es)"
    using export_list_distinct [OF assms(1), of re] mset_eq_imp_distinct_iff by blast
  show "put_entries es Map.empty k = habs htab k"
  proof (cases "habs htab k")
    case None
    then have "k \<notin> key ` set es"
      unfolding set by (auto simp: habs_None_iff hfind_None_iff)
    then show ?thesis
      using None by (simp add: put_entries_notin)
  next
    case (Some v)
    then obtain i where "live htab i" "key (entry (table htab ! i)) = k" "data (entry (table htab ! i)) = v"
      using habs_Some_iff [OF assms(1)] by blast
    then show ?thesis
      using put_entries_Some [OF dist, of "entry (table htab ! i)"] Some set by auto
  qed
qed

lemma himport_empty:
  assumes "hinv htab" "stale = Suc 0"
  shows "\<exists>htab'. himport_loop hk sep flag stale (NUL # replicate n NUL) htab [] = Some (True, htab', [])
    \<and> hinv htab' \<and> (permissive hk \<longrightarrow> habs htab' = (habs htab)([] := None))"
proof -
  have item: "import_item sep (NUL # replicate n NUL) = (Delete [], replicate n NUL)"
    by (simp add: import_item_def isblank_def)
  have stop: "peek (replicate n NUL) = NUL"
    by (cases n) auto
  have "NUL \<notin> set []"
    by simp
  from hdelete_result [OF assms(1) this, of hk flag]
  obtain b htab' where "hdelete_r hk [] htab flag = Some (b, htab')" "hinv htab'"
    "habs htab' = (if b then (habs htab)([] := None) else habs htab)"
    "permissive hk \<longrightarrow> b = ([] \<in> dom (habs htab))"
    by blast
  moreover from this have "permissive hk \<longrightarrow> habs htab' = (habs htab)([] := None)"
    by (auto simp: domIff fun_upd_idem)
  ultimately show ?thesis
    using item stop by (subst himport_loop.simps) (simp add: drop_var_from_set_def)
qed

lemma import_export:
  assumes "hinv htab" "import_sep sep" "permissive hk"
    and ok: "\<forall>i. live htab i \<longrightarrow> entry_ok sep (entry (table htab ! i))"
    and out: "hexport_r re htab sep 0 sz [] = Inr (out, n)"
    and few: "filled htab \<le> min (CONFIG_ENV_MIN_ENTRIES + length (out @ replicate pad NUL) div 8) CONFIG_ENV_MAX_ENTRIES"
  shows "\<exists>htab'. himport_r hk (out @ replicate pad NUL) sep 0 False [] htab0 = Some (True, htab')
    \<and> habs htab' = habs htab \<and> hinv htab'"
proof -
  define es where "es = qsort cmpkey (export_list re htab 0 [])"
  have es: "mset es = mset (export_list re htab 0 [])"
    by (simp add: es_def qsort_mset)
  have set: "set es = (\<lambda>i. entry (table htab ! i)) ` {i. live htab i}"
    using mset_eq_setD [OF es] live_list [of htab] unfolding export_list_all by (simp only: set_map)
  have "length es = card {i. live htab i}"
    using mset_eq_length [OF es] live_list [of htab] distinct_card [of "filter (\<lambda>i. 0 < used (table htab ! i)) [1..<hsize htab + 1]"]
    unfolding export_list_all by (simp del: upt_Suc set_filter set_upt)
  have tx: "out = concat (map (entry_text sep) es) @ [NUL]"
    using out by (auto simp: hexport_r_def Let_def es_def split: if_splits)
  let ?env = "out @ replicate pad NUL"
  let ?nel = "min (CONFIG_ENV_MIN_ENTRIES + length ?env div 8) CONFIG_ENV_MAX_ENTRIES"
  have len: "length es \<le> ?nel"
    using few hinvD(6) [OF assms(1)] \<open>length es = card {i. live htab i}\<close> by simp
  define h0 where "h0 = (if table htab0 \<noteq> [] then hdestroy_r htab0 else htab0)"
  have h0: "table h0 = []"
    by (simp add: h0_def hdestroy_r_def)
  have nel: "64 \<le> ?nel"
    by (simp add: CONFIG_ENV_MIN_ENTRIES_def CONFIG_ENV_MAX_ENTRIES_def)
  then obtain h1 where h1: "hcreate_r ?nel h0 = Some (True, h1)" "hinv h1" "habs h1 = Map.empty"
    "?nel \<le> free_slots h1"
    using hcreate_result [of ?nel h0] h0 by force
  let ?rest = "NUL # replicate (pad + 1) NUL"
  have dat: "?env @ [NUL] = concat (map (entry_text sep) es) @ ?rest"
    by (simp add: tx replicate_append_same)
  obtain h2 where h2: "himport_loop hk sep 0 1 (?env @ [NUL]) h1 [] = Some (True, h2, [])" "habs h2 = habs htab" "hinv h2"
  proof (cases "es = []")
    case True
    then have "habs htab = Map.empty"
      using put_export_list [OF assms(1) es] by (simp add: put_entries_simps)
    moreover obtain h2 where "himport_loop hk sep 0 1 ?rest h1 [] = Some (True, h2, [])" "habs h2 = Map.empty" "hinv h2"
      using himport_empty [OF h1(2), of 1 hk sep 0 "pad + 1"] assms(3) h1(3) by (auto simp: fun_upd_idem)
    ultimately show ?thesis
      using True that [of h2] unfolding dat by simp
  next
    case False
    have "\<forall>e \<in> set es. entry_ok sep e"
      using ok set by auto
    then obtain h2 where "himport_loop hk sep 0 1 (concat (map (entry_text sep) es) @ ?rest) h1 [] = Some (True, h2, [])"
      "habs h2 = put_entries es (habs h1)" "hinv h2"
      using himport_entries [OF assms(2,3), of 1 ?rest es h1 0] False h1(2,4) len by auto
    then show ?thesis
      using that [of h2] put_export_list [OF assms(1) es] h1(3) unfolding dat by simp
  qed
  have "length (?env @ [NUL]) - length ?env = 1"
    by simp
  then have "himport_r hk ?env sep 0 False [] htab0 = Some (True, h2)"
    unfolding himport_r_def Let_def using h1(1) h2(1) h0 tx
    by (simp add: import_copy_def h0_def [symmetric])
  with h2(2,3) show ?thesis
    by blast
qed

text \<open>
  C26: Importing an exported environment gives the same variables back: the text of
  \<open>hexport_r\<close>, padded with zero bytes to any length, read by \<open>himport_r\<close> into a fresh
  table, yields a table with the same map, for every separator other than the escape character
  and the equals sign, as long as the variables have proper names and non-empty values and
  there are at most 64 of them.
\<close>

theorem himport_hexport:
  assumes "hinv htab" "import_sep sep" "permissive hk"
    and ok: "\<forall>i. live htab i \<longrightarrow> entry_ok sep (entry (table htab ! i))"
    and few: "filled htab \<le> 64"
    and out: "hexport_r re htab sep 0 sz [] = Inr (out, n)"
  shows "\<exists>htab'. himport_r hk (out @ replicate pad NUL) sep 0 False [] htab0 = Some (True, htab')
    \<and> habs htab' = habs htab"
proof -
  have "filled htab \<le> min (CONFIG_ENV_MIN_ENTRIES + length (out @ replicate pad NUL) div 8) CONFIG_ENV_MAX_ENTRIES"
    using few by (simp add: CONFIG_ENV_MIN_ENTRIES_def CONFIG_ENV_MAX_ENTRIES_def)
  from import_export [OF assms(1-4) out this] show ?thesis by blast
qed

text \<open>A table of five slots with one variable.\<close>

definition table5_a :: hsearch_data where
  "table5_a = \<lparr>table = (replicate 6 empty_slot)[3 := \<lparr>used = 3, entry =
     \<lparr>key = ''a'', data = ''1'', callback = None, eflags = 0\<rparr>\<rparr>], hsize = 5, filled = 1\<rparr>"

lemma table5_a_entered: "hsearch_r no_hooks ''a'' (Some ''1'') ENTER (fresh_table 5) 0 = Some (HOk 1 3, table5_a)"
  by code_simp

lemma hinv_table5_a: "hinv table5_a"
  using hsearch_enter [of "fresh_table 5" "''a''" no_hooks "''1''" 0] fresh_table_ok [OF prime_5] table5_a_entered
  by (auto simp: enter_result_def)

lemma live_table5_a: "live table5_a i \<Longrightarrow> i = 3"
proof -
  assume l: "live table5_a i"
  then have "i \<in> {1..5}"
    by (auto simp: live_def table5_a_def)
  then have "i \<in> {1, 2, 3, 4, 5}"
    by auto
  then show ?thesis
    using l by (auto simp: live_def table5_a_def empty_slot_def numeral_eq_Suc)
qed

theorem himport_hexport_witness:
  "hexport_r (\<lambda>_ _. False) table5_a NUL 0 0 [] = Inr (''a=1'' @ [NUL, NUL], 7)
   \<and> (\<exists>htab'. himport_r no_hooks ((''a=1'' @ [NUL, NUL]) @ replicate 3 NUL) NUL 0 False [] table5_a = Some (True, htab')
        \<and> habs htab' = habs table5_a)"
proof -
  have out: "hexport_r (\<lambda>_ _. False) table5_a NUL 0 0 [] = Inr (''a=1'' @ [NUL, NUL], 7)"
    by code_simp
  have "entry_ok NUL (entry (table table5_a ! 3))" "import_sep NUL" "filled table5_a \<le> 64"
    by code_simp+
  then have "\<forall>i. live table5_a i \<longrightarrow> entry_ok NUL (entry (table table5_a ! i))" "import_sep NUL" "filled table5_a \<le> 64"
    using live_table5_a by blast+
  with himport_hexport [OF hinv_table5_a _ permissive_no_hooks _ _ out, of 3 table5_a] out
  show ?thesis
    by blast
qed

text \<open>
  C38: The text \<open>hexport_r\<close> writes fits the buffer size it checks and returns, when the separator
  is not the zero byte or no value holds a backslash.
\<close>

theorem hexport_fits:
  assumes "\<forall>e \<in> set (export_list re htab flag argv). sep \<noteq> NUL \<or> CHR 0x5C \<notin> set (data e)"
    and "hexport_r re htab sep flag sz argv = Inr (out, n)"
  shows "length out \<le> n"
  using length_export_text [OF assms(1)] assms(2)
  by (auto simp: hexport_r_def Let_def split: if_splits)

theorem hexport_fits_witness:
  "hexport_r (\<lambda>_ _. False) table5_a CHR 0x0A 0 0 [] = Inr (''a=1'' @ [CHR 0x0A, NUL], 7)
   \<and> length (''a=1'' @ [CHR 0x0A, NUL]) \<le> 7"
proof -
  have out: "hexport_r (\<lambda>_ _. False) table5_a CHR 0x0A 0 0 [] = Inr (''a=1'' @ [CHR 0x0A, NUL], 7)"
    by code_simp
  then show ?thesis
    using hexport_fits [OF _ out] by simp
qed

text \<open>
  With a zero byte as separator, backslashes in values are still escaped, but the length pass does not count
  the escapes: a value of four backslashes is written past the size that was checked.
\<close>

definition table5_bs :: hsearch_data where
  "table5_bs = \<lparr>table = (replicate 6 empty_slot)[3 := \<lparr>used = 3, entry =
     \<lparr>key = ''a'', data = replicate 4 CHR 0x5C, callback = None, eflags = 0\<rparr>\<rparr>], hsize = 5, filled = 1\<rparr>"

lemma hexport_overflow:
  "\<exists>out n. hexport_r (\<lambda>_ _. False) table5_bs NUL 0 10 [] = Inr (out, n) \<and> n = 10 \<and> n < length out"
proof -
  have "hexport_r (\<lambda>_ _. False) table5_bs NUL 0 10 [] = Inr (''a='' @ replicate 8 CHR 0x5C @ [NUL, NUL], 10)"
    by code_simp
  then show ?thesis
    by simp
qed

text \<open>
  Removing carriage returns shortens the text but not the copy: the characters behind the new
  end are read as part of the last value when the text has no final line feed.
\<close>

lemma import_crlf_stale:
  "snd (import_copy (''a=b'' @ [CHR 0x0D, CHR 0x0A] @ ''c=d'') True) = 7
   \<and> fst (import_item CHR 0x0A (drop 4 (fst (import_copy (''a=b'' @ [CHR 0x0D, CHR 0x0A] @ ''c=d'') True))))
     = Insert ''c'' ''dd''"
  by code_simp

section \<open>The export is sorted\<close>

lemma lexord_char_less_trans: "trans (lexord char_less)"
  by (intro lexord_transI transI) (auto simp: char_less_def)

lemma strcmp_le_iff:
  assumes "ascii (cstr s)" "ascii (cstr t)"
  shows "strcmp s t \<le> 0 \<longleftrightarrow> (cstr s, cstr t) \<in> lexord char_less \<or> cstr s = cstr t"
  using strcmp_order [OF assms] strcmp_eq_0_iff [of s t] by (auto simp: order_le_less)

lemma lexord_char_less_total: "(s, t) \<in> lexord char_less \<or> s = t \<or> (t, s) \<in> lexord char_less"
proof (rule lexord_linear)
  show "\<forall>a b. (a, b) \<in> char_less \<or> a = b \<or> (b, a) \<in> char_less"
    by (auto simp: char_less_def)
qed

interpretation env_keys: comparator cmpkey "{e. ascii (cstr (key e))}"
proof (unfold_locales, goal_cases)
  case (1 a b c)
  then show ?case
    using transD [OF lexord_char_less_trans, of "cstr (key a)" "cstr (key b)" "cstr (key c)"]
    by (auto simp: cmpkey_def strcmp_le_iff)
next
  case (2 a b)
  then show ?case
    using lexord_char_less_total [of "cstr (key a)" "cstr (key b)"] by (auto simp: cmpkey_def strcmp_le_iff)
qed


definition table5_ca :: hsearch_data where
  "table5_ca = table5_a\<lparr>table := (table table5_a)[1 := \<lparr>used = 1, entry =
     \<lparr>key = ''c'', data = ''2'', callback = None, eflags = 0\<rparr>\<rparr>], filled := 2\<rparr>"


end
