(* ===== verification/C_Crc.thy ===== *)
theory C_Crc
  imports C_Memory
begin

text \<open>
  \<^verbatim>\<open>lib/crc32.c\<close>: the checksum of the stored environment and of partition tables. The routine
  reads a table, byte by byte up to a word boundary, then whole words, then the remaining bytes; it is
  proved equal to the division by the polynomial one bit at a time, whatever the alignment of the
  buffer. A buffer is its address and its bytes. The target is little-endian.
\<close>

section \<open>The code\<close>

text \<open>The generator of the table, for builds with \<open>DYNAMIC_CRC_TABLE\<close>.\<close>

definition crc_poly :: u32 where
  "crc_poly = fold (\<lambda>p poly. poly OR push_bit (31 - p) 1) [0, 1, 2, 4, 5, 7, 8, 10, 11, 12, 16, 22, 23, 26] 0"

definition crc_shift :: "u32 \<Rightarrow> u32" where
  "crc_shift c = (if c AND 1 \<noteq> 0 then crc_poly XOR drop_bit 1 c else drop_bit 1 c)"

definition make_crc_table :: "u32 list" where
  "make_crc_table = map (\<lambda>n. (crc_shift ^^ 8) (of_nat n)) [0..<256]"

text \<open>The constant table of all other builds.\<close>

definition crc_table :: "u32 list" where
  "crc_table =
     [0x00000000, 0x77073096, 0xee0e612c, 0x990951ba, 0x076dc419, 0x706af48f, 0xe963a535, 0x9e6495a3,
      0x0edb8832, 0x79dcb8a4, 0xe0d5e91e, 0x97d2d988, 0x09b64c2b, 0x7eb17cbd, 0xe7b82d07, 0x90bf1d91,
      0x1db71064, 0x6ab020f2, 0xf3b97148, 0x84be41de, 0x1adad47d, 0x6ddde4eb, 0xf4d4b551, 0x83d385c7,
      0x136c9856, 0x646ba8c0, 0xfd62f97a, 0x8a65c9ec, 0x14015c4f, 0x63066cd9, 0xfa0f3d63, 0x8d080df5,
      0x3b6e20c8, 0x4c69105e, 0xd56041e4, 0xa2677172, 0x3c03e4d1, 0x4b04d447, 0xd20d85fd, 0xa50ab56b,
      0x35b5a8fa, 0x42b2986c, 0xdbbbc9d6, 0xacbcf940, 0x32d86ce3, 0x45df5c75, 0xdcd60dcf, 0xabd13d59,
      0x26d930ac, 0x51de003a, 0xc8d75180, 0xbfd06116, 0x21b4f4b5, 0x56b3c423, 0xcfba9599, 0xb8bda50f,
      0x2802b89e, 0x5f058808, 0xc60cd9b2, 0xb10be924, 0x2f6f7c87, 0x58684c11, 0xc1611dab, 0xb6662d3d,
      0x76dc4190, 0x01db7106, 0x98d220bc, 0xefd5102a, 0x71b18589, 0x06b6b51f, 0x9fbfe4a5, 0xe8b8d433,
      0x7807c9a2, 0x0f00f934, 0x9609a88e, 0xe10e9818, 0x7f6a0dbb, 0x086d3d2d, 0x91646c97, 0xe6635c01,
      0x6b6b51f4, 0x1c6c6162, 0x856530d8, 0xf262004e, 0x6c0695ed, 0x1b01a57b, 0x8208f4c1, 0xf50fc457,
      0x65b0d9c6, 0x12b7e950, 0x8bbeb8ea, 0xfcb9887c, 0x62dd1ddf, 0x15da2d49, 0x8cd37cf3, 0xfbd44c65,
      0x4db26158, 0x3ab551ce, 0xa3bc0074, 0xd4bb30e2, 0x4adfa541, 0x3dd895d7, 0xa4d1c46d, 0xd3d6f4fb,
      0x4369e96a, 0x346ed9fc, 0xad678846, 0xda60b8d0, 0x44042d73, 0x33031de5, 0xaa0a4c5f, 0xdd0d7cc9,
      0x5005713c, 0x270241aa, 0xbe0b1010, 0xc90c2086, 0x5768b525, 0x206f85b3, 0xb966d409, 0xce61e49f,
      0x5edef90e, 0x29d9c998, 0xb0d09822, 0xc7d7a8b4, 0x59b33d17, 0x2eb40d81, 0xb7bd5c3b, 0xc0ba6cad,
      0xedb88320, 0x9abfb3b6, 0x03b6e20c, 0x74b1d29a, 0xead54739, 0x9dd277af, 0x04db2615, 0x73dc1683,
      0xe3630b12, 0x94643b84, 0x0d6d6a3e, 0x7a6a5aa8, 0xe40ecf0b, 0x9309ff9d, 0x0a00ae27, 0x7d079eb1,
      0xf00f9344, 0x8708a3d2, 0x1e01f268, 0x6906c2fe, 0xf762575d, 0x806567cb, 0x196c3671, 0x6e6b06e7,
      0xfed41b76, 0x89d32be0, 0x10da7a5a, 0x67dd4acc, 0xf9b9df6f, 0x8ebeeff9, 0x17b7be43, 0x60b08ed5,
      0xd6d6a3e8, 0xa1d1937e, 0x38d8c2c4, 0x4fdff252, 0xd1bb67f1, 0xa6bc5767, 0x3fb506dd, 0x48b2364b,
      0xd80d2bda, 0xaf0a1b4c, 0x36034af6, 0x41047a60, 0xdf60efc3, 0xa867df55, 0x316e8eef, 0x4669be79,
      0xcb61b38c, 0xbc66831a, 0x256fd2a0, 0x5268e236, 0xcc0c7795, 0xbb0b4703, 0x220216b9, 0x5505262f,
      0xc5ba3bbe, 0xb2bd0b28, 0x2bb45a92, 0x5cb36a04, 0xc2d7ffa7, 0xb5d0cf31, 0x2cd99e8b, 0x5bdeae1d,
      0x9b64c2b0, 0xec63f226, 0x756aa39c, 0x026d930a, 0x9c0906a9, 0xeb0e363f, 0x72076785, 0x05005713,
      0x95bf4a82, 0xe2b87a14, 0x7bb12bae, 0x0cb61b38, 0x92d28e9b, 0xe5d5be0d, 0x7cdcefb7, 0x0bdbdf21,
      0x86d3d2d4, 0xf1d4e242, 0x68ddb3f8, 0x1fda836e, 0x81be16cd, 0xf6b9265b, 0x6fb077e1, 0x18b74777,
      0x88085ae6, 0xff0f6a70, 0x66063bca, 0x11010b5c, 0x8f659eff, 0xf862ae69, 0x616bffd3, 0x166ccf45,
      0xa00ae278, 0xd70dd2ee, 0x4e048354, 0x3903b3c2, 0xa7672661, 0xd06016f7, 0x4969474d, 0x3e6e77db,
      0xaed16a4a, 0xd9d65adc, 0x40df0b66, 0x37d83bf0, 0xa9bcae53, 0xdebb9ec5, 0x47b2cf7f, 0x30b5ffe9,
      0xbdbdf21c, 0xcabac28a, 0x53b39330, 0x24b4a3a6, 0xbad03605, 0xcdd70693, 0x54de5729, 0x23d967bf,
      0xb3667a2e, 0xc4614ab8, 0x5d681b02, 0x2a6f2b94, 0xb40bbe37, 0xc30c8ea1, 0x5a05df1b, 0x2d02ef8d]"

definition DO_CRC :: "u32 \<Rightarrow> u8 \<Rightarrow> u32" where
  "DO_CRC crc x = crc_table ! unat ((crc XOR ucast x) AND 255) XOR drop_bit 8 crc"

text \<open>The three loops: up to a word boundary, whole words, and what is left.\<close>

fun crc_align :: "u32 \<Rightarrow> addr \<Rightarrow> u8 list \<Rightarrow> u32 \<times> u8 list" where
  "crc_align crc p [] = (crc, [])"
| "crc_align crc p (b # bs) =
     (let crc = DO_CRC crc b; p = p + 1
      in if bs \<noteq> [] \<and> p AND 3 \<noteq> 0 then crc_align crc p bs else (crc, bs))"

fun crc_words :: "u32 \<Rightarrow> u8 list \<Rightarrow> u32 \<times> u8 list" where
  "crc_words crc (a # b # c # d # bs) =
     (let crc = crc XOR le32_of [a, b, c, d]
      in crc_words (DO_CRC (DO_CRC (DO_CRC (DO_CRC crc 0) 0) 0) 0) bs)"
| "crc_words crc bs = (crc, bs)"

definition crc32_no_comp :: "u32 \<Rightarrow> addr \<Rightarrow> u8 list \<Rightarrow> u32" where
  "crc32_no_comp crc p bs =
     (let (crc, bs) = (if p AND 3 \<noteq> 0 \<and> bs \<noteq> [] then crc_align crc p bs else (crc, bs));
          (crc, bs) = crc_words crc bs
      in foldl DO_CRC crc bs)"

definition crc32 :: "u32 \<Rightarrow> addr \<Rightarrow> u8 list \<Rightarrow> u32" where
  "crc32 crc p bs = crc32_no_comp (crc XOR 0xffffffff) p bs XOR 0xffffffff"

section \<open>The table\<close>

lemma crc_poly_value: "crc_poly = 0xedb88320"
  by (simp add: crc_poly_def)

text \<open>The shift register on integers, where numerals compute.\<close>

definition crc_ishift :: "int \<Rightarrow> int" where
  "crc_ishift k = (if k mod 2 = 1 then 0xedb88320 XOR (k div 2) else k div 2)"

lemma crc_ishift_numeral [simp]:
  "crc_ishift 0 = 0" "crc_ishift 1 = 0xedb88320" "crc_ishift (numeral (num.Bit0 k)) = numeral k"
  "crc_ishift (numeral (num.Bit1 k)) = 0xedb88320 XOR numeral k"
  by (simp_all add: crc_ishift_def)

fun table_from :: "int \<Rightarrow> u32 list \<Rightarrow> bool" where
  "table_from k [] = True"
| "table_from k (x # xs) \<longleftrightarrow>
     word_of_int (crc_ishift (crc_ishift (crc_ishift (crc_ishift (crc_ishift (crc_ishift (crc_ishift (crc_ishift k)))))))) = x
     \<and> table_from (k + 1) xs"

lemma crc_table_from: "table_from 0 crc_table"
  by (simp add: crc_table_def)

lemma and_1_bit: "(c :: u32) AND 1 \<noteq> 0 \<longleftrightarrow> bit c 0"
  by (simp add: and_one_eq mod_2_eq_odd bit_0)

lemma uint_crc_shift: "uint (crc_shift c) = crc_ishift (uint c)"
proof -
  have "c AND 1 \<noteq> 0 \<longleftrightarrow> uint c mod 2 = 1"
    using bit_uint_iff [of c 0] by (simp add: and_1_bit bit_0 odd_iff_mod_2_eq_one)
  moreover have "uint (drop_bit 1 c) = uint c div 2"
    by (simp add: drop_bit_Suc uint_div_distrib)
  ultimately show ?thesis
    by (simp add: crc_shift_def crc_ishift_def crc_poly_value unsigned_xor_eq)
qed

lemma table_from_nth:
  "table_from k xs \<Longrightarrow> i < length xs \<Longrightarrow> xs ! i = word_of_int ((crc_ishift ^^ 8) (k + int i))"
proof (induction k xs arbitrary: i rule: table_from.induct)
  case (2 k x xs)
  then show ?case by (cases i) (auto simp: numeral_eq_Suc algebra_simps)
qed simp

lemma length_crc_table [simp]: "length crc_table = 256"
  by (simp add: crc_table_def)

lemma crc_table_nth: "i < 256 \<Longrightarrow> crc_table ! i = (crc_shift ^^ 8) (of_nat i)"
proof -
  assume i: "i < 256"
  have pow: "uint ((crc_shift ^^ n) c) = (crc_ishift ^^ n) (uint c)" for n c
    by (induction n) (simp_all add: uint_crc_shift)
  have "crc_table ! i = word_of_int ((crc_ishift ^^ 8) (int i))"
    using table_from_nth [OF crc_table_from, of i] i by simp
  also have "\<dots> = word_of_int (uint ((crc_shift ^^ 8) (of_nat i)))"
    using i unfolding pow by (simp add: unsigned_of_nat take_bit_nat_eq_self)
  finally show ?thesis by simp
qed

lemma crc_table_made: "crc_table = make_crc_table"
  by (rule nth_equalityI) (simp_all add: make_crc_table_def crc_table_nth)

section \<open>Bytes and words by the shift register\<close>

lemma bit_crc_shift: "bit (crc_shift c) n \<longleftrightarrow> (bit c 0 \<and> bit crc_poly n) \<noteq> bit c (Suc n)"
  by (auto simp: crc_shift_def and_1_bit bit_simps)

lemma crc_shift_linear: "crc_shift (a XOR b) = crc_shift a XOR crc_shift b"
  by (rule bit_eqI) (auto simp: bit_crc_shift bit_simps)

lemma crc_shifts_linear: "(crc_shift ^^ n) (a XOR b) = (crc_shift ^^ n) a XOR (crc_shift ^^ n) b"
  by (induction n) (simp_all add: crc_shift_linear)

lemma crc_shifts_high: "(\<And>i. i < n \<Longrightarrow> \<not> bit c i) \<Longrightarrow> (crc_shift ^^ n) c = drop_bit n c"
proof (induction n)
  case (Suc n)
  then show ?case by (auto intro!: bit_eqI simp: bit_crc_shift bit_simps)
qed simp

definition crc_byte :: "u32 \<Rightarrow> u32" where
  "crc_byte c = (crc_shift ^^ 8) c"

lemma crc_byte_linear: "crc_byte (a XOR b) = crc_byte a XOR crc_byte b"
  by (simp add: crc_byte_def crc_shifts_linear)

lemma bit_255: "bit (255 :: u32) n \<longleftrightarrow> n < 8"
proof -
  have "(mask 8 :: u32) = 255" by (simp add: mask_eq_exp_minus_1)
  then show ?thesis using bit_mask_iff [of 8 n, where 'a = u32] by (auto simp: min_def)
qed

lemma DO_CRC_byte: "DO_CRC crc x = crc_byte (crc XOR ucast x)"
proof -
  let ?c = "crc XOR ucast x"
  have "unat (?c AND 255) < 256"
  proof -
    have "?c AND 255 \<le> 255" by (rule word_and_le1)
    then show ?thesis by (simp add: word_le_nat_alt)
  qed
  then have low: "crc_table ! unat (?c AND 255) = crc_byte (?c AND 255)"
    by (simp add: crc_table_nth crc_byte_def)
  have "?c = (?c AND 255) XOR (?c AND NOT 255)"
    by (rule bit_eqI) (auto simp: bit_simps)
  then have "crc_byte ?c = crc_byte (?c AND 255) XOR crc_byte (?c AND NOT 255)"
    using crc_byte_linear by metis
  moreover have "crc_byte (?c AND NOT 255) = drop_bit 8 crc"
  proof -
    have "crc_byte (?c AND NOT 255) = drop_bit 8 (?c AND NOT 255)"
      unfolding crc_byte_def by (rule crc_shifts_high) (simp only: bit_and_iff bit_not_iff bit_255, simp)
    also have "\<dots> = drop_bit 8 crc"
      by (rule bit_eqI, simp only: bit_drop_bit_eq bit_and_iff bit_not_iff bit_255 o_apply)
        (auto simp: bit_simps dest: bit_imp_le_length)
    finally show ?thesis .
  qed
  ultimately show ?thesis
    by (simp add: DO_CRC_def low)
qed

text \<open>The bytes of a word in the order of memory, and what eating them does.\<close>

primrec lew :: "u8 list \<Rightarrow> u32" where
  "lew [] = 0"
| "lew (x # xs) = ucast x XOR push_bit 8 (lew xs)"

lemma bit_lew: "bit (lew xs) i \<Longrightarrow> i < 8 * length xs"
proof (induction xs arbitrary: i)
  case (Cons x xs)
  then have "bit x i \<or> 8 \<le> i \<and> bit (lew xs) (i - 8)" by (auto simp: bit_simps)
  then show ?case using Cons.IH [of "i - 8"] bit_imp_le_length [of x i] by auto
qed simp

lemma lew_le32: "lew [a, b, c, d] = le32_of [a, b, c, d]"
  by (rule bit_eqI) (auto simp: le32_of_def bit_simps dest: bit_imp_le_length)

lemma crc_byte_push: "length xs < 4 \<Longrightarrow> crc_byte (push_bit 8 (lew xs)) = lew xs"
proof -
  assume len: "length xs < 4"
  have "crc_byte (push_bit 8 (lew xs)) = drop_bit 8 (push_bit 8 (lew xs))"
    unfolding crc_byte_def by (rule crc_shifts_high) (auto simp: bit_simps)
  also have "\<dots> = lew xs"
    by (rule bit_eqI) (use len in \<open>auto simp: bit_simps dest: bit_lew\<close>)
  finally show ?thesis .
qed

lemma DO_CRC_lew: "length xs \<le> 4 \<Longrightarrow> foldl DO_CRC c xs = (crc_byte ^^ length xs) (c XOR lew xs)"
proof (induction xs arbitrary: c)
  case (Cons x xs)
  have "crc_byte (c XOR lew (x # xs)) = DO_CRC c x XOR lew xs"
    using Cons.prems crc_byte_push [of xs] crc_byte_linear [of "c XOR ucast x" "push_bit 8 (lew xs)"]
    by (simp add: DO_CRC_byte xor.assoc)
  then show ?case
    using Cons.IH [of "DO_CRC c x"] Cons.prems by (simp only: foldl_Cons length_Cons funpow_Suc_right o_apply)
qed simp

lemma crc_words_fold: "crc_words c bs = (c', r) \<Longrightarrow> foldl DO_CRC c' r = foldl DO_CRC c bs"
proof (induction c bs rule: crc_words.induct)
  case (1 c x y z w bs)
  have "DO_CRC (DO_CRC (DO_CRC (DO_CRC e 0) 0) 0) 0 = (crc_byte ^^ 4) e" for e
    by (simp add: DO_CRC_byte numeral_eq_Suc)
  then have "DO_CRC (DO_CRC (DO_CRC (DO_CRC (c XOR le32_of [x, y, z, w]) 0) 0) 0) 0 = foldl DO_CRC c [x, y, z, w]"
    using DO_CRC_lew [of "[x, y, z, w]" c] unfolding lew_le32 by (simp add: numeral_eq_Suc)
  then show ?case using 1 by (simp add: Let_def)
qed simp_all

lemma crc_align_fold: "crc_align c p bs = (c', r) \<Longrightarrow> foldl DO_CRC c' r = foldl DO_CRC c bs"
  by (induction c p bs rule: crc_align.induct) (auto simp: Let_def split: if_splits)

lemma crc32_no_comp_fold: "crc32_no_comp c p bs = foldl DO_CRC c bs"
  by (auto simp: crc32_no_comp_def crc_words_fold crc_align_fold split: prod.splits)

lemma crc32_fold: "crc32 c p bs = NOT (foldl DO_CRC (NOT c) bs)"
proof -
  have "(0xffffffff :: u32) = - 1" by simp
  then have "x XOR 0xffffffff = NOT x" for x :: u32
    by (simp only: bit.xor_one_right)
  then show ?thesis by (simp add: crc32_def crc32_no_comp_fold)
qed

section \<open>Division by the polynomial\<close>

text \<open>One bit of the message enters the register; bytes are sent lowest bit first.\<close>

definition crc_bit :: "u32 \<Rightarrow> bool \<Rightarrow> u32" where
  "crc_bit c b = (if odd c \<noteq> b then crc_poly XOR drop_bit 1 c else drop_bit 1 c)"

definition byte_bits :: "u8 \<Rightarrow> bool list" where
  "byte_bits x = map (bit x) [0..<8]"

lemma crc_bit_shift: "crc_bit c b = crc_shift (c XOR of_bool b)"
proof (cases b)
  case True
  have "bit (c XOR 1) (Suc n) = bit c (Suc n)" "bit (c XOR 1) 0 = even c" for n
    by (simp_all add: bit_simps bit_1_iff, simp add: bit_0)
  with True show ?thesis by (intro bit_eqI) (auto simp: crc_bit_def bit_crc_shift bit_simps)
next
  case False
  then show ?thesis by (simp add: crc_bit_def crc_shift_def and_1_bit bit_0)
qed

lemma crc_bits_shift: "n \<le> 32 \<Longrightarrow> foldl crc_bit c (map (bit x) [0..<n]) = (crc_shift ^^ n) (c XOR take_bit n x)"
proof (induction n)
  case (Suc n)
  have x: "take_bit (Suc n) x = take_bit n x XOR push_bit n (of_bool (bit x n))"
    by (rule bit_eqI) (auto simp: bit_simps less_Suc_eq)
  have "(crc_shift ^^ n) (push_bit n (of_bool (bit x n))) = drop_bit n (push_bit n (of_bool (bit x n)))"
    by (rule crc_shifts_high) (auto simp: bit_simps)
  also have "\<dots> = of_bool (bit x n)"
    using Suc.prems by (intro bit_eqI) (auto simp: bit_simps)
  finally show ?case
    using Suc unfolding x xor.assoc [symmetric] by (simp add: crc_bit_shift crc_shifts_linear)
qed simp

lemma crc_byte_bits: "foldl crc_bit c (byte_bits x) = DO_CRC c x"
proof -
  have "byte_bits x = map (bit (ucast x :: u32)) [0..<8]"
    unfolding byte_bits_def by (rule map_cong) (simp_all add: bit_simps)
  moreover have "take_bit 8 (ucast x :: u32) = ucast x"
    by (rule bit_eqI) (auto simp: bit_simps dest: bit_imp_le_length)
  ultimately show ?thesis
    using crc_bits_shift [of 8 c "ucast x"] by (simp add: DO_CRC_byte crc_byte_def)
qed

text \<open>
  C32: The checksum is the remainder of the division of the message by the polynomial, one bit at a
  time, with the register complemented before and after: the table, the words and the alignment of
  the buffer make no difference.
\<close>

theorem crc32_division: "crc32 c p bs = NOT (foldl crc_bit (NOT c) (concat (map byte_bits bs)))"
proof -
  have "foldl crc_bit c (concat (map byte_bits bs)) = foldl DO_CRC c bs" for c
    by (induction bs arbitrary: c) (simp_all add: crc_byte_bits)
  then show ?thesis by (simp add: crc32_fold)
qed

section \<open>Detected errors\<close>

lemma xor_zero_eq: "a XOR b = 0 \<Longrightarrow> a = (b :: u32)"
  by (auto simp: bit_eq_iff bit_xor_iff)

lemma xor_cancel: "a XOR c = b XOR c \<longleftrightarrow> a = (b :: u32)" "c XOR a = c XOR b \<longleftrightarrow> a = (b :: u32)"
  by (auto simp: bit_eq_iff bit_xor_iff)

lemma crc_shift_inj: "crc_shift a = crc_shift b \<Longrightarrow> a = b"
proof -
  assume eq: "crc_shift a = crc_shift b"
  have poly: "bit crc_poly 31" by (simp add: crc_poly_value)
  have z: "c = 0" if "crc_shift c = 0" for c
  proof (rule bit_eqI)
    fix n
    have b: "(bit c 0 \<and> bit crc_poly i) = bit c (Suc i)" for i
      using that bit_crc_shift [of c i] by simp
    have "\<not> bit c 0" using b [of 31] poly by (auto dest: bit_imp_le_length)
    then show "bit c n = bit 0 n" using b by (cases n) auto
  qed
  have "a XOR b = 0" using z [of "a XOR b"] eq by (simp add: crc_shift_linear)
  then show ?thesis by (rule xor_zero_eq)
qed

lemma crc_byte_inj: "crc_byte a = crc_byte b \<Longrightarrow> a = b"
proof -
  have "(crc_shift ^^ n) a = (crc_shift ^^ n) b \<Longrightarrow> a = b" for n
    by (induction n) (auto dest: crc_shift_inj)
  then show "crc_byte a = crc_byte b \<Longrightarrow> a = b" by (simp add: crc_byte_def)
qed

lemma DO_CRC_inj: "foldl DO_CRC a bs = foldl DO_CRC b bs \<Longrightarrow> a = b"
proof (induction bs arbitrary: a b)
  case (Cons x bs)
  then have "DO_CRC a x = DO_CRC b x" by simp
  then have "a XOR ucast x = b XOR ucast x" unfolding DO_CRC_byte by (rule crc_byte_inj)
  then show ?case by (simp add: xor_cancel)
qed simp

lemma lew_inj: "length xs = length ys \<Longrightarrow> length xs \<le> 4 \<Longrightarrow> lew xs = lew ys \<Longrightarrow> xs = ys"
proof (induction xs ys rule: list_induct2)
  case (Cons x xs y ys)
  have b: "bit (lew (x # xs)) n = bit (lew (y # ys)) n" for n using Cons.prems by simp
  have "bit x n = bit y n" if "n < 8" for n
    using b [of n] that by (simp add: bit_simps)
  then have "x = y" by (intro bit_eqI) auto
  moreover have "lew xs = lew ys"
  proof (rule bit_eqI)
    fix n
    show "bit (lew xs) n = bit (lew ys) n"
    proof (cases "n < 24")
      case True
      have "\<not> bit x (n + 8)" "\<not> bit y (n + 8)" by (auto dest: bit_imp_le_length)
      then show ?thesis using b [of "n + 8"] True by (simp add: bit_simps)
    next
      case False
      then show ?thesis using bit_lew [of xs n] bit_lew [of ys n] Cons by auto
    qed
  qed
  ultimately show ?case using Cons by simp
qed simp

text \<open>
  C33: Two messages that differ only within four consecutive bytes have different checksums.
\<close>

theorem crc32_detects_burst:
  assumes "length x = length y" "length x \<le> 4" "x \<noteq> y"
  shows "crc32 c p (pre @ x @ post) \<noteq> crc32 c q (pre @ y @ post)"
proof
  assume "crc32 c p (pre @ x @ post) = crc32 c q (pre @ y @ post)"
  then have "foldl DO_CRC (foldl DO_CRC (NOT c) pre) x = foldl DO_CRC (foldl DO_CRC (NOT c) pre) y"
    by (auto simp: crc32_fold dest: DO_CRC_inj)
  then have "(crc_byte ^^ length y) (foldl DO_CRC (NOT c) pre XOR lew x) = (crc_byte ^^ length y) (foldl DO_CRC (NOT c) pre XOR lew y)"
    using assms(1,2) by (simp add: DO_CRC_lew)
  moreover have "(crc_byte ^^ n) a = (crc_byte ^^ n) b \<Longrightarrow> a = b" for n a b
    by (induction n) (auto dest: crc_byte_inj)
  ultimately have "foldl DO_CRC (NOT c) pre XOR lew x = foldl DO_CRC (NOT c) pre XOR lew y" by blast
  then have "lew x = lew y" by (simp add: xor_cancel)
  then show False using lew_inj assms by blast
qed

theorem crc32_detects_burst_witness: "crc32 0 0 [1, 2, 3] \<noteq> crc32 0 1 [1, 7, 3]"
  using crc32_detects_burst [of "[2]" "[7]" 0 0 "[1]" "[3]" 1] by simp

end
