(* ===== verification/Block_Device.thy ===== *)
theory Block_Device
  imports UB_Prelude
begin

text \<open>
  The interface of a block device (\<open>struct blk_desc\<close> of \<^verbatim>\<open>include/blk.h\<close>): reads and writes of
  runs of blocks that return the number of blocks transferred.

  \<open>blocks s\<close> is the content of the device, a map from block numbers to blocks. The operations
  return \<open>None\<close> when the driver never comes back.
\<close>

section \<open>Runs of blocks\<close>

text \<open>The content after the data \<open>bs\<close> has been put from block \<open>start\<close> on, and the bytes of a run.\<close>

definition put_blocks :: "nat \<Rightarrow> (nat \<Rightarrow> u8 list) \<Rightarrow> nat \<Rightarrow> nat \<Rightarrow> u8 list \<Rightarrow> nat \<Rightarrow> u8 list" where
  "put_blocks sz B start n bs =
     (\<lambda>b. if start \<le> b \<and> b < start + n then take sz (drop ((b - start) * sz) bs) else B b)"

definition get_blocks :: "(nat \<Rightarrow> u8 list) \<Rightarrow> nat \<Rightarrow> nat \<Rightarrow> u8 list" where
  "get_blocks B start n = concat (map B [start..<start + n])"

lemma get_blocks_0 [simp]: "get_blocks B start 0 = []"
  by (simp add: get_blocks_def)

lemma get_blocks_add: "get_blocks B start (n + k) = get_blocks B start n @ get_blocks B (start + n) k"
  using upt_add_eq_append [of start "start + n" k] by (simp add: get_blocks_def add.assoc)

lemma get_blocks_Suc: "get_blocks B start (Suc n) = get_blocks B start n @ B (start + n)"
  using get_blocks_add [of B start n 1] by (simp add: get_blocks_def)

lemma get_blocks_cong: "(\<And>b. start \<le> b \<Longrightarrow> b < start + n \<Longrightarrow> B b = C b) \<Longrightarrow> get_blocks B start n = get_blocks C start n"
  unfolding get_blocks_def by (rule arg_cong [where f = concat], rule map_cong) simp_all

lemma length_get_blocks: "(\<And>b. length (B b) = sz) \<Longrightarrow> length (get_blocks B start n) = n * sz"
  by (induction n) (simp_all add: get_blocks_Suc)

lemma chunk_end:
  assumes "start \<le> b" "b < start + n"
  shows "(b - start) * sz + sz \<le> n * (sz :: nat)"
proof -
  have "Suc (b - start) * sz \<le> n * sz"
    using assms by (intro mult_le_mono1) simp
  then show ?thesis by simp
qed

lemma take_drop_append1: "d + sz \<le> length bs \<Longrightarrow> take sz (drop d (bs @ cs)) = take sz (drop d bs)"
  by simp

lemma take_drop_take: "d + sz \<le> m \<Longrightarrow> take sz (drop d (take m bs)) = take sz (drop d bs)"
  by (simp add: drop_take)

lemma take_drop_chunks:
  assumes "length bs = n * sz"
  shows "concat (map (\<lambda>i. take sz (drop (i * sz) bs)) [0..<n]) = bs"
  using assms
proof (induction n arbitrary: bs)
  case (Suc n)
  have "concat (map (\<lambda>i. take sz (drop (i * sz) (take (n * sz) bs))) [0..<n]) = take (n * sz) bs"
    by (rule Suc.IH) (use Suc.prems in simp)
  moreover have "take sz (drop (i * sz) (take (n * sz) bs)) = take sz (drop (i * sz) bs)" if "i < n" for i
    by (rule take_drop_take) (use chunk_end [of 0 i n sz] that in simp)
  ultimately have "concat (map (\<lambda>i. take sz (drop (i * sz) bs)) [0..<n]) = take (n * sz) bs"
    by (metis (no_types, lifting) atLeastLessThan_iff map_cong set_upt)
  moreover have "take sz (drop (n * sz) bs) = drop (n * sz) bs"
    using Suc.prems by simp
  ultimately show ?case by simp
qed simp

lemma get_put_blocks:
  assumes "length bs = n * sz"
  shows "get_blocks (put_blocks sz B start n bs) start n = bs"
proof -
  have "map (put_blocks sz B start n bs) [start..<start + n] = map (\<lambda>i. take sz (drop (i * sz) bs)) [0..<n]"
    by (rule nth_equalityI) (simp_all add: put_blocks_def)
  then show ?thesis
    using take_drop_chunks [OF assms] by (simp add: get_blocks_def)
qed

lemma put_blocks_other: "\<not> (start \<le> b \<and> b < start + n) \<Longrightarrow> put_blocks sz B start n bs b = B b"
  unfolding put_blocks_def by (rule if_not_P)

lemma length_put_blocks:
  assumes "\<And>b. length (B b) = sz" "n * sz \<le> length bs"
  shows "length (put_blocks sz B start n bs b) = sz"
proof (cases "start \<le> b \<and> b < start + n")
  case True
  then have "(b - start) * sz + sz \<le> n * sz"
    by (intro chunk_end) simp_all
  with True assms show ?thesis
    by (simp add: put_blocks_def)
qed (simp add: put_blocks_other assms)

lemma put_blocks_take: "put_blocks sz B start n (take (n * sz) bs) = put_blocks sz B start n bs"
proof
  fix b
  show "put_blocks sz B start n (take (n * sz) bs) b = put_blocks sz B start n bs b"
  proof (cases "start \<le> b \<and> b < start + n")
    case True
    then have "take sz (drop ((b - start) * sz) (take (n * sz) bs)) = take sz (drop ((b - start) * sz) bs)"
      by (intro take_drop_take chunk_end) simp_all
    with True show ?thesis by (simp add: put_blocks_def)
  qed (simp add: put_blocks_other)
qed

lemma put_blocks_append:
  assumes "length bs = n * sz"
  shows "put_blocks sz (put_blocks sz B start n bs) (start + n) k cs = put_blocks sz B start (n + k) (bs @ cs)"
proof
  fix b
  consider "start \<le> b" "b < start + n" | "start + n \<le> b" | "b < start"
    by linarith
  then show "put_blocks sz (put_blocks sz B start n bs) (start + n) k cs b = put_blocks sz B start (n + k) (bs @ cs) b"
  proof cases
    case 1
    then have "put_blocks sz B start (n + k) (bs @ cs) b = take sz (drop ((b - start) * sz) (bs @ cs))"
      by (simp add: put_blocks_def)
    also have "\<dots> = take sz (drop ((b - start) * sz) bs)"
      by (rule take_drop_append1) (use chunk_end [OF 1, of sz] assms in simp)
    also have "\<dots> = put_blocks sz B start n bs b"
      using 1 by (simp add: put_blocks_def)
    finally show ?thesis
      using 1 by (simp add: put_blocks_other)
  next
    case 2
    then have le: "n \<le> b - start" by linarith
    then have "n * sz \<le> (b - start) * sz" by (rule mult_le_mono1)
    then have "drop ((b - start) * sz) (bs @ cs) = drop ((b - start) * sz - n * sz) cs"
      by (simp add: assms)
    also have "(b - start) * sz - n * sz = (b - (start + n)) * sz"
      by (simp only: diff_mult_distrib [symmetric] diff_diff_left)
    finally have *: "drop ((b - start) * sz) (bs @ cs) = drop ((b - (start + n)) * sz) cs" .
    have "put_blocks sz B start n bs b = B b"
      using 2 by (intro put_blocks_other) simp
    moreover have "start \<le> b \<and> b < start + (n + k) \<longleftrightarrow> start + n \<le> b \<and> b < start + n + k"
      using 2 by linarith
    ultimately show ?thesis
      unfolding put_blocks_def [of sz _ "start + n"] put_blocks_def [of sz B start "n + k"] by (simp only: *)
  next
    case 3
    then show ?thesis by (simp add: put_blocks_other)
  qed
qed

lemma put_blocks_0 [simp]: "put_blocks sz B start 0 bs = B"
  by (rule ext) (rule put_blocks_other, simp)

section \<open>The interface\<close>

text \<open>
  \<open>same_device\<close>: an operation keeps the geometry. A transfer moves all of its blocks or
  reports none; a write that fails may have changed any of its blocks but no other.
\<close>

locale block_device =
  fixes inv :: "'s \<Rightarrow> bool"
    and bsize :: "'s \<Rightarrow> nat"
    and nblks :: "'s \<Rightarrow> nat"
    and blocks :: "'s \<Rightarrow> nat \<Rightarrow> u8 list"
    and bread :: "lbaint \<Rightarrow> lbaint \<Rightarrow> 's \<Rightarrow> (ulong \<times> u8 list \<times> 's) option"
    and bwrite :: "lbaint \<Rightarrow> lbaint \<Rightarrow> u8 list \<Rightarrow> 's \<Rightarrow> (ulong \<times> 's) option"
  assumes block_length: "inv s \<Longrightarrow> length (blocks s b) = bsize s"
    and bread_result: "\<lbrakk>inv s; 0 < unat n; unat start + unat n \<le> nblks s\<rbrakk> \<Longrightarrow>
      \<exists>r bs s'. bread start n s = Some (r, bs, s') \<and> inv s' \<and> bsize s' = bsize s \<and> nblks s' = nblks s
        \<and> blocks s' = blocks s \<and> (r = n \<or> r = 0)
        \<and> (r = n \<longrightarrow> bs = get_blocks (blocks s) (unat start) (unat n))"
    and bwrite_result: "\<lbrakk>inv s; unat start + unat n \<le> nblks s; length src = unat n * bsize s\<rbrakk> \<Longrightarrow>
      \<exists>r s'. bwrite start n src s = Some (r, s') \<and> inv s' \<and> bsize s' = bsize s \<and> nblks s' = nblks s
        \<and> (r = n \<or> r = 0)
        \<and> (r = n \<longrightarrow> blocks s' = put_blocks (bsize s) (blocks s) (unat start) (unat n) src)
        \<and> (\<forall>b. \<not> (unat start \<le> b \<and> b < unat start + unat n) \<longrightarrow> blocks s' b = blocks s b)"
begin

lemma bread_ok:
  assumes "inv s" "0 < unat n" "unat start + unat n \<le> nblks s" "bread start n s = Some (r, bs, s')"
  shows "inv s'" "bsize s' = bsize s" "nblks s' = nblks s" "blocks s' = blocks s" "r = n \<or> r = 0"
    and "r = n \<Longrightarrow> bs = get_blocks (blocks s) (unat start) (unat n)"
  using bread_result [OF assms(1-3)] assms(4) by auto

lemma bwrite_ok:
  assumes "inv s" "unat start + unat n \<le> nblks s" "length src = unat n * bsize s"
    "bwrite start n src s = Some (r, s')"
  shows "inv s'" "bsize s' = bsize s" "nblks s' = nblks s" "r = n \<or> r = 0"
    and "r = n \<Longrightarrow> blocks s' = put_blocks (bsize s) (blocks s) (unat start) (unat n) src"
    and "\<not> (unat start \<le> b \<and> b < unat start + unat n) \<Longrightarrow> blocks s' b = blocks s b"
  using bwrite_result [OF assms(1-3)] assms(4) by auto

text \<open>What a successful write stored, a successful read returns.\<close>

lemma bread_bwrite:
  assumes "inv s" "0 < unat n" "unat start + unat n \<le> nblks s" "length src = unat n * bsize s"
    and w: "bwrite start n src s = Some (n, s')"
    and r: "bread start n s' = Some (n, bs, s'')"
  shows "bs = src"
proof -
  note ok = bwrite_ok [OF assms(1,3,4) w]
  have "bs = get_blocks (blocks s') (unat start) (unat n)"
    by (rule bread_ok(6) [OF ok(1) assms(2) _ r]) (simp_all add: ok(3) assms(3))
  then show ?thesis
    using ok(5) get_put_blocks [OF assms(4)] by simp
qed

end

end
