(* ===== verification/Mmc.thy ===== *)
theory Mmc
  imports Block_Device
begin

text \<open>
  Block transfers of the MMC stack (\<^verbatim>\<open>drivers/mmc/mmc_write.c\<close> and the transfer part of
  \<^verbatim>\<open>drivers/mmc/mmc.c\<close>), for an initialised device in the configuration without driver model.

  The host controller and the card behind it are the parameter \<open>send_cmd\<close> of the record
  \<open>mmc\<close>, the pointer \<open>cfg->ops->send_cmd\<close> of the C code. \<open>card_ok\<close> states what the commands
  do to the memory cells of a card. The descriptor a transfer is given is the one of the device,
  so selecting its hardware partition again changes nothing and is left out.
\<close>

section \<open>The device\<close>

text \<open>The data of a command: the number of blocks, their size, and for a write the bytes.\<close>

datatype mmc_data =
    No_data
  | Data_read u32 u32
  | Data_write u32 u32 "u8 list"

record mmc_cmd =
  cmdidx :: u16
  resp_type :: u32
  cmdarg :: u32

text \<open>
  The card: its memory cells by hardware partition and block number, the partition that commands
  act on, the erase addresses it was given last, and whatever else its controller keeps.
\<close>

record 'c card =
  cells :: "nat \<Rightarrow> nat \<Rightarrow> u8 list"
  access_part :: nat
  erase_start :: u32
  erase_end :: u32
  ctl :: 'c

record 'c mmc =
  send_cmd :: "mmc_cmd \<Rightarrow> mmc_data \<Rightarrow> 'c card \<Rightarrow> int \<times> u32 \<times> u8 list \<times> 'c card"
  card :: "'c card"
  is_sd :: bool
  host_is_spi :: bool
  high_capacity :: bool
  ddr_mode :: bool
  rca :: u32
  read_bl_len :: u32
  write_bl_len :: u32
  erase_grp_size :: u32
  ssr_au :: u32
  b_max :: u32
  lba :: lbaint
  stale_arg :: u32

definition ETIMEDOUT :: int where "ETIMEDOUT = 110"
definition ECOMM :: int where "ECOMM = 70"

definition MMC_RSP_R1 :: u32 where "MMC_RSP_R1 = 0x15"
definition MMC_RSP_R1b :: u32 where "MMC_RSP_R1b = 0x1d"
definition MMC_CMD_STOP_TRANSMISSION :: u16 where "MMC_CMD_STOP_TRANSMISSION = 12"
definition MMC_CMD_SEND_STATUS :: u16 where "MMC_CMD_SEND_STATUS = 13"
definition MMC_CMD_SET_BLOCKLEN :: u16 where "MMC_CMD_SET_BLOCKLEN = 16"
definition MMC_CMD_READ_SINGLE_BLOCK :: u16 where "MMC_CMD_READ_SINGLE_BLOCK = 17"
definition MMC_CMD_READ_MULTIPLE_BLOCK :: u16 where "MMC_CMD_READ_MULTIPLE_BLOCK = 18"
definition MMC_CMD_WRITE_SINGLE_BLOCK :: u16 where "MMC_CMD_WRITE_SINGLE_BLOCK = 24"
definition MMC_CMD_WRITE_MULTIPLE_BLOCK :: u16 where "MMC_CMD_WRITE_MULTIPLE_BLOCK = 25"
definition SD_CMD_ERASE_WR_BLK_START :: u16 where "SD_CMD_ERASE_WR_BLK_START = 32"
definition SD_CMD_ERASE_WR_BLK_END :: u16 where "SD_CMD_ERASE_WR_BLK_END = 33"
definition MMC_CMD_ERASE_GROUP_START :: u16 where "MMC_CMD_ERASE_GROUP_START = 35"
definition MMC_CMD_ERASE_GROUP_END :: u16 where "MMC_CMD_ERASE_GROUP_END = 36"
definition MMC_CMD_ERASE :: u16 where "MMC_CMD_ERASE = 38"

lemmas mmc_cmd_defs =
  MMC_CMD_STOP_TRANSMISSION_def MMC_CMD_SEND_STATUS_def MMC_CMD_SET_BLOCKLEN_def
  MMC_CMD_READ_SINGLE_BLOCK_def MMC_CMD_READ_MULTIPLE_BLOCK_def
  MMC_CMD_WRITE_SINGLE_BLOCK_def MMC_CMD_WRITE_MULTIPLE_BLOCK_def
  SD_CMD_ERASE_WR_BLK_START_def SD_CMD_ERASE_WR_BLK_END_def
  MMC_CMD_ERASE_GROUP_START_def MMC_CMD_ERASE_GROUP_END_def MMC_CMD_ERASE_def

section \<open>Commands\<close>

definition mmc_send_cmd :: "mmc_cmd \<Rightarrow> mmc_data \<Rightarrow> 'c mmc \<Rightarrow> int \<times> u32 \<times> u8 list \<times> 'c mmc" where
  "mmc_send_cmd cmd d mmc =
     (let (ret, response, rd, c) = send_cmd mmc cmd d (card mmc) in (ret, response, rd, mmc\<lparr>card := c\<rparr>))"

text \<open>
  The polling loop of \<open>mmc_send_status\<close>. A card that is ready in the round in which the time
  runs out still counts as a timeout. An SPI host leaves the argument of the command unset; the
  value found there is the field \<open>stale_arg\<close>.
\<close>

function status_loop :: "mmc_cmd \<Rightarrow> int \<Rightarrow> int \<Rightarrow> 'c mmc \<Rightarrow> int \<times> 'c mmc" where
  "status_loop cmd retries timeout mmc =
     (case mmc_send_cmd cmd No_data mmc of (err, response, _, mmc') \<Rightarrow>
        if err = 0 \<and> response AND 0x100 \<noteq> 0 \<and> response AND 0x1e00 \<noteq> 0xe00 then
          (if timeout \<le> 0 then - ETIMEDOUT else 0, mmc')
        else if err = 0 \<and> response AND NOT 0x0206BF7F \<noteq> 0 then (- ECOMM, mmc')
        else if err \<noteq> 0 \<and> retries - 1 < 0 then (err, mmc')
        else if timeout \<le> 0 then (- ETIMEDOUT, mmc')
        else status_loop cmd (if err \<noteq> 0 then retries - 1 else retries) (timeout - 1) mmc')"
  by auto
termination
  by (relation "measure (\<lambda>(_, _, timeout, _). nat timeout)") auto

definition mmc_send_status :: "int \<Rightarrow> 'c mmc \<Rightarrow> int \<times> 'c mmc" where
  "mmc_send_status timeout mmc =
     status_loop \<lparr>cmdidx = MMC_CMD_SEND_STATUS, resp_type = MMC_RSP_R1,
                  cmdarg = (if host_is_spi mmc then stale_arg mmc else push_bit 16 (rca mmc))\<rparr> 5 timeout mmc"

primrec blocklen_loop :: "nat \<Rightarrow> mmc_cmd \<Rightarrow> 'c mmc \<Rightarrow> int \<times> 'c mmc" where
  "blocklen_loop 0 cmd mmc = (case mmc_send_cmd cmd No_data mmc of (err, _, _, mmc') \<Rightarrow> (err, mmc'))"
| "blocklen_loop (Suc retries) cmd mmc =
     (case mmc_send_cmd cmd No_data mmc of (err, _, _, mmc') \<Rightarrow>
        if err = 0 then (0, mmc') else blocklen_loop retries cmd mmc')"

definition mmc_set_blocklen :: "u32 \<Rightarrow> 'c mmc \<Rightarrow> int \<times> 'c mmc" where
  "mmc_set_blocklen len mmc =
     (if ddr_mode mmc then (0, mmc)
      else blocklen_loop 5 \<lparr>cmdidx = MMC_CMD_SET_BLOCKLEN, resp_type = MMC_RSP_R1, cmdarg = len\<rparr> mmc)"

definition stop_cmd :: mmc_cmd where
  "stop_cmd = \<lparr>cmdidx = MMC_CMD_STOP_TRANSMISSION, resp_type = MMC_RSP_R1b, cmdarg = 0\<rparr>"

section \<open>Reading\<close>

definition mmc_read_blocks :: "lbaint \<Rightarrow> lbaint \<Rightarrow> 'c mmc \<Rightarrow> ulong \<times> u8 list \<times> 'c mmc" where
  "mmc_read_blocks start blkcnt mmc =
     (let cmd = \<lparr>cmdidx = (if blkcnt > 1 then MMC_CMD_READ_MULTIPLE_BLOCK else MMC_CMD_READ_SINGLE_BLOCK),
                 resp_type = MMC_RSP_R1,
                 cmdarg = (if high_capacity mmc then start else start * read_bl_len mmc)\<rparr>;
          (err, _, dst, mmc) = mmc_send_cmd cmd (Data_read blkcnt (read_bl_len mmc)) mmc in
      if err \<noteq> 0 then (0, dst, mmc)
      else if blkcnt > 1 then
        (case mmc_send_cmd stop_cmd No_data mmc of (err, _, _, mmc) \<Rightarrow>
           if err \<noteq> 0 then (0, dst, mmc) else (blkcnt, dst, mmc))
      else (blkcnt, dst, mmc))"

text \<open>
  The transfer loop, with the bytes read so far. It does not end for a host with \<open>b_max\<close> 0.
\<close>

partial_function (option) read_loop ::
  "lbaint \<Rightarrow> lbaint \<Rightarrow> u8 list \<Rightarrow> 'c mmc \<Rightarrow> (bool \<times> u8 list \<times> 'c mmc) option" where
  "read_loop start blocks_todo dst mmc =
     (let cur = (if blocks_todo > b_max mmc then b_max mmc else blocks_todo) in
      case mmc_read_blocks start cur mmc of (n, bs, mmc') \<Rightarrow>
        if n \<noteq> cur then Some (False, dst @ bs, mmc')
        else if blocks_todo - cur > 0 then read_loop (start + cur) (blocks_todo - cur) (dst @ bs) mmc'
        else Some (True, dst @ bs, mmc'))"

declare read_loop.simps [code]

definition mmc_bread :: "lbaint \<Rightarrow> lbaint \<Rightarrow> 'c mmc \<Rightarrow> (ulong \<times> u8 list \<times> 'c mmc) option" where
  "mmc_bread start blkcnt mmc =
     (if blkcnt = 0 then Some (0, [], mmc)
      else if start + blkcnt > lba mmc then Some (0, [], mmc)
      else case mmc_set_blocklen (read_bl_len mmc) mmc of (err, mmc) \<Rightarrow>
        if err \<noteq> 0 then Some (0, [], mmc)
        else (case read_loop start blkcnt [] mmc of
                None \<Rightarrow> None
              | Some (ok, dst, mmc) \<Rightarrow> Some (if ok then blkcnt else 0, dst, mmc)))"

section \<open>Writing\<close>

definition mmc_write_blocks :: "lbaint \<Rightarrow> lbaint \<Rightarrow> u8 list \<Rightarrow> 'c mmc \<Rightarrow> ulong \<times> 'c mmc" where
  "mmc_write_blocks start blkcnt bs mmc =
     (if start + blkcnt > lba mmc then (0, mmc)
      else if blkcnt = 0 then (0, mmc)
      else
        let cmd = \<lparr>cmdidx = (if blkcnt = 1 then MMC_CMD_WRITE_SINGLE_BLOCK else MMC_CMD_WRITE_MULTIPLE_BLOCK),
                   resp_type = MMC_RSP_R1,
                   cmdarg = (if high_capacity mmc then start else start * write_bl_len mmc)\<rparr>;
            (err, _, _, mmc) = mmc_send_cmd cmd (Data_write blkcnt (write_bl_len mmc) bs) mmc in
        if err \<noteq> 0 then (0, mmc)
        else
          let (err, mmc) =
            (if \<not> host_is_spi mmc \<and> blkcnt > 1 then
               (case mmc_send_cmd stop_cmd No_data mmc of (err, _, _, mmc) \<Rightarrow> (err, mmc))
             else (0, mmc)) in
          if err \<noteq> 0 then (0, mmc)
          else (case mmc_send_status 1000 mmc of (err, mmc) \<Rightarrow> if err \<noteq> 0 then (0, mmc) else (blkcnt, mmc)))"

partial_function (option) write_loop ::
  "lbaint \<Rightarrow> lbaint \<Rightarrow> u8 list \<Rightarrow> 'c mmc \<Rightarrow> (bool \<times> 'c mmc) option" where
  "write_loop start blocks_todo bs mmc =
     (let cur = (if blocks_todo > b_max mmc then b_max mmc else blocks_todo) in
      case mmc_write_blocks start cur bs mmc of (n, mmc') \<Rightarrow>
        if n \<noteq> cur then Some (False, mmc')
        else if blocks_todo - cur > 0 then
          write_loop (start + cur) (blocks_todo - cur) (drop (unat (cur * write_bl_len mmc)) bs) mmc'
        else Some (True, mmc'))"

declare write_loop.simps [code]

definition mmc_bwrite :: "lbaint \<Rightarrow> lbaint \<Rightarrow> u8 list \<Rightarrow> 'c mmc \<Rightarrow> (ulong \<times> 'c mmc) option" where
  "mmc_bwrite start blkcnt bs mmc =
     (case mmc_set_blocklen (write_bl_len mmc) mmc of (err, mmc) \<Rightarrow>
        if err \<noteq> 0 then Some (0, mmc)
        else (case write_loop start blkcnt bs mmc of
                None \<Rightarrow> None
              | Some (ok, mmc) \<Rightarrow> Some (if ok then blkcnt else 0, mmc)))"

section \<open>Erasing\<close>

definition mmc_erase_t :: "ulong \<Rightarrow> lbaint \<Rightarrow> 'c mmc \<Rightarrow> int \<times> 'c mmc" where
  "mmc_erase_t start blkcnt mmc =
     (let en = (if high_capacity mmc then start + blkcnt - 1 else (start + blkcnt - 1) * write_bl_len mmc);
          start = (if high_capacity mmc then start else start * write_bl_len mmc);
          start_cmd = (if is_sd mmc then SD_CMD_ERASE_WR_BLK_START else MMC_CMD_ERASE_GROUP_START);
          end_cmd = (if is_sd mmc then SD_CMD_ERASE_WR_BLK_END else MMC_CMD_ERASE_GROUP_END);
          (err, _, _, mmc) = mmc_send_cmd \<lparr>cmdidx = start_cmd, resp_type = MMC_RSP_R1, cmdarg = start\<rparr> No_data mmc in
      if err \<noteq> 0 then (err, mmc)
      else
        let (err, _, _, mmc) = mmc_send_cmd \<lparr>cmdidx = end_cmd, resp_type = MMC_RSP_R1, cmdarg = en\<rparr> No_data mmc in
        if err \<noteq> 0 then (err, mmc)
        else
          let (err, _, _, mmc) = mmc_send_cmd \<lparr>cmdidx = MMC_CMD_ERASE, resp_type = MMC_RSP_R1b, cmdarg = 0\<rparr> No_data mmc in
          (err, mmc))"

text \<open>
  The erase loop: one erase group, or one allocation unit of an SD card, at a time. The inner
  result is the number of blocks reported, 0 when the card does not get ready.
\<close>

partial_function (option) erase_loop ::
  "lbaint \<Rightarrow> lbaint \<Rightarrow> lbaint \<Rightarrow> 'c mmc \<Rightarrow> (ulong \<times> 'c mmc) option" where
  "erase_loop start blkcnt blk mmc =
     (if blk < blkcnt then
        let unit = (if is_sd mmc \<and> ssr_au mmc \<noteq> 0 then ssr_au mmc else erase_grp_size mmc);
            blk_r = (if blkcnt - blk > unit then unit else blkcnt - blk) in
        case mmc_erase_t (start + blk) blk_r mmc of (err, mmc) \<Rightarrow>
          if err \<noteq> 0 then Some (blk, mmc)
          else
            case mmc_send_status 1000 mmc of (err, mmc) \<Rightarrow>
              if err \<noteq> 0 then Some (0, mmc)
              else erase_loop start blkcnt (blk + blk_r) mmc
      else Some (blk, mmc))"

declare erase_loop.simps [code]

definition mmc_berase :: "lbaint \<Rightarrow> lbaint \<Rightarrow> 'c mmc \<Rightarrow> (ulong \<times> 'c mmc) option" where
  "mmc_berase start blkcnt mmc = erase_loop start blkcnt 0 mmc"

section \<open>What a card does\<close>

text \<open>
  The documented behaviour of the commands used here. \<open>dev_block\<close> is the block a command
  argument addresses: cards of standard capacity take byte addresses. A failed write may leave any
  of its own blocks changed. Erasing acts on whole erase groups; an SD card erases single blocks.
\<close>

definition dev_block :: "'c mmc \<Rightarrow> u32 \<Rightarrow> nat" where
  "dev_block mmc a = (if high_capacity mmc then unat a else unat a div unat (write_bl_len mmc))"

definition erase_unit :: "'c mmc \<Rightarrow> nat" where
  "erase_unit mmc = (if is_sd mmc then 1 else unat (erase_grp_size mmc))"

definition card_reads :: "'c mmc \<Rightarrow> bool" where
  "card_reads mmc \<longleftrightarrow> (\<forall>cmd n c err response rd c'.
     send_cmd mmc cmd (Data_read n (read_bl_len mmc)) c = (err, response, rd, c')
       \<longrightarrow> cmdidx cmd = (if n > 1 then MMC_CMD_READ_MULTIPLE_BLOCK else MMC_CMD_READ_SINGLE_BLOCK)
       \<longrightarrow> cells c' = cells c \<and> access_part c' = access_part c
         \<and> (err = 0 \<longrightarrow> rd = get_blocks (cells c (access_part c)) (dev_block mmc (cmdarg cmd)) (unat n)))"

definition card_writes :: "'c mmc \<Rightarrow> bool" where
  "card_writes mmc \<longleftrightarrow> (\<forall>cmd n bs c err response rd c'.
     send_cmd mmc cmd (Data_write n (write_bl_len mmc) bs) c = (err, response, rd, c')
       \<longrightarrow> cmdidx cmd = (if n > 1 then MMC_CMD_WRITE_MULTIPLE_BLOCK else MMC_CMD_WRITE_SINGLE_BLOCK)
       \<longrightarrow> (\<forall>p b. length (cells c p b) = unat (write_bl_len mmc)) \<longrightarrow> unat n * unat (write_bl_len mmc) \<le> length bs
       \<longrightarrow> access_part c' = access_part c
         \<and> (\<forall>p b. length (cells c' p b) = unat (write_bl_len mmc))
         \<and> (\<forall>p b. p \<noteq> access_part c \<or> b < dev_block mmc (cmdarg cmd) \<or> dev_block mmc (cmdarg cmd) + unat n \<le> b
              \<longrightarrow> cells c' p b = cells c p b)
         \<and> (err = 0 \<longrightarrow> cells c' (access_part c) =
              put_blocks (unat (write_bl_len mmc)) (cells c (access_part c)) (dev_block mmc (cmdarg cmd)) (unat n) bs))"

definition card_quiet :: "'c mmc \<Rightarrow> bool" where
  "card_quiet mmc \<longleftrightarrow> (\<forall>cmd c err response rd c'.
     send_cmd mmc cmd No_data c = (err, response, rd, c')
       \<longrightarrow> cmdidx cmd \<in> {MMC_CMD_STOP_TRANSMISSION, MMC_CMD_SEND_STATUS, MMC_CMD_SET_BLOCKLEN}
       \<longrightarrow> cells c' = cells c \<and> access_part c' = access_part c)"

definition card_erases :: "'c mmc \<Rightarrow> bool" where
  "card_erases mmc \<longleftrightarrow> (\<forall>cmd c err response rd c'.
     send_cmd mmc cmd No_data c = (err, response, rd, c') \<longrightarrow>
       (cmdidx cmd = (if is_sd mmc then SD_CMD_ERASE_WR_BLK_START else MMC_CMD_ERASE_GROUP_START)
          \<longrightarrow> cells c' = cells c \<and> access_part c' = access_part c \<and> (err = 0 \<longrightarrow> erase_start c' = cmdarg cmd))
     \<and> (cmdidx cmd = (if is_sd mmc then SD_CMD_ERASE_WR_BLK_END else MMC_CMD_ERASE_GROUP_END)
          \<longrightarrow> cells c' = cells c \<and> access_part c' = access_part c \<and> (err = 0 \<longrightarrow> erase_end c' = cmdarg cmd)
            \<and> erase_start c' = erase_start c)
     \<and> (cmdidx cmd = MMC_CMD_ERASE
          \<longrightarrow> access_part c' = access_part c \<and> (\<forall>p b. length (cells c' p b) = length (cells c p b))
            \<and> (\<forall>p b. p \<noteq> access_part c
                 \<or> b div erase_unit mmc < dev_block mmc (erase_start c) div erase_unit mmc
                 \<or> dev_block mmc (erase_end c) div erase_unit mmc < b div erase_unit mmc
                 \<longrightarrow> cells c' p b = cells c p b)))"

definition card_ok :: "'c mmc \<Rightarrow> bool" where
  "card_ok mmc \<longleftrightarrow> card_reads mmc \<and> card_writes mmc \<and> card_quiet mmc \<and> card_erases mmc"

text \<open>
  A usable device: the transfer limit of the host is positive and a transfer of that size has
  fewer than \<open>2 ^ 32\<close> bytes, byte addresses of a standard capacity card do not wrap, and cells
  have the block size.
\<close>

definition mmc_wf :: "'c mmc \<Rightarrow> bool" where
  "mmc_wf mmc \<longleftrightarrow> card_ok mmc \<and> 0 < unat (b_max mmc) \<and> 0 < unat (write_bl_len mmc)
     \<and> read_bl_len mmc = write_bl_len mmc
     \<and> unat (b_max mmc) * unat (write_bl_len mmc) < 2 ^ 32
     \<and> (high_capacity mmc \<or> unat (lba mmc) * unat (write_bl_len mmc) < 2 ^ 32)
     \<and> (\<forall>p b. length (cells (card mmc) p b) = unat (write_bl_len mmc))"

definition mmc_cells :: "'c mmc \<Rightarrow> nat \<Rightarrow> u8 list" where
  "mmc_cells mmc = cells (card mmc) (access_part (card mmc))"

text \<open>Steps that change only the card, and keep its geometry or all of its cells.\<close>

definition card_step :: "'c mmc \<Rightarrow> 'c mmc \<Rightarrow> bool" where
  "card_step mmc mmc' \<longleftrightarrow> (\<exists>c. mmc' = mmc\<lparr>card := c\<rparr> \<and> access_part c = access_part (card mmc)
     \<and> (\<forall>p b. length (cells c p b) = length (cells (card mmc) p b)))"

definition quiet_step :: "'c mmc \<Rightarrow> 'c mmc \<Rightarrow> bool" where
  "quiet_step mmc mmc' \<longleftrightarrow> (\<exists>c. mmc' = mmc\<lparr>card := c\<rparr> \<and> access_part c = access_part (card mmc)
     \<and> cells c = cells (card mmc))"

lemma card_step_fields:
  assumes "card_step mmc mmc'"
  shows "send_cmd mmc' = send_cmd mmc" "is_sd mmc' = is_sd mmc" "host_is_spi mmc' = host_is_spi mmc"
    "high_capacity mmc' = high_capacity mmc" "ddr_mode mmc' = ddr_mode mmc" "rca mmc' = rca mmc"
    "read_bl_len mmc' = read_bl_len mmc" "write_bl_len mmc' = write_bl_len mmc"
    "erase_grp_size mmc' = erase_grp_size mmc" "ssr_au mmc' = ssr_au mmc" "b_max mmc' = b_max mmc"
    "lba mmc' = lba mmc" "access_part (card mmc') = access_part (card mmc)"
    "length (cells (card mmc') p b) = length (cells (card mmc) p b)"
    "dev_block mmc' = dev_block mmc" "erase_unit mmc' = erase_unit mmc"
  using assms by (auto simp: card_step_def dev_block_def erase_unit_def fun_eq_iff)

lemma card_ok_fields:
  "send_cmd m' = send_cmd m \<Longrightarrow> is_sd m' = is_sd m \<Longrightarrow> read_bl_len m' = read_bl_len m
   \<Longrightarrow> write_bl_len m' = write_bl_len m \<Longrightarrow> dev_block m' = dev_block m \<Longrightarrow> erase_unit m' = erase_unit m
   \<Longrightarrow> card_ok m' = card_ok m"
  by (simp add: card_ok_def card_reads_def card_writes_def card_quiet_def card_erases_def)

lemma card_ok_step: "card_step m m' \<Longrightarrow> card_ok m' = card_ok m"
  by (rule card_ok_fields; rule card_step_fields, assumption)

lemma mmc_wf_step: "card_step mmc mmc' \<Longrightarrow> mmc_wf mmc' = mmc_wf mmc"
  using card_ok_step [of mmc mmc'] by (simp add: card_step_fields mmc_wf_def)

lemma card_step_refl [simp]: "card_step mmc mmc" "quiet_step mmc mmc"
  unfolding card_step_def quiet_step_def by (auto intro!: exI [of _ "card mmc"])

lemma card_step_trans: "card_step m1 m2 \<Longrightarrow> card_step m2 m3 \<Longrightarrow> card_step m1 m3"
  by (auto simp: card_step_def)

lemma quiet_step_trans: "quiet_step m1 m2 \<Longrightarrow> quiet_step m2 m3 \<Longrightarrow> quiet_step m1 m3"
  by (auto simp: quiet_step_def)

lemma quiet_card_step: "quiet_step m1 m2 \<Longrightarrow> card_step m1 m2"
  by (auto simp: card_step_def quiet_step_def)

lemma quiet_step_cells: "quiet_step m1 m2 \<Longrightarrow> cells (card m2) = cells (card m1)" 
    "quiet_step m1 m2 \<Longrightarrow> mmc_cells m2 = mmc_cells m1"
  by (auto simp: quiet_step_def mmc_cells_def)

section \<open>Transfers\<close>

lemma send_quiet:
  assumes "card_ok mmc" "cmdidx cmd \<in> {MMC_CMD_STOP_TRANSMISSION, MMC_CMD_SEND_STATUS, MMC_CMD_SET_BLOCKLEN}"
    and "mmc_send_cmd cmd No_data mmc = (err, response, rd, mmc')"
  shows "quiet_step mmc mmc'"
proof -
  obtain c' where c': "send_cmd mmc cmd No_data (card mmc) = (err, response, rd, c')" "mmc' = mmc\<lparr>card := c'\<rparr>"
    using assms(3) by (auto simp: mmc_send_cmd_def split: prod.splits)
  then have "cells c' = cells (card mmc)" "access_part c' = access_part (card mmc)"
    using assms(1,2) unfolding card_ok_def card_quiet_def by blast+
  with c'(2) show ?thesis
    unfolding quiet_step_def by blast
qed

lemma quiet_card_ok: "quiet_step m m' \<Longrightarrow> card_ok m' = card_ok m"
  by (rule card_ok_step) (rule quiet_card_step)

lemma status_loop_quiet:
  "card_ok mmc \<Longrightarrow> cmdidx cmd = MMC_CMD_SEND_STATUS \<Longrightarrow> status_loop cmd r t mmc = (err, mmc') \<Longrightarrow> quiet_step mmc mmc'"
proof (induction cmd r t mmc rule: status_loop.induct)
  case (1 cmd r t mmc)
  obtain e resp rd m1 where m1: "mmc_send_cmd cmd No_data mmc = (e, resp, rd, m1)"
    by (cases "mmc_send_cmd cmd No_data mmc") auto
  have q: "quiet_step mmc m1"
    by (rule send_quiet [OF "1.prems"(1) _ m1]) (simp add: "1.prems"(2))
  show ?case
  proof (cases "mmc' = m1")
    case False
    with "1.prems"(3) have conds: "\<not> (e = 0 \<and> resp AND 0x100 \<noteq> 0 \<and> resp AND 0x1e00 \<noteq> 0xe00)"
      "\<not> (e = 0 \<and> resp AND NOT 0x0206BF7F \<noteq> 0)" "\<not> (e \<noteq> 0 \<and> r - 1 < 0)" "\<not> t \<le> 0"
      and rec: "status_loop cmd (if e \<noteq> 0 then r - 1 else r) (t - 1) m1 = (err, mmc')"
      by (subst (asm) status_loop.simps, simp add: m1 split: if_splits)+
    have "quiet_step m1 mmc'"
      by (rule "1.IH" [OF m1 [symmetric] refl refl conds _ "1.prems"(2) rec])
        (use "1.prems"(1) quiet_card_ok [OF q] in simp)
    with q show ?thesis by (rule quiet_step_trans)
  qed (use q in simp)
qed

lemma mmc_send_status_quiet:
  "card_ok mmc \<Longrightarrow> mmc_send_status t mmc = (err, mmc') \<Longrightarrow> quiet_step mmc mmc'"
  unfolding mmc_send_status_def by (erule status_loop_quiet [rotated 2]) simp_all

lemma blocklen_loop_quiet:
  "card_ok mmc \<Longrightarrow> cmdidx cmd = MMC_CMD_SET_BLOCKLEN \<Longrightarrow> blocklen_loop n cmd mmc = (err, mmc') \<Longrightarrow> quiet_step mmc mmc'"
proof (induction n arbitrary: mmc)
  case 0
  then show ?case
    by (auto split: prod.splits intro: send_quiet)
next
  case (Suc n)
  obtain e resp rd m1 where m1: "mmc_send_cmd cmd No_data mmc = (e, resp, rd, m1)"
    by (cases "mmc_send_cmd cmd No_data mmc") auto
  have q: "quiet_step mmc m1"
    by (rule send_quiet [OF Suc.prems(1) _ m1]) (simp add: Suc.prems(2))
  show ?case
  proof (cases "e = 0")
    case False
    with Suc.prems m1 have "blocklen_loop n cmd m1 = (err, mmc')" by simp
    with Suc.IH [of m1] Suc.prems quiet_card_ok [OF q] q show ?thesis
      by (auto intro: quiet_step_trans)
  qed (use Suc.prems m1 q in simp)
qed

lemma mmc_set_blocklen_quiet:
  "card_ok mmc \<Longrightarrow> mmc_set_blocklen len mmc = (err, mmc') \<Longrightarrow> quiet_step mmc mmc'"
  by (auto simp: mmc_set_blocklen_def split: if_splits elim!: blocklen_loop_quiet [rotated 2])

text \<open>Block addresses of commands are the blocks asked for.\<close>

lemma dev_block_start:
  assumes "mmc_wf mmc" "unat start \<le> unat (lba mmc)"
  shows "dev_block mmc (if high_capacity mmc then start else start * write_bl_len mmc) = unat start"
proof (cases "high_capacity mmc")
  case False
  with assms have pos: "0 < unat (write_bl_len mmc)" and lt: "unat (lba mmc) * unat (write_bl_len mmc) < 2 ^ 32"
    by (auto simp: mmc_wf_def)
  have "unat start * unat (write_bl_len mmc) \<le> unat (lba mmc) * unat (write_bl_len mmc)"
    using assms(2) by (rule mult_le_mono1)
  then have "unat (start * write_bl_len mmc) = unat start * unat (write_bl_len mmc)"
    using lt by (intro u32_times) linarith
  with pos False show ?thesis
    by (simp add: dev_block_def)
qed (simp add: dev_block_def)

lemma mmc_read_blocks_result:
  assumes wf: "mmc_wf mmc" and range: "unat start + unat n \<le> unat (lba mmc)"
    and res: "mmc_read_blocks start n mmc = (r, bs, mmc')"
  shows "quiet_step mmc mmc' \<and> (r = n \<or> r = 0) \<and> (r = n \<and> n \<noteq> 0 \<longrightarrow> bs = get_blocks (mmc_cells mmc) (unat start) (unat n))"
proof -
  define cmd where "cmd = \<lparr>cmdidx = (if n > 1 then MMC_CMD_READ_MULTIPLE_BLOCK else MMC_CMD_READ_SINGLE_BLOCK),
    resp_type = MMC_RSP_R1, cmdarg = (if high_capacity mmc then start else start * read_bl_len mmc)\<rparr>"
  have ok: "card_ok mmc" and bl: "read_bl_len mmc = write_bl_len mmc"
    using wf by (simp_all add: mmc_wf_def)
  obtain e resp rd c1 where c1: "send_cmd mmc cmd (Data_read n (read_bl_len mmc)) (card mmc) = (e, resp, rd, c1)"
    by (cases "send_cmd mmc cmd (Data_read n (read_bl_len mmc)) (card mmc)") auto
  have m1: "mmc_send_cmd cmd (Data_read n (read_bl_len mmc)) mmc = (e, resp, rd, mmc\<lparr>card := c1\<rparr>)"
    by (simp add: mmc_send_cmd_def c1)
  have idx: "cmdidx cmd = (if n > 1 then MMC_CMD_READ_MULTIPLE_BLOCK else MMC_CMD_READ_SINGLE_BLOCK)"
    by (simp add: cmd_def)
  have arg: "dev_block mmc (cmdarg cmd) = unat start"
    using dev_block_start [OF wf add_leD1 [OF range]] by (simp add: cmd_def bl split: if_splits)
  have read: "cells c1 = cells (card mmc)" "access_part c1 = access_part (card mmc)"
      "e = 0 \<Longrightarrow> rd = get_blocks (mmc_cells mmc) (unat start) (unat n)"
    using ok c1 idx arg unfolding card_ok_def card_reads_def mmc_cells_def by metis+
  then have q1: "quiet_step mmc (mmc\<lparr>card := c1\<rparr>)"
    by (auto simp: quiet_step_def)
  note res' = res [unfolded mmc_read_blocks_def Let_def, folded cmd_def, unfolded m1 prod.case]
  show ?thesis
  proof (cases "e = 0 \<and> n > 1")
    case True
    obtain e2 resp2 rd2 m2 where m2: "mmc_send_cmd stop_cmd No_data (mmc\<lparr>card := c1\<rparr>) = (e2, resp2, rd2, m2)"
      by (cases "mmc_send_cmd stop_cmd No_data (mmc\<lparr>card := c1\<rparr>)") auto
    have "quiet_step (mmc\<lparr>card := c1\<rparr>) m2"
      by (rule send_quiet [OF _ _ m2]) (use ok quiet_card_ok [OF q1] in \<open>simp_all add: stop_cmd_def\<close>)
    then have "quiet_step mmc m2"
      by (rule quiet_step_trans [OF q1])
    with True res' m2 read(3) show ?thesis
      by (auto split: if_splits)
  next
    case False
    with res' q1 read(3) show ?thesis
      by (auto split: if_splits)
  qed
qed

text \<open>The transfer size of a round is positive while blocks remain, and within the range.\<close>

lemma round_size:
  assumes "0 < unat (bm :: u32)" "0 < unat todo"
  defines "cur \<equiv> if todo > bm then bm else todo"
  shows "0 < unat cur" "unat cur \<le> unat todo" "unat cur \<le> unat bm" "unat (todo - cur) = unat todo - unat cur"
proof -
  show "0 < unat cur" "unat cur \<le> unat todo" "unat cur \<le> unat bm"
    using assms by (auto simp: cur_def word_less_nat_alt)
  then show "unat (todo - cur) = unat todo - unat cur"
    by (intro u32_minus) simp
qed

lemma round_start:
  assumes "unat start + unat todo \<le> unat (lim :: u32)" "unat cur \<le> unat todo"
  shows "unat (start + cur :: u32) = unat start + unat cur"
  using assms unat_u32_less [of lim] by (intro u32_plus) linarith

lemma read_loop_result:
  assumes "mmc_wf mmc" "0 < unat todo" "unat start + unat todo \<le> unat (lba mmc)"
  shows "\<exists>ok bs mmc'. read_loop start todo dst mmc = Some (ok, bs, mmc') \<and> quiet_step mmc mmc'
    \<and> (ok \<longrightarrow> bs = dst @ get_blocks (mmc_cells mmc) (unat start) (unat todo))"
  using assms
proof (induction "unat todo" arbitrary: start todo dst mmc rule: less_induct)
  case less
  define cur where "cur = (if todo > b_max mmc then b_max mmc else todo)"
  have bm: "0 < unat (b_max mmc)" using less.prems(1) by (simp add: mmc_wf_def)
  note cur = round_size [OF bm less.prems(2), folded cur_def]
  obtain r bs m1 where r: "mmc_read_blocks start cur mmc = (r, bs, m1)"
    by (cases "mmc_read_blocks start cur mmc") auto
  have q: "quiet_step mmc m1" "r = cur \<and> cur \<noteq> 0 \<longrightarrow> bs = get_blocks (mmc_cells mmc) (unat start) (unat cur)"
    using mmc_read_blocks_result [OF less.prems(1) _ r] cur(2) less.prems(3) by auto
  have cur0: "cur \<noteq> 0" using cur(1) by auto
  have eq: "read_loop start todo dst mmc =
      (if r \<noteq> cur then Some (False, dst @ bs, m1)
       else if todo - cur > 0 then read_loop (start + cur) (todo - cur) (dst @ bs) m1
       else Some (True, dst @ bs, m1))"
    by (subst read_loop.simps) (simp add: cur_def [symmetric] r)
  show ?case
  proof (cases "r = cur \<and> todo - cur > 0")
    case True
    have st: "unat (start + cur) = unat start + unat cur"
      by (rule round_start [OF less.prems(3) cur(2)])
    have wf: "mmc_wf m1" "lba m1 = lba mmc" "mmc_cells m1 = mmc_cells mmc"
      using less.prems(1) mmc_wf_step [OF quiet_card_step [OF q(1)]] card_step_fields(12) [OF quiet_card_step [OF q(1)]]
        quiet_step_cells(2) [OF q(1)] by simp_all
    have "\<exists>ok bs' mmc'. read_loop (start + cur) (todo - cur) (dst @ bs) m1 = Some (ok, bs', mmc') \<and> quiet_step m1 mmc'
      \<and> (ok \<longrightarrow> bs' = (dst @ bs) @ get_blocks (mmc_cells m1) (unat (start + cur)) (unat (todo - cur)))"
    proof (rule less.hyps [OF _ wf(1)])
      show "unat (todo - cur) < unat todo" using cur less.prems(2) by linarith
      show "0 < unat (todo - cur)" using True by (simp add: word_less_nat_alt)
      show "unat (start + cur) + unat (todo - cur) \<le> unat (lba m1)"
        using st cur less.prems(3) by (simp add: wf(2))
    qed
    moreover have "get_blocks (mmc_cells mmc) (unat start) (unat todo) =
        bs @ get_blocks (mmc_cells m1) (unat (start + cur)) (unat (todo - cur))"
      using get_blocks_add [of "mmc_cells mmc" "unat start" "unat cur" "unat (todo - cur)"] q(2) True cur0 cur
      by (simp add: st wf(3))
    ultimately show ?thesis
      using eq True quiet_step_trans [OF q(1)] by auto
  next
    case False
    then have "r = cur \<Longrightarrow> todo = cur"
      by (metis right_minus_eq word_gt_0)
    with eq False q cur0 show ?thesis by auto
  qed
qed

lemma mmc_bread_result:
  assumes "mmc_wf mmc" "0 < unat n" "unat start + unat n \<le> unat (lba mmc)"
  shows "\<exists>r bs mmc'. mmc_bread start n mmc = Some (r, bs, mmc') \<and> quiet_step mmc mmc' \<and> (r = n \<or> r = 0)
    \<and> (r = n \<longrightarrow> bs = get_blocks (mmc_cells mmc) (unat start) (unat n))"
proof -
  obtain err m1 where m1: "mmc_set_blocklen (read_bl_len mmc) mmc = (err, m1)"
    by (cases "mmc_set_blocklen (read_bl_len mmc) mmc") auto
  have q: "quiet_step mmc m1"
    using mmc_set_blocklen_quiet [OF _ m1] assms(1) by (simp add: mmc_wf_def)
  have n: "n \<noteq> 0" using assms(2) by auto
  have "unat (start + n) = unat start + unat n"
    by (rule round_start [OF assms(3)]) simp
  then have le: "\<not> start + n > lba mmc"
    using assms(3) by (simp add: word_less_nat_alt)
  show ?thesis
  proof (cases "err = 0")
    case True
    have "mmc_wf m1" "lba m1 = lba mmc" "mmc_cells m1 = mmc_cells mmc"
      using assms(1) mmc_wf_step [OF quiet_card_step [OF q]] card_step_fields(12) [OF quiet_card_step [OF q]]
        quiet_step_cells(2) [OF q] by simp_all
    then obtain ok bs m2 where "read_loop start n [] m1 = Some (ok, bs, m2)" "quiet_step m1 m2"
        "ok \<longrightarrow> bs = get_blocks (mmc_cells mmc) (unat start) (unat n)"
      using read_loop_result [of m1 n start "[]"] assms by auto
    with True m1 n le q show ?thesis
      using quiet_step_trans [OF q] by (simp add: mmc_bread_def)
  qed (use m1 n le q in \<open>simp add: mmc_bread_def\<close>)
qed

text \<open>Writes: a step that leaves every cell outside a run of blocks as it was.\<close>

definition write_step :: "nat \<Rightarrow> nat \<Rightarrow> 'c mmc \<Rightarrow> 'c mmc \<Rightarrow> bool" where
  "write_step start n mmc mmc' \<longleftrightarrow> card_step mmc mmc'
     \<and> (\<forall>p b. p \<noteq> access_part (card mmc) \<or> b < start \<or> start + n \<le> b \<longrightarrow> cells (card mmc') p b = cells (card mmc) p b)"

lemma write_step_quiet: "quiet_step mmc mmc' \<Longrightarrow> write_step start n mmc mmc'"
  using quiet_step_cells(1) [of mmc mmc'] by (simp add: write_step_def quiet_card_step)

lemma write_step_trans:
  assumes "write_step s1 n1 m1 m2" "write_step s2 n2 m2 m3" "s \<le> s1" "s \<le> s2" "s1 + n1 \<le> s + n" "s2 + n2 \<le> s + n"
  shows "write_step s n m1 m3"
  using assms card_step_trans [of m1 m2 m3] card_step_fields(13) [of m1 m2]
  unfolding write_step_def by (smt (verit, best) order.trans order_less_le_trans)

lemma write_step_quiet_trans: "write_step s n m1 m2 \<Longrightarrow> quiet_step m2 m3 \<Longrightarrow> write_step s n m1 m3"
  by (rule write_step_trans [OF _ write_step_quiet [of m2 m3 s n]]) (assumption | rule order.refl)+

lemma mmc_write_blocks_result:
  assumes wf: "mmc_wf mmc" and range: "0 < unat n" "unat start + unat n \<le> unat (lba mmc)"
    and len: "unat n * unat (write_bl_len mmc) \<le> length bs"
    and res: "mmc_write_blocks start n bs mmc = (r, mmc')"
  shows "write_step (unat start) (unat n) mmc mmc' \<and> (r = n \<or> r = 0)
    \<and> (r = n \<longrightarrow> mmc_cells mmc' = put_blocks (unat (write_bl_len mmc)) (mmc_cells mmc) (unat start) (unat n) bs)"
proof -
  define cmd where "cmd = \<lparr>cmdidx = (if n = 1 then MMC_CMD_WRITE_SINGLE_BLOCK else MMC_CMD_WRITE_MULTIPLE_BLOCK),
    resp_type = MMC_RSP_R1, cmdarg = (if high_capacity mmc then start else start * write_bl_len mmc)\<rparr>"
  have ok: "card_ok mmc" using wf by (simp add: mmc_wf_def)
  obtain e resp rd c1 where c1: "send_cmd mmc cmd (Data_write n (write_bl_len mmc) bs) (card mmc) = (e, resp, rd, c1)"
    by (cases "send_cmd mmc cmd (Data_write n (write_bl_len mmc) bs) (card mmc)") auto
  define m1 where "m1 = mmc\<lparr>card := c1\<rparr>"
  have m1: "mmc_send_cmd cmd (Data_write n (write_bl_len mmc) bs) mmc = (e, resp, rd, m1)"
    by (simp add: mmc_send_cmd_def c1 m1_def)
  have "n = 1 \<longleftrightarrow> unat n = 1"
    by (metis unsigned_1 unsigned_word_eqI)
  then have "n > 1 \<longleftrightarrow> n \<noteq> 1"
    using range(1) by (auto simp: word_less_nat_alt)
  then have idx: "cmdidx cmd = (if n > 1 then MMC_CMD_WRITE_MULTIPLE_BLOCK else MMC_CMD_WRITE_SINGLE_BLOCK)"
    by (simp add: cmd_def)
  have arg: "dev_block mmc (cmdarg cmd) = unat start"
    using dev_block_start [OF wf add_leD1 [OF range(2)]] by (simp add: cmd_def split: if_splits)
  have "card_writes mmc" using ok by (simp add: card_ok_def)
  have cl: "length (cells (card mmc) p b) = unat (write_bl_len mmc)" for p b
    using wf by (simp add: mmc_wf_def)
  note law = \<open>card_writes mmc\<close> [unfolded card_writes_def, rule_format, OF c1 idx cl len, unfolded arg]
  with cl law have w: "write_step (unat start) (unat n) mmc m1"
    "e = 0 \<Longrightarrow> mmc_cells m1 = put_blocks (unat (write_bl_len mmc)) (mmc_cells mmc) (unat start) (unat n) bs"
    by (auto simp: write_step_def card_step_def m1_def mmc_cells_def)
  define stop where "stop = (if \<not> host_is_spi m1 \<and> n > 1
    then (case mmc_send_cmd stop_cmd No_data m1 of (err, _, _, m) \<Rightarrow> (err, m)) else (0, m1))"
  obtain e2 m2 where m2: "stop = (e2, m2)" by (cases stop) auto
  have ok1: "card_ok m1"
    using ok card_ok_step [of mmc m1] w(1) by (simp add: write_step_def)
  have q2: "quiet_step m1 m2"
    using m2 send_quiet [OF ok1, of stop_cmd]
    by (auto simp: stop_def stop_cmd_def split: if_splits prod.splits)
  obtain e3 m3 where m3: "mmc_send_status 1000 m2 = (e3, m3)"
    by (cases "mmc_send_status 1000 m2") auto
  have q3: "quiet_step m2 m3"
    by (rule mmc_send_status_quiet [OF _ m3]) (use ok1 quiet_card_ok [OF q2] in simp)
  have "unat (start + n) = unat start + unat n"
    by (rule round_start [OF range(2)]) simp
  then have le: "\<not> start + n > lba mmc" "n \<noteq> 0"
    using range by (auto simp: word_less_nat_alt)
  have "mmc_write_blocks start n bs mmc =
      (if e \<noteq> 0 then (0, m1) else if e2 \<noteq> 0 then (0, m2) else if e3 \<noteq> 0 then (0, m3) else (n, m3))"
    unfolding mmc_write_blocks_def Let_def cmd_def [symmetric] using le m2
    by (simp add: m1 stop_def [symmetric] m3)
  moreover have "quiet_step m1 m3" by (rule quiet_step_trans [OF q2 q3])
  then have "write_step (unat start) (unat n) mmc m2" "write_step (unat start) (unat n) mmc m3"
    "mmc_cells m3 = mmc_cells m1"
    using write_step_quiet_trans [OF w(1)] q2 quiet_step_cells(2) by auto
  ultimately show ?thesis
    using res w le(2) by (auto split: if_splits)
qed

lemma write_loop_result:
  assumes "mmc_wf mmc" "0 < unat todo" "unat start + unat todo \<le> unat (lba mmc)"
    "length bs = unat todo * unat (write_bl_len mmc)"
  shows "\<exists>ok mmc'. write_loop start todo bs mmc = Some (ok, mmc') \<and> write_step (unat start) (unat todo) mmc mmc'
    \<and> (ok \<longrightarrow> mmc_cells mmc' = put_blocks (unat (write_bl_len mmc)) (mmc_cells mmc) (unat start) (unat todo) bs)"
  using assms
proof (induction "unat todo" arbitrary: start todo bs mmc rule: less_induct)
  case less
  let ?sz = "unat (write_bl_len mmc)"
  define cur where "cur = (if todo > b_max mmc then b_max mmc else todo)"
  have bm: "0 < unat (b_max mmc)" "unat (b_max mmc) * ?sz < 2 ^ 32"
    using less.prems(1) by (simp_all add: mmc_wf_def)
  note cur = round_size [OF bm(1) less.prems(2), folded cur_def]
  have "unat cur * ?sz \<le> unat (b_max mmc) * ?sz"
    using cur(3) by (rule mult_le_mono1)
  then have adv: "unat (cur * write_bl_len mmc) = unat cur * ?sz"
    using bm(2) by (intro u32_times) linarith
  have len: "unat cur * ?sz \<le> length bs"
    using cur(2) less.prems(4) by (simp add: mult_le_mono1)
  obtain r m1 where r: "mmc_write_blocks start cur bs mmc = (r, m1)"
    by (cases "mmc_write_blocks start cur bs mmc") auto
  have w: "write_step (unat start) (unat cur) mmc m1"
    "r = cur \<Longrightarrow> mmc_cells m1 = put_blocks ?sz (mmc_cells mmc) (unat start) (unat cur) bs"
    using mmc_write_blocks_result [OF less.prems(1) cur(1) _ len r] cur(2) less.prems(3) by auto
  have eq: "write_loop start todo bs mmc =
      (if r \<noteq> cur then Some (False, m1)
       else if todo - cur > 0 then write_loop (start + cur) (todo - cur) (drop (unat cur * ?sz) bs) m1
       else Some (True, m1))"
    by (subst write_loop.simps) (simp add: cur_def [symmetric] r adv)
  have w': "write_step (unat start) (unat todo) mmc m1"
    by (rule write_step_trans [OF w(1) write_step_quiet]) (use cur(2) in auto)
  show ?case
  proof (cases "r = cur \<and> todo - cur > 0")
    case True
    have st: "unat (start + cur) = unat start + unat cur"
      by (rule round_start [OF less.prems(3) cur(2)])
    have cs: "card_step mmc m1" using w(1) by (simp add: write_step_def)
    have wf: "mmc_wf m1" "lba m1 = lba mmc" "write_bl_len m1 = write_bl_len mmc"
      using less.prems(1) mmc_wf_step [OF cs] card_step_fields [OF cs] by simp_all
    have "\<exists>ok mmc'. write_loop (start + cur) (todo - cur) (drop (unat cur * ?sz) bs) m1 = Some (ok, mmc')
      \<and> write_step (unat (start + cur)) (unat (todo - cur)) m1 mmc'
      \<and> (ok \<longrightarrow> mmc_cells mmc' = put_blocks (unat (write_bl_len m1)) (mmc_cells m1) (unat (start + cur)) (unat (todo - cur))
           (drop (unat cur * ?sz) bs))"
    proof (rule less.hyps [OF _ wf(1)])
      show "unat (todo - cur) < unat todo" using cur less.prems(2) by linarith
      show "0 < unat (todo - cur)" using True by (simp add: word_less_nat_alt)
      show "unat (start + cur) + unat (todo - cur) \<le> unat (lba m1)"
        using st cur less.prems(3) by (simp add: wf(2))
      show "length (drop (unat cur * ?sz) bs) = unat (todo - cur) * unat (write_bl_len m1)"
        by (simp add: less.prems(4) wf(3) cur(4) diff_mult_distrib)
    qed
    then obtain ok m2 where m2: "write_loop (start + cur) (todo - cur) (drop (unat cur * ?sz) bs) m1 = Some (ok, m2)"
      "write_step (unat start + unat cur) (unat todo - unat cur) m1 m2"
      "ok \<Longrightarrow> mmc_cells m2 = put_blocks ?sz (mmc_cells m1) (unat start + unat cur) (unat todo - unat cur)
           (drop (unat cur * ?sz) bs)"
      by (auto simp: st cur(4) wf(3))
    have "put_blocks ?sz (put_blocks ?sz (mmc_cells mmc) (unat start) (unat cur) bs) (unat start + unat cur)
        (unat todo - unat cur) (drop (unat cur * ?sz) bs) = put_blocks ?sz (mmc_cells mmc) (unat start) (unat todo) bs"
      using put_blocks_append [of "take (unat cur * ?sz) bs" "unat cur" ?sz "mmc_cells mmc" "unat start"
          "unat todo - unat cur" "drop (unat cur * ?sz) bs"] len cur(2) put_blocks_take [of ?sz _ "unat start" "unat cur" bs]
      by simp
    moreover have "write_step (unat start) (unat todo) mmc m2"
      by (rule write_step_trans [OF w(1) m2(2)]) (use cur(2) in auto)
    ultimately show ?thesis
      using eq True m2 w(2) by auto
  next
    case False
    then have "r = cur \<Longrightarrow> todo = cur"
      by (metis right_minus_eq word_gt_0)
    with eq False w w' show ?thesis by auto
  qed
qed

lemma mmc_bwrite_result:
  assumes "mmc_wf mmc" "unat start + unat n \<le> unat (lba mmc)"
    "length bs = unat n * unat (write_bl_len mmc)"
  shows "\<exists>r mmc'. mmc_bwrite start n bs mmc = Some (r, mmc') \<and> write_step (unat start) (unat n) mmc mmc'
    \<and> (r = n \<or> r = 0)
    \<and> (r = n \<longrightarrow> mmc_cells mmc' = put_blocks (unat (write_bl_len mmc)) (mmc_cells mmc) (unat start) (unat n) bs)"
proof -
  obtain err m1 where m1: "mmc_set_blocklen (write_bl_len mmc) mmc = (err, m1)"
    by (cases "mmc_set_blocklen (write_bl_len mmc) mmc") auto
  have q: "quiet_step mmc m1"
    using mmc_set_blocklen_quiet [OF _ m1] assms(1) by (simp add: mmc_wf_def)
  show ?thesis
  proof (cases "err = 0")
    case True
    note f = card_step_fields [OF quiet_card_step [OF q]]
    have wf: "mmc_wf m1" "mmc_cells m1 = mmc_cells mmc"
      using assms(1) mmc_wf_step [OF quiet_card_step [OF q]] quiet_step_cells(2) [OF q] by simp_all
    have "\<exists>ok m2. write_loop start n bs m1 = Some (ok, m2) \<and> write_step (unat start) (unat n) m1 m2
        \<and> (ok \<longrightarrow> mmc_cells m2 = put_blocks (unat (write_bl_len mmc)) (mmc_cells mmc) (unat start) (unat n) bs)
        \<and> (ok \<or> n \<noteq> 0)"
    proof (cases "n = 0")
      case True
      then show ?thesis
        by (subst write_loop.simps) (auto simp: mmc_write_blocks_def wf(2) write_step_quiet)
    next
      case False
      then show ?thesis
        using write_loop_result [OF wf(1), of n start bs] assms by (auto simp: f wf(2) unat_gt_0)
    qed
    then obtain ok m2 where m2: "write_loop start n bs m1 = Some (ok, m2)" "write_step (unat start) (unat n) m1 m2"
        "ok \<longrightarrow> mmc_cells m2 = put_blocks (unat (write_bl_len mmc)) (mmc_cells mmc) (unat start) (unat n) bs" "ok \<or> n \<noteq> 0"
      by blast
    have "write_step (unat start) (unat n) mmc m2"
      by (rule write_step_trans [OF write_step_quiet [OF q, of "unat start" "unat n"] m2(2)]) auto
    with True m1 m2 show ?thesis
      by (auto simp: mmc_bwrite_def)
  next
    case False
    have "n = 0 \<Longrightarrow> mmc_cells m1 = put_blocks (unat (write_bl_len mmc)) (mmc_cells mmc) (unat start) (unat n) bs"
      using quiet_step_cells(2) [OF q] by simp
    with False m1 write_step_quiet [OF q] show ?thesis
      by (auto simp: mmc_bwrite_def)
  qed
qed

section \<open>The MMC as a block device\<close>

interpretation mmcdev: block_device mmc_wf "\<lambda>m. unat (write_bl_len m)" "\<lambda>m. unat (lba m)" mmc_cells mmc_bread mmc_bwrite
proof (unfold_locales, goal_cases)
  case (1 m b)
  then show ?case by (simp add: mmc_wf_def mmc_cells_def)
next
  case (2 m n start)
  obtain r bs m' where r: "mmc_bread start n m = Some (r, bs, m')" "quiet_step m m'" "r = n \<or> r = 0"
      "r = n \<longrightarrow> bs = get_blocks (mmc_cells m) (unat start) (unat n)"
    using mmc_bread_result [OF 2] by blast
  have "mmc_wf m'" "write_bl_len m' = write_bl_len m" "lba m' = lba m" "mmc_cells m' = mmc_cells m"
    using 2(1) mmc_wf_step [OF quiet_card_step [OF r(2)]] card_step_fields [OF quiet_card_step [OF r(2)]]
      quiet_step_cells(2) [OF r(2)] by simp_all
  with r show ?case by auto
next
  case (3 m start n src)
  obtain r m' where r: "mmc_bwrite start n src m = Some (r, m')" "write_step (unat start) (unat n) m m'" "r = n \<or> r = 0"
      "r = n \<longrightarrow> mmc_cells m' = put_blocks (unat (write_bl_len m)) (mmc_cells m) (unat start) (unat n) src"
    using mmc_bwrite_result [OF 3] by blast
  have cs: "card_step m m'" using r(2) by (simp add: write_step_def)
  have "mmc_wf m'" "write_bl_len m' = write_bl_len m" "lba m' = lba m" "access_part (card m') = access_part (card m)"
    using 3(1) mmc_wf_step [OF cs] card_step_fields [OF cs] by simp_all
  moreover have "mmc_cells m' b = mmc_cells m b" if "\<not> (unat start \<le> b \<and> b < unat start + unat n)" for b
    using r(2) that card_step_fields(13) [OF cs] unfolding write_step_def mmc_cells_def by (metis linorder_not_le)
  ultimately show ?case using r by auto
qed

section \<open>Erasing stays inside\<close>

text \<open>Whole groups: the groups of an aligned run are the run.\<close>

lemma aligned_groups:
  assumes "u dvd a" "u dvd k" "0 < (k :: nat)" "0 < u"
  shows "b div u < a div u \<longleftrightarrow> b < a" "(a + k - 1) div u < b div u \<longleftrightarrow> a + k \<le> b"
proof -
  obtain i j where i: "a = u * i" "k = u * j" using assms(1,2) by (auto elim!: dvdE)
  then have "0 < j" using assms(3) by auto
  show "b div u < a div u \<longleftrightarrow> b < a"
    using assms(4) by (simp add: i(1) div_less_iff_less_mult mult.commute)
  have "a + k - 1 = (u - 1) + u * (i + j - 1)"
    using \<open>0 < j\<close> assms(4) by (cases j) (auto simp: i algebra_simps)
  moreover have "((u - 1) + u * (i + j - 1)) div u = i + j - 1"
    using assms(4) div_mult_self2 [of u "u - 1" "i + j - 1"] by (simp del: div_mult_self2)
  ultimately have "(a + k - 1) div u = i + j - 1" by simp
  then have "(a + k - 1) div u < b div u \<longleftrightarrow> i + j \<le> b div u"
    using \<open>0 < j\<close> by auto
  also have "\<dots> \<longleftrightarrow> a + k \<le> b"
    using assms(4) by (simp add: i less_eq_div_iff_mult_less_eq algebra_simps)
  finally show "(a + k - 1) div u < b div u \<longleftrightarrow> a + k \<le> b" .
qed

lemma mmc_erase_t_result:
  assumes wf: "mmc_wf mmc" and range: "0 < unat n" "unat start + unat n \<le> unat (lba mmc)"
    and al: "erase_unit mmc dvd unat start" "erase_unit mmc dvd unat n" "0 < erase_unit mmc"
    and res: "mmc_erase_t start n mmc = (err, mmc')"
  shows "write_step (unat start) (unat n) mmc mmc'"
proof -
  define c1 where "c1 = \<lparr>cmdidx = (if is_sd mmc then SD_CMD_ERASE_WR_BLK_START else MMC_CMD_ERASE_GROUP_START),
    resp_type = MMC_RSP_R1, cmdarg = (if high_capacity mmc then start else start * write_bl_len mmc)\<rparr>"
  define c2 where "c2 = \<lparr>cmdidx = (if is_sd mmc then SD_CMD_ERASE_WR_BLK_END else MMC_CMD_ERASE_GROUP_END),
    resp_type = MMC_RSP_R1, cmdarg = (if high_capacity mmc then start + n - 1 else (start + n - 1) * write_bl_len mmc)\<rparr>"
  define c3 where "c3 = \<lparr>cmdidx = MMC_CMD_ERASE, resp_type = MMC_RSP_R1b, cmdarg = 0\<rparr>"
  have er: "card_erases mmc" using wf by (simp add: mmc_wf_def card_ok_def)
  obtain e1 r1 d1 k1 where k1: "send_cmd mmc c1 No_data (card mmc) = (e1, r1, d1, k1)"
    by (cases "send_cmd mmc c1 No_data (card mmc)") auto
  obtain e2 r2 d2 k2 where k2: "send_cmd mmc c2 No_data k1 = (e2, r2, d2, k2)"
    by (cases "send_cmd mmc c2 No_data k1") auto
  obtain e3 r3 d3 k3 where k3: "send_cmd mmc c3 No_data k2 = (e3, r3, d3, k3)"
    by (cases "send_cmd mmc c3 No_data k2") auto
  have out: "mmc_erase_t start n mmc = (if e1 \<noteq> 0 then (e1, mmc\<lparr>card := k1\<rparr>) else if e2 \<noteq> 0 then (e2, mmc\<lparr>card := k2\<rparr>)
      else (e3, mmc\<lparr>card := k3\<rparr>))"
    unfolding mmc_erase_t_def Let_def
    by (simp add: mmc_send_cmd_def c1_def [symmetric] c2_def [symmetric] c3_def [symmetric] k1 k2 k3)
  note law = er [unfolded card_erases_def, rule_format]
  have s1: "cells k1 = cells (card mmc)" "access_part k1 = access_part (card mmc)" "e1 = 0 \<Longrightarrow> erase_start k1 = cmdarg c1"
    using conjunct1 [OF law [OF k1]] by (simp_all add: c1_def)
  have s2: "cells k2 = cells k1" "access_part k2 = access_part k1" "e2 = 0 \<Longrightarrow> erase_end k2 = cmdarg c2"
      "erase_start k2 = erase_start k1"
    using conjunct1 [OF conjunct2 [OF law [OF k2]]] by (simp_all add: c2_def)
  have sum: "unat (start + n) = unat start + unat n"
    by (rule round_start [OF range(2)]) simp
  then have "unat (start + n - 1) = unat start + unat n - 1"
    using range(1) by (subst u32_minus) simp_all
  then have arg: "dev_block mmc (cmdarg c1) = unat start" "dev_block mmc (cmdarg c2) = unat start + unat n - 1"
    using dev_block_start [OF wf, of start] dev_block_start [OF wf, of "start + n - 1"] range
    by (simp_all add: c1_def c2_def split: if_splits)
  have "card_step mmc (mmc\<lparr>card := k3\<rparr>)"
    using conjunct2 [OF conjunct2 [OF law [OF k3]]] s1 s2 by (auto simp: c3_def card_step_def intro!: exI [of _ k3])
  moreover have "cells k3 p b = cells (card mmc) p b"
    if "e1 = 0" "e2 = 0" "p \<noteq> access_part (card mmc) \<or> b < unat start \<or> unat start + unat n \<le> b" for p b
    using conjunct2 [OF conjunct2 [OF law [OF k3]]] that s1 s2
    by (simp add: c3_def arg aligned_groups [OF al(1,2) range(1) al(3)] del: One_nat_def)
  ultimately have "e1 = 0 \<Longrightarrow> e2 = 0 \<Longrightarrow> write_step (unat start) (unat n) mmc (mmc\<lparr>card := k3\<rparr>)"
    by (simp add: write_step_def)
  moreover have "quiet_step mmc (mmc\<lparr>card := k1\<rparr>)" "quiet_step mmc (mmc\<lparr>card := k2\<rparr>)"
    using s1 s2 by (auto simp: quiet_step_def)
  ultimately show ?thesis
    using res out by (auto simp: write_step_quiet split: if_splits)
qed

lemma erase_loop_result:
  assumes "mmc_wf mmc" "unat start + unat n \<le> unat (lba mmc)" "0 < unat (erase_grp_size mmc)"
    "erase_unit mmc dvd unat start" "erase_unit mmc dvd unat n" "unat blk \<le> unat n" "erase_unit mmc dvd unat blk"
  shows "\<exists>r mmc'. erase_loop start n blk mmc = Some (r, mmc') \<and> write_step (unat start) (unat n) mmc mmc'
    \<and> unat r \<le> unat n"
  using assms
proof (induction "unat n - unat blk" arbitrary: blk mmc rule: less_induct)
  case less
  let ?unit = "if is_sd mmc \<and> ssr_au mmc \<noteq> 0 then ssr_au mmc else erase_grp_size mmc"
  show ?case
  proof (cases "blk < n")
    case False
    then have "unat blk = unat n" using less.prems(6) by (simp add: word_less_nat_alt)
    with False show ?thesis
      by (subst erase_loop.simps) (simp add: write_step_quiet)
  next
    case True
    define cur where "cur = (if n - blk > ?unit then ?unit else n - blk)"
    have lt: "unat blk < unat n" using True by (simp add: word_less_nat_alt)
    then have rest: "unat (n - blk) = unat n - unat blk" by (intro u32_minus) simp
    have unit: "0 < unat ?unit" using less.prems(3) by (auto simp: unat_gt_0)
    note cur = round_size [OF unit, of "n - blk", folded cur_def, unfolded rest]
    have cur': "0 < unat cur" "unat cur \<le> unat n - unat blk" using cur(1,2) lt by simp_all
    have u: "0 < erase_unit mmc" using less.prems(3) by (simp add: erase_unit_def)
    have dvd_cur: "erase_unit mmc dvd unat cur"
      using less.prems(5,7) by (auto simp: cur_def rest erase_unit_def dvd_diff_nat)
    have st: "unat (start + blk) = unat start + unat blk"
      by (rule round_start [OF less.prems(2)]) (use lt in simp)
    obtain err m1 where m1: "mmc_erase_t (start + blk) cur mmc = (err, m1)"
      by (cases "mmc_erase_t (start + blk) cur mmc") auto
    have w1: "write_step (unat start + unat blk) (unat cur) mmc m1"
      using mmc_erase_t_result [OF less.prems(1) cur'(1) _ _ dvd_cur u m1] less.prems cur' lt
      by (simp add: st)
    have w1': "write_step (unat start) (unat n) mmc m1"
      by (rule write_step_trans [OF w1 write_step_quiet]) (use cur' lt in auto)
    obtain e2 m2 where m2: "mmc_send_status 1000 m1 = (e2, m2)"
      by (cases "mmc_send_status 1000 m1") auto
    have cs: "card_step mmc m1" using w1 by (simp add: write_step_def)
    have ok: "card_ok m1" using less.prems(1) card_ok_step [OF cs] by (simp add: mmc_wf_def)
    have q2: "quiet_step m1 m2" by (rule mmc_send_status_quiet [OF ok m2])
    have w2: "write_step (unat start) (unat n) mmc m2"
      by (rule write_step_quiet_trans [OF w1' q2])
    have cs2: "card_step mmc m2" using w2 by (simp add: write_step_def)
    have eq: "erase_loop start n blk mmc = (if err \<noteq> 0 then Some (blk, m1) else if e2 \<noteq> 0 then Some (0, m2)
        else erase_loop start n (blk + cur) m2)"
      using True by (subst erase_loop.simps) (simp add: Let_def cur_def [symmetric] m1 m2)
    have sum: "unat (blk + cur) = unat blk + unat cur"
      using cur'(2) lt unat_u32_less [of n] by (intro u32_plus) linarith
    have "\<exists>r mmc'. erase_loop start n (blk + cur) m2 = Some (r, mmc') \<and> write_step (unat start) (unat n) m2 mmc' \<and> unat r \<le> unat n"
    proof (rule less.hyps)
      show "mmc_wf m2" using less.prems(1) mmc_wf_step [OF cs2] by simp
    qed (use less.prems cur' lt dvd_cur in \<open>simp_all add: sum card_step_fields [OF cs2]\<close>)
    then obtain r m3 where "erase_loop start n (blk + cur) m2 = Some (r, m3)" "write_step (unat start) (unat n) m2 m3"
        "unat r \<le> unat n"
      by blast
    moreover from this have "write_step (unat start) (unat n) mmc m3"
      by (intro write_step_trans [OF w2]) (assumption | rule order.refl)+
    ultimately show ?thesis
      using eq w1' w2 less.prems(6) by auto
  qed
qed

section \<open>A memory card\<close>

text \<open>
  A card that stores what it is given: 8 blocks of 4 bytes, erase groups of 2 blocks, on a host
  that moves at most 3 blocks at a time.
\<close>

definition ram_send :: "mmc_cmd \<Rightarrow> mmc_data \<Rightarrow> unit card \<Rightarrow> int \<times> u32 \<times> u8 list \<times> unit card" where
  "ram_send cmd d c = (0, 0x900,
     (case d of Data_read n _ \<Rightarrow> get_blocks (cells c (access_part c)) (unat (cmdarg cmd)) (unat n) | _ \<Rightarrow> []),
     (case d of
        No_data \<Rightarrow>
          if cmdidx cmd = MMC_CMD_ERASE_GROUP_START then c\<lparr>erase_start := cmdarg cmd\<rparr>
          else if cmdidx cmd = MMC_CMD_ERASE_GROUP_END then c\<lparr>erase_end := cmdarg cmd\<rparr>
          else if cmdidx cmd = MMC_CMD_ERASE then
            c\<lparr>cells := (\<lambda>p b. if p = access_part c \<and> unat (erase_start c) div 2 \<le> b div 2
               \<and> b div 2 \<le> unat (erase_end c) div 2 then replicate (length (cells c p b)) 0 else cells c p b)\<rparr>
          else c
      | Data_write n sz bs \<Rightarrow>
          c\<lparr>cells := (cells c)(access_part c :=
              put_blocks (unat sz) (cells c (access_part c)) (unat (cmdarg cmd)) (unat n) bs)\<rparr>
      | _ \<Rightarrow> c))"

definition ram_mmc :: "unit mmc" where
  "ram_mmc = \<lparr>send_cmd = ram_send,
     card = \<lparr>cells = (\<lambda>p b. [of_nat b, 0xff, 0, 0]), access_part = 0, erase_start = 0, erase_end = 0, ctl = ()\<rparr>,
     is_sd = False, host_is_spi = False, high_capacity = True, ddr_mode = False, rca = 1,
     read_bl_len = 4, write_bl_len = 4, erase_grp_size = 2, ssr_au = 0, b_max = 3, lba = 8, stale_arg = 0\<rparr>"

lemma ram_reads: "card_reads ram_mmc"
  by (simp add: card_reads_def ram_mmc_def ram_send_def dev_block_def)

lemma ram_quiet: "card_quiet ram_mmc"
  by (auto simp: card_quiet_def ram_mmc_def ram_send_def mmc_cmd_defs)

lemma ram_writes: "card_writes ram_mmc"
proof -
  have "length (put_blocks 4 (cells c (access_part c)) a n bs b) = 4"
    if "\<forall>p b. length (cells c p b) = 4" "n * 4 \<le> length bs" for c :: "unit card" and a n bs b
    using that by (intro length_put_blocks) auto
  then show ?thesis
    by (auto simp: card_writes_def ram_mmc_def ram_send_def dev_block_def put_blocks_other)
qed

lemma ram_erases: "card_erases ram_mmc"
  by (auto simp: card_erases_def ram_mmc_def ram_send_def mmc_cmd_defs dev_block_def erase_unit_def)

lemma ram_mmc_wf: "mmc_wf ram_mmc"
  using ram_reads ram_quiet ram_writes ram_erases
  by (simp add: mmc_wf_def card_ok_def) (simp add: ram_mmc_def)

text \<open>The same card with blocks of 512 bytes, all zero.\<close>

definition card512 :: "unit mmc" where
  "card512 = ram_mmc\<lparr>card := (card ram_mmc)\<lparr>cells := (\<lambda>p b. replicate 512 0)\<rparr>, read_bl_len := 512, write_bl_len := 512\<rparr>"

lemma card512_wf: "mmc_wf card512"
proof -
  have len: "length (put_blocks 512 (cells c (access_part c)) a n bs b) = 512"
    if "\<forall>p b. length (cells c p b) = 512" "n * 512 \<le> length bs" for c :: "unit card" and a n bs b
    using that by (intro length_put_blocks) auto
  have "card_reads card512" "card_quiet card512" "card_erases card512"
    by (auto simp: card_reads_def card_quiet_def card_erases_def card512_def ram_mmc_def ram_send_def dev_block_def
        mmc_cmd_defs erase_unit_def)
  moreover have "card_writes card512"
    using len by (auto simp: card_writes_def card512_def ram_mmc_def ram_send_def dev_block_def put_blocks_other)
  ultimately show ?thesis
    by (simp add: mmc_wf_def card_ok_def) (simp add: card512_def ram_mmc_def)
qed

section \<open>Properties\<close>

text \<open>
  C18: A write through the MMC driver ends, transfers all of its blocks or reports none, stores
  them in the right places, and changes no other block and no other hardware partition, also when
  it fails in the middle; for byte and for block addressed cards and any transfer limit of the host.
\<close>

theorem mmc_bwrite_safe:
  assumes "mmc_wf mmc" "unat start + unat n \<le> unat (lba mmc)"
    "length bs = unat n * unat (write_bl_len mmc)"
  shows "\<exists>r mmc'. mmc_bwrite start n bs mmc = Some (r, mmc') \<and> (r = n \<or> r = 0) \<and> mmc_wf mmc'
    \<and> (\<forall>p b. p \<noteq> access_part (card mmc) \<or> b < unat start \<or> unat start + unat n \<le> b
         \<longrightarrow> cells (card mmc') p b = cells (card mmc) p b)
    \<and> (r = n \<longrightarrow> get_blocks (mmc_cells mmc') (unat start) (unat n) = bs)"
proof -
  obtain r m' where r: "mmc_bwrite start n bs mmc = Some (r, m')" "write_step (unat start) (unat n) mmc m'" "r = n \<or> r = 0"
    "r = n \<longrightarrow> mmc_cells m' = put_blocks (unat (write_bl_len mmc)) (mmc_cells mmc) (unat start) (unat n) bs"
    using mmc_bwrite_result [OF assms] by blast
  moreover have "mmc_wf m'"
    using r(2) assms(1) mmc_wf_step [of mmc m'] by (simp add: write_step_def)
  ultimately show ?thesis
    using get_put_blocks [OF assms(3)] by (auto simp: write_step_def)
qed

theorem mmc_bwrite_safe_witness:
  "\<exists>r mmc'. mmc_bwrite 1 5 (replicate 20 7) ram_mmc = Some (r, mmc') \<and> (r = 5 \<or> r = 0)
    \<and> cells (card mmc') 0 0 = [0, 0xff, 0, 0] \<and> cells (card mmc') 0 6 = [6, 0xff, 0, 0]"
  using mmc_bwrite_safe [OF ram_mmc_wf, of 1 5 "replicate 20 7"]
  by (auto simp: ram_mmc_def)

text \<open>
  C21: What a successful write put on the card a successful read of the same blocks returns.
\<close>

theorem mmc_write_read:
  assumes "mmc_wf mmc" "0 < unat n" "unat start + unat n \<le> unat (lba mmc)"
    "length src = unat n * unat (write_bl_len mmc)"
    and "mmc_bwrite start n src mmc = Some (n, mmc')" "mmc_bread start n mmc' = Some (n, bs, mmc'')"
  shows "bs = src"
  by (rule mmcdev.bread_bwrite [OF assms])

theorem mmc_write_read_witness:
  "\<exists>mmc' mmc''. mmc_bwrite 1 4 (replicate 16 5) ram_mmc = Some (4, mmc')
    \<and> mmc_bread 1 4 mmc' = Some (4, (replicate 16 5), mmc'')"
proof -
  have w: "map_option fst (mmc_bwrite 1 4 (replicate 16 5) ram_mmc) = Some 4" by code_simp
  then obtain m' where m': "mmc_bwrite 1 4 (replicate 16 5) ram_mmc = Some (4, m')" by auto
  have "map_option fst (Option.bind (mmc_bwrite 1 4 (replicate 16 5) ram_mmc) (\<lambda>(_, m). mmc_bread 1 4 m)) = Some 4"
    by code_simp
  then obtain bs m'' where m'': "mmc_bread 1 4 m' = Some (4, bs, m'')" using m' by auto
  have "bs = (replicate 16 5)"
    by (rule mmc_write_read [OF ram_mmc_wf _ _ _ m' m'']) (simp_all add: ram_mmc_def)
  with m' m'' show ?thesis by blast
qed

text \<open>
  C22: Erasing a run of whole erase groups ends and reports no more blocks than asked for; no block
  outside the run and no other hardware partition changes, whatever command fails.
\<close>

theorem mmc_berase_inside:
  assumes "mmc_wf mmc" "unat start + unat n \<le> unat (lba mmc)" "0 < unat (erase_grp_size mmc)"
    "erase_unit mmc dvd unat start" "erase_unit mmc dvd unat n"
  shows "\<exists>r mmc'. mmc_berase start n mmc = Some (r, mmc') \<and> unat r \<le> unat n
    \<and> (\<forall>p b. p \<noteq> access_part (card mmc) \<or> b < unat start \<or> unat start + unat n \<le> b
         \<longrightarrow> cells (card mmc') p b = cells (card mmc) p b)"
  using erase_loop_result [OF assms, of 0] by (auto simp: mmc_berase_def write_step_def)

theorem mmc_berase_inside_witness:
  "\<exists>r mmc'. mmc_berase 2 4 ram_mmc = Some (r, mmc') \<and> unat r \<le> 4
    \<and> cells (card mmc') 0 1 = [1, 0xff, 0, 0] \<and> cells (card mmc') 0 6 = [6, 0xff, 0, 0]"
  using mmc_berase_inside [OF ram_mmc_wf, of 2 4] by (auto simp: ram_mmc_def erase_unit_def)

end
