(* ===== verification/Blk_Cache.thy ===== *)
theory Blk_Cache
  imports Mmc
begin

text \<open>
  The block cache (\<^verbatim>\<open>drivers/block/blkcache.c\<close>) and the cached block operations of
  \<^verbatim>\<open>include/blk.h\<close> on top of a driver. The cache is the list of its nodes, the most recently used
  first; memory for nodes is always available.
\<close>

section \<open>The cache\<close>

record block_cache_node =
  iftype :: int
  devnum :: int
  nstart :: lbaint
  nblkcnt :: lbaint
  nblksz :: ulong
  cache :: "u8 list"

record block_cache =
  nodes :: "block_cache_node list"
  hits :: u32
  misses :: u32
  entries :: u32
  max_blocks_per_entry :: u32
  max_entries :: u32

definition blkcache_init :: block_cache where
  "blkcache_init = \<lparr>nodes = [], hits = 0, misses = 0, entries = 0, max_blocks_per_entry = 2, max_entries = 32\<rparr>"

definition node_holds :: "int \<Rightarrow> int \<Rightarrow> lbaint \<Rightarrow> lbaint \<Rightarrow> ulong \<Rightarrow> block_cache_node \<Rightarrow> bool" where
  "node_holds ift dev start blkcnt blksz node \<longleftrightarrow>
     iftype node = ift \<and> devnum node = dev \<and> nblksz node = blksz
     \<and> nstart node \<le> start \<and> nstart node + nblkcnt node \<ge> start + blkcnt"

text \<open>The node that holds the blocks, moved to the front.\<close>

definition cache_find ::
  "int \<Rightarrow> int \<Rightarrow> lbaint \<Rightarrow> lbaint \<Rightarrow> ulong \<Rightarrow> block_cache \<Rightarrow> block_cache_node option \<times> block_cache" where
  "cache_find ift dev start blkcnt blksz bc =
     (case find (node_holds ift dev start blkcnt blksz) (nodes bc) of
        None \<Rightarrow> (None, bc)
      | Some node \<Rightarrow> (Some node, bc\<lparr>nodes := node # remove1 node (nodes bc)\<rparr>))"

definition blkcache_read ::
  "int \<Rightarrow> int \<Rightarrow> lbaint \<Rightarrow> lbaint \<Rightarrow> ulong \<Rightarrow> block_cache \<Rightarrow> u8 list option \<times> block_cache" where
  "blkcache_read ift dev start blkcnt blksz bc =
     (case cache_find ift dev start blkcnt blksz bc of
        (Some node, bc) \<Rightarrow>
          (Some (take (unat (blksz * blkcnt)) (drop (unat ((start - nstart node) * blksz)) (cache node))),
           bc\<lparr>hits := hits bc + 1\<rparr>)
      | (None, bc) \<Rightarrow> (None, bc\<lparr>misses := misses bc + 1\<rparr>))"

text \<open>
  Filling drops the least recently used node when the cache is full; its buffer is kept when it
  is large enough, with what it held behind the new bytes.
\<close>

definition blkcache_fill ::
  "int \<Rightarrow> int \<Rightarrow> lbaint \<Rightarrow> lbaint \<Rightarrow> ulong \<Rightarrow> u8 list \<Rightarrow> block_cache \<Rightarrow> block_cache" where
  "blkcache_fill ift dev start blkcnt blksz buffer bc =
     (if blkcnt > max_blocks_per_entry bc then bc
      else if max_entries bc = 0 then bc
      else
        let bytes = blksz * blkcnt;
            (old, bc) =
              (if max_entries bc \<le> entries bc then
                 let node = last (nodes bc) in
                 (if nblkcnt node * nblksz node < bytes then [] else cache node,
                  bc\<lparr>nodes := butlast (nodes bc), entries := entries bc - 1\<rparr>)
               else ([], bc));
            node = \<lparr>iftype = ift, devnum = dev, nstart = start, nblkcnt = blkcnt, nblksz = blksz,
                    cache = take (unat bytes) buffer @ drop (unat bytes) old\<rparr> in
        bc\<lparr>nodes := node # nodes bc, entries := entries bc + 1\<rparr>)"

definition blkcache_invalidate :: "int \<Rightarrow> int \<Rightarrow> block_cache \<Rightarrow> block_cache" where
  "blkcache_invalidate ift dev bc =
     (let gone = filter (\<lambda>n. iftype n = ift \<and> devnum n = dev) (nodes bc) in
      bc\<lparr>nodes := filter (\<lambda>n. \<not> (iftype n = ift \<and> devnum n = dev)) (nodes bc),
         entries := entries bc - of_nat (length gone)\<rparr>)"

definition blkcache_configure :: "u32 \<Rightarrow> u32 \<Rightarrow> block_cache \<Rightarrow> block_cache" where
  "blkcache_configure blks ents bc =
     (let bc = (if blks \<noteq> max_blocks_per_entry bc \<or> ents \<noteq> max_entries bc
                then bc\<lparr>nodes := [], entries := 0\<rparr> else bc) in
      bc\<lparr>max_blocks_per_entry := blks, max_entries := ents, hits := 0, misses := 0\<rparr>)"

definition blkcache_stats :: "block_cache \<Rightarrow> block_cache \<times> block_cache" where
  "blkcache_stats bc = (bc, bc\<lparr>hits := 0, misses := 0\<rparr>)"

section \<open>Cached operations\<close>

text \<open>
  The device with its cache. \<open>block_read\<close>, \<open>block_write\<close> and \<open>block_erase\<close> are the function
  pointers of the descriptor, \<open>blksz\<close> its block size.
\<close>

definition blk_dread ::
  "int \<Rightarrow> int \<Rightarrow> ('s \<Rightarrow> ulong) \<Rightarrow> (lbaint \<Rightarrow> lbaint \<Rightarrow> 's \<Rightarrow> (ulong \<times> u8 list \<times> 's) option)
   \<Rightarrow> lbaint \<Rightarrow> lbaint \<Rightarrow> 's \<times> block_cache \<Rightarrow> (ulong \<times> u8 list \<times> 's \<times> block_cache) option" where
  "blk_dread ift dev blksz block_read start blkcnt s =
     (case s of (d, bc) \<Rightarrow>
        case blkcache_read ift dev start blkcnt (blksz d) bc of
          (Some buffer, bc) \<Rightarrow> Some (blkcnt, buffer, d, bc)
        | (None, bc) \<Rightarrow>
            (case block_read start blkcnt d of
               None \<Rightarrow> None
             | Some (blks_read, buffer, d') \<Rightarrow>
                 Some (blks_read, buffer, d',
                   if blks_read = blkcnt then blkcache_fill ift dev start blkcnt (blksz d) buffer bc else bc)))"

definition blk_dwrite ::
  "int \<Rightarrow> int \<Rightarrow> (lbaint \<Rightarrow> lbaint \<Rightarrow> u8 list \<Rightarrow> 's \<Rightarrow> (ulong \<times> 's) option)
   \<Rightarrow> lbaint \<Rightarrow> lbaint \<Rightarrow> u8 list \<Rightarrow> 's \<times> block_cache \<Rightarrow> (ulong \<times> 's \<times> block_cache) option" where
  "blk_dwrite ift dev block_write start blkcnt buffer s =
     (case s of (d, bc) \<Rightarrow>
        case block_write start blkcnt buffer d of
          None \<Rightarrow> None
        | Some (n, d') \<Rightarrow> Some (n, d', blkcache_invalidate ift dev bc))"

definition blk_derase ::
  "int \<Rightarrow> int \<Rightarrow> (lbaint \<Rightarrow> lbaint \<Rightarrow> 's \<Rightarrow> (ulong \<times> 's) option)
   \<Rightarrow> lbaint \<Rightarrow> lbaint \<Rightarrow> 's \<times> block_cache \<Rightarrow> (ulong \<times> 's \<times> block_cache) option" where
  "blk_derase ift dev block_erase start blkcnt s =
     (case s of (d, bc) \<Rightarrow>
        case block_erase start blkcnt d of
          None \<Rightarrow> None
        | Some (n, d') \<Rightarrow> Some (n, d', blkcache_invalidate ift dev bc))"

section \<open>Coherence\<close>

text \<open>
  A cache is coherent with a device content when every node of that device holds the blocks it
  claims, in front of whatever is left in its buffer. The buffer sizes of all nodes that
  may be made stay below \<open>2 ^ 32\<close> bytes, and \<open>entries\<close> counts the nodes.
\<close>

definition node_ok :: "nat \<Rightarrow> nat \<Rightarrow> (nat \<Rightarrow> u8 list) \<Rightarrow> block_cache_node \<Rightarrow> bool" where
  "node_ok sz lim B node \<longleftrightarrow> unat (nstart node) + unat (nblkcnt node) \<le> lim
     \<and> unat (nblkcnt node) * sz < 2 ^ 32
     \<and> take (unat (nblkcnt node) * sz) (cache node) = get_blocks B (unat (nstart node)) (unat (nblkcnt node))"

definition cache_ok :: "int \<Rightarrow> int \<Rightarrow> ulong \<Rightarrow> nat \<Rightarrow> (nat \<Rightarrow> u8 list) \<Rightarrow> block_cache \<Rightarrow> bool" where
  "cache_ok ift dev blksz lim B bc \<longleftrightarrow>
     unat (max_blocks_per_entry bc) * unat blksz < 2 ^ 32
     \<and> unat (entries bc) = length (nodes bc)
     \<and> (\<forall>node \<in> set (nodes bc). iftype node = ift \<and> devnum node = dev \<and> nblksz node = blksz
          \<longrightarrow> node_ok (unat blksz) lim B node)"

lemma cache_ok_invalidate:
  assumes "cache_ok ift dev blksz lim B bc"
  shows "cache_ok ift dev blksz lim' C (blkcache_invalidate ift dev bc)"
proof -
  let ?mine = "\<lambda>n. iftype n = ift \<and> devnum n = dev"
  have "length (filter ?mine (nodes bc)) + length (filter (\<lambda>n. \<not> ?mine n) (nodes bc)) = unat (entries bc)"
    using assms sum_length_filter_compl [of ?mine "nodes bc"] by (simp add: cache_ok_def)
  moreover from this have "unat (of_nat (length (filter ?mine (nodes bc))) :: u32) = length (filter ?mine (nodes bc))"
    using unat_u32_less [of "entries bc"] by (intro unat_of_nat_u32) linarith
  ultimately have "unat (entries bc - of_nat (length (filter ?mine (nodes bc)))) = length (filter (\<lambda>n. \<not> ?mine n) (nodes bc))"
    by (subst u32_minus) simp_all
  then show ?thesis
    using assms by (auto simp: cache_ok_def blkcache_invalidate_def Let_def)
qed

lemma cache_ok_subset:
  assumes "cache_ok ift dev blksz lim B bc" "set ns \<subseteq> set (nodes bc)" "unat e = length ns"
  shows "cache_ok ift dev blksz lim B (bc\<lparr>nodes := ns, entries := e\<rparr>)"
  using assms unfolding cache_ok_def by auto

lemma cache_find_ok:
  assumes "cache_ok ift dev blksz lim B bc" "cache_find ift dev start n blksz bc = (r, bc')"
  shows "cache_ok ift dev blksz lim B bc'"
proof (cases "find (node_holds ift dev start n blksz) (nodes bc)")
  case (Some node)
  then have mem: "node \<in> set (nodes bc)"
    by (auto simp: find_Some_iff)
  have "unat (entries bc) = length (node # remove1 node (nodes bc))"
    using assms(1) mem length_pos_if_in_set [OF mem] by (simp add: cache_ok_def length_remove1)
  then have "cache_ok ift dev blksz lim B (bc\<lparr>nodes := node # remove1 node (nodes bc), entries := entries bc\<rparr>)"
    using mem set_remove1_subset [of node "nodes bc"] by (intro cache_ok_subset [OF assms(1)]) auto
  then show ?thesis
    using assms(2) Some by (auto simp: cache_find_def)
qed (use assms in \<open>auto simp: cache_find_def\<close>)

text \<open>A hit returns the blocks of the device.\<close>

lemma blkcache_read_ok:
  assumes ok: "cache_ok ift dev blksz lim B bc" and lim: "unat start + unat n \<le> lim" "lim < 2 ^ 32"
    and len: "\<And>b. length (B b) = unat blksz"
    and res: "blkcache_read ift dev start n blksz bc = (r, bc')"
  shows "cache_ok ift dev blksz lim B bc'" "r = None \<or> r = Some (get_blocks B (unat start) (unat n))"
proof -
  obtain f bc1 where f: "cache_find ift dev start n blksz bc = (f, bc1)"
    by (cases "cache_find ift dev start n blksz bc")
  have "cache_ok ift dev blksz lim B bc1" by (rule cache_find_ok [OF ok f])
  then show "cache_ok ift dev blksz lim B bc'"
    using res f by (auto simp: blkcache_read_def cache_ok_def split: option.splits)
  show "r = None \<or> r = Some (get_blocks B (unat start) (unat n))"
  proof (cases f)
    case None
    then show ?thesis using res f by (simp add: blkcache_read_def)
  next
    case (Some node)
    let ?sz = "unat blksz" and ?a = "unat (nstart node)" and ?k = "unat (nblkcnt node)"
    have holds: "node_holds ift dev start n blksz node" and mem: "node \<in> set (nodes bc)"
      using f Some by (auto simp: cache_find_def find_Some_iff split: option.splits)
    have node: "?a + ?k \<le> lim" "?k * ?sz < 2 ^ 32" "take (?k * ?sz) (cache node) = get_blocks B ?a ?k"
      using ok mem holds by (auto simp: cache_ok_def node_holds_def node_ok_def)
    have "unat (start + n) = unat start + unat n" "unat (nstart node + nblkcnt node) = ?a + ?k"
      using lim node(1) by (intro u32_plus; linarith)+
    then have le: "?a \<le> unat start" "unat start + unat n \<le> ?a + ?k"
      using holds by (simp_all add: node_holds_def word_le_nat_alt)
    define i where "i = unat start - ?a"
    have i: "unat (start - nstart node) = i" "i + unat n \<le> ?k" "unat start = ?a + i"
      using le by (simp_all add: i_def u32_minus)
    have "(i + unat n) * ?sz \<le> ?k * ?sz" using i(2) by (rule mult_le_mono1)
    then have bound: "i * ?sz + unat n * ?sz \<le> ?k * ?sz" by (simp add: add_mult_distrib)
    have "unat ((start - nstart node) * blksz) = i * ?sz"
      using bound node(2) i(1) u32_times [of "start - nstart node" blksz] by simp
    moreover have "unat (blksz * n) = unat n * ?sz"
      using bound node(2) u32_times [of blksz n] by (simp add: mult.commute)
    ultimately have r: "r = Some (take (unat n * ?sz) (drop (i * ?sz) (cache node)))"
      using res f Some by (auto simp: blkcache_read_def)
    have "take (unat n * ?sz) (drop (i * ?sz) (cache node)) = take (unat n * ?sz) (drop (i * ?sz) (get_blocks B ?a ?k))"
      using take_drop_take [OF bound, of "cache node"] by (simp add: node(3))
    also have "?k = i + (unat n + (?k - (i + unat n)))" using i(2) by simp
    finally have "take (unat n * ?sz) (drop (i * ?sz) (cache node)) = get_blocks B (?a + i) (unat n)"
      by (simp only: get_blocks_add) (simp add: length_get_blocks [OF len])
    then show ?thesis by (simp add: r i(3))
  qed
qed

lemma blkcache_fill_ok:
  assumes ok: "cache_ok ift dev blksz lim B bc" and lim: "unat start + unat n \<le> lim"
    and buf: "buffer = get_blocks B (unat start) (unat n)" and len: "\<And>b. length (B b) = unat blksz"
  shows "cache_ok ift dev blksz lim B (blkcache_fill ift dev start n blksz buffer bc)"
proof (cases "n > max_blocks_per_entry bc \<or> max_entries bc = 0")
  case False
  let ?sz = "unat blksz"
  have "unat n \<le> unat (max_blocks_per_entry bc)"
    using False by (simp add: word_le_nat_alt linorder_not_less)
  then have "unat n * ?sz \<le> unat (max_blocks_per_entry bc) * ?sz" by (rule mult_le_mono1)
  also have "\<dots> < 2 ^ 32" using ok by (simp add: cache_ok_def)
  finally have small: "unat n * ?sz < 2 ^ 32" .
  then have bytes: "unat (blksz * n) = unat n * ?sz"
    using u32_times [of blksz n] by (simp add: mult.commute)
  have blen: "length buffer = unat n * ?sz"
    by (simp add: buf length_get_blocks [OF len])
  have node: "node_ok ?sz lim B \<lparr>iftype = ift, devnum = dev, nstart = start, nblkcnt = n, nblksz = blksz,
      cache = take (unat (blksz * n)) buffer @ drop (unat (blksz * n)) old\<rparr>" for old
    using lim small blen by (simp add: node_ok_def bytes) (simp add: buf)
  have ents: "unat (entries bc) = length (nodes bc)" using ok by (simp add: cache_ok_def)
  show ?thesis
  proof (cases "max_entries bc \<le> entries bc")
    case True
    moreover have "0 < unat (max_entries bc)" using False by (simp add: unat_gt_0)
    ultimately have pos: "0 < length (nodes bc)"
      unfolding word_le_nat_alt ents by linarith
    then have "unat (entries bc - 1) = length (butlast (nodes bc))"
      using ents by (subst u32_minus) (simp_all add: Suc_le_eq)
    then have 1: "cache_ok ift dev blksz lim B (bc\<lparr>nodes := butlast (nodes bc), entries := entries bc - 1\<rparr>)"
      by (intro cache_ok_subset [OF ok]) (auto dest: in_set_butlastD)
    have "unat (entries bc - 1 + 1) = Suc (length (butlast (nodes bc)))"
      using pos ents by simp
    with 1 node True False show ?thesis
      by (simp add: blkcache_fill_def Let_def cache_ok_def)
  next
    case 2: False
    then have "unat (entries bc + 1) = Suc (length (nodes bc))"
      using ents unat_u32_less [of "max_entries bc"] by (subst u32_plus) (auto simp: word_le_nat_alt)
    with ok node [of "[]"] 2 False show ?thesis
      by (simp add: blkcache_fill_def Let_def cache_ok_def)
  qed
qed (use ok in \<open>auto simp: blkcache_fill_def\<close>)

section \<open>A cached device is a device\<close>

text \<open>
  The driver below the cache: a block device that tells its block size as a machine word. The
  number of blocks fits in 32 bits.
\<close>

locale sized_device = block_device +
  fixes blksz :: "'a \<Rightarrow> ulong"
  assumes blksz_bsize: "inv s \<Longrightarrow> unat (blksz s) = bsize s"
    and nblks_less: "inv s \<Longrightarrow> nblks s < 2 ^ 32"
begin

definition cinv :: "int \<Rightarrow> int \<Rightarrow> 'a \<times> block_cache \<Rightarrow> bool" where
  "cinv ift dev s \<longleftrightarrow> inv (fst s) \<and> cache_ok ift dev (blksz (fst s)) (nblks (fst s)) (blocks (fst s)) (snd s)"

lemma blksz_cong: "inv s \<Longrightarrow> inv s' \<Longrightarrow> bsize s' = bsize s \<Longrightarrow> blksz s' = blksz s"
  using blksz_bsize by (metis unsigned_word_eqI)

lemma cached_read:
  assumes "cinv ift dev s" "0 < unat n" "unat start + unat n \<le> nblks (fst s)"
  shows "\<exists>r bs s'. blk_dread ift dev blksz bread start n s = Some (r, bs, s') \<and> cinv ift dev s'
    \<and> bsize (fst s') = bsize (fst s) \<and> nblks (fst s') = nblks (fst s) \<and> blocks (fst s') = blocks (fst s)
    \<and> (r = n \<or> r = 0) \<and> (r = n \<longrightarrow> bs = get_blocks (blocks (fst s)) (unat start) (unat n))"
proof -
  obtain d bc where s: "s = (d, bc)" by (cases s)
  have inv: "inv d" and ok: "cache_ok ift dev (blksz d) (nblks d) (blocks d) bc"
    using assms(1) by (simp_all add: cinv_def s)
  have len: "length (blocks d b) = unat (blksz d)" for b
    by (simp add: block_length [OF inv] blksz_bsize [OF inv])
  have lim: "unat start + unat n \<le> nblks d" using assms(3) by (simp add: s)
  obtain r bc1 where r: "blkcache_read ift dev start n (blksz d) bc = (r, bc1)"
    by (cases "blkcache_read ift dev start n (blksz d) bc")
  note rok = blkcache_read_ok [OF ok lim nblks_less [OF inv] len r]
  show ?thesis
  proof (cases r)
    case (Some buf)
    with rok inv r show ?thesis
      by (auto simp: blk_dread_def s cinv_def)
  next
    case None
    obtain k bs d' where k: "bread start n d = Some (k, bs, d')"
      using bread_result [OF inv assms(2) lim] by blast
    note d' = bread_ok [OF inv assms(2) lim k]
    have bk: "blksz d' = blksz d" by (rule blksz_cong [OF inv d'(1,2)])
    have "cache_ok ift dev (blksz d) (nblks d) (blocks d)
        (if k = n then blkcache_fill ift dev start n (blksz d) bs bc1 else bc1)"
      using rok(1) blkcache_fill_ok [OF rok(1) lim d'(6) len] by simp
    with None r k d' bk show ?thesis
      by (auto simp: blk_dread_def s cinv_def)
  qed
qed

lemma cached_write:
  assumes "cinv ift dev s" "unat start + unat n \<le> nblks (fst s)" "length src = unat n * bsize (fst s)"
  shows "\<exists>r s'. blk_dwrite ift dev bwrite start n src s = Some (r, s') \<and> cinv ift dev s'
    \<and> bsize (fst s') = bsize (fst s) \<and> nblks (fst s') = nblks (fst s) \<and> (r = n \<or> r = 0)
    \<and> (r = n \<longrightarrow> blocks (fst s') = put_blocks (bsize (fst s)) (blocks (fst s)) (unat start) (unat n) src)
    \<and> (\<forall>b. \<not> (unat start \<le> b \<and> b < unat start + unat n) \<longrightarrow> blocks (fst s') b = blocks (fst s) b)"
proof -
  obtain d bc where s: "s = (d, bc)" by (cases s)
  have inv: "inv d" and ok: "cache_ok ift dev (blksz d) (nblks d) (blocks d) bc"
    using assms(1) by (simp_all add: cinv_def s)
  have lim: "unat start + unat n \<le> nblks d" "length src = unat n * bsize d" using assms(2,3) by (simp_all add: s)
  obtain k d' where k: "bwrite start n src d = Some (k, d')"
    using bwrite_result [OF inv lim] by blast
  note d' = bwrite_ok [OF inv lim k]
  have "blksz d' = blksz d" by (rule blksz_cong [OF inv d'(1,2)])
  then have "cinv ift dev (d', blkcache_invalidate ift dev bc)"
    using d'(1) cache_ok_invalidate [OF ok] by (simp add: cinv_def)
  with k d' show ?thesis
    by (auto simp: blk_dwrite_def s)
qed

end

interpretation smmc: sized_device mmc_wf "\<lambda>m. unat (write_bl_len m)" "\<lambda>m. unat (lba m)" mmc_cells mmc_bread mmc_bwrite read_bl_len
proof (unfold_locales, goal_cases)
  case (1 m)
  then show ?case by (simp add: mmc_wf_def)
next
  case (2 m)
  show ?case by (rule unat_u32_less)
qed

text \<open>The cached MMC, device \<open>dev\<close> of interface type \<open>ift\<close>.\<close>

definition cmmc_inv :: "int \<Rightarrow> int \<Rightarrow> 'c mmc \<times> block_cache \<Rightarrow> bool" where
  "cmmc_inv ift dev s \<longleftrightarrow> mmc_wf (fst s)
     \<and> cache_ok ift dev (read_bl_len (fst s)) (unat (lba (fst s))) (mmc_cells (fst s)) (snd s)"

lemma cmmc_inv_cinv: "cmmc_inv ift dev = smmc.cinv ift dev"
  by (simp add: fun_eq_iff cmmc_inv_def smmc.cinv_def)

interpretation cmmc: block_device "cmmc_inv ift dev" "\<lambda>s. unat (write_bl_len (fst s))" "\<lambda>s. unat (lba (fst s))"
    "\<lambda>s. mmc_cells (fst s)" "blk_dread ift dev read_bl_len mmc_bread" "blk_dwrite ift dev mmc_bwrite" for ift dev
proof (unfold_locales, goal_cases)
  case (1 s b)
  then show ?case by (simp add: cmmc_inv_def mmc_wf_def mmc_cells_def)
next
  case 2
  then show ?case unfolding cmmc_inv_cinv by (rule smmc.cached_read)
next
  case 3
  then show ?case unfolding cmmc_inv_cinv by (rule smmc.cached_write)
qed

section \<open>Properties\<close>

text \<open>
  C19: A read through the block cache ends and, when it succeeds, returns the blocks the device
  holds at that moment, whether they come from the cache or from the card; the cache stays coherent.
\<close>

theorem blk_dread_coherent:
  assumes "cmmc_inv ift dev s" "0 < unat n" "unat start + unat n \<le> unat (lba (fst s))"
  shows "\<exists>r bs s'. blk_dread ift dev read_bl_len mmc_bread start n s = Some (r, bs, s') \<and> cmmc_inv ift dev s'
    \<and> mmc_cells (fst s') = mmc_cells (fst s) \<and> (r = n \<or> r = 0)
    \<and> (r = n \<longrightarrow> bs = get_blocks (mmc_cells (fst s)) (unat start) (unat n))"
  using cmmc.bread_result [OF assms] by blast

theorem blk_dread_coherent_witness:
  "\<exists>r bs s'. blk_dread 6 0 read_bl_len mmc_bread 3 2 (ram_mmc, blkcache_init) = Some (r, bs, s') \<and> cmmc_inv 6 0 s' \<and> (r = 2 \<or> r = 0)"
proof -
  have "cmmc_inv 6 0 (ram_mmc, blkcache_init)"
    using ram_mmc_wf by (simp add: cmmc_inv_def cache_ok_def blkcache_init_def) (simp add: ram_mmc_def)
  from blk_dread_coherent [OF this, of 2 3] show ?thesis
    by (auto simp: ram_mmc_def)
qed

text \<open>
  C20: After a successful write through the cache, a successful read returns what was written,
  although the blocks may have been in the cache before.
\<close>

theorem blk_dwrite_dread:
  assumes "cmmc_inv ift dev s" "0 < unat n" "unat start + unat n \<le> unat (lba (fst s))"
    "length src = unat n * unat (write_bl_len (fst s))"
    and "blk_dwrite ift dev mmc_bwrite start n src s = Some (n, s')"
    and "blk_dread ift dev read_bl_len mmc_bread start n s' = Some (n, bs, s'')"
  shows "bs = src"
  by (rule cmmc.bread_bwrite [OF assms])

text \<open>The state after block 3 has been read, so that it is in the cache.\<close>

definition warm_state :: "(unit mmc \<times> block_cache) option" where
  "warm_state = map_option (\<lambda>(_, _, s). s) (blk_dread 6 0 read_bl_len mmc_bread 3 1 (ram_mmc, blkcache_init))"

theorem blk_dwrite_dread_witness:
  "\<exists>s s' s''. warm_state = Some s \<and> length (nodes (snd s)) = 1
    \<and> blk_dwrite 6 0 mmc_bwrite 3 1 [7, 9, 7, 9] s = Some (1, s')
    \<and> blk_dread 6 0 read_bl_len mmc_bread 3 1 s' = Some (1, [7, 9, 7, 9], s'')"
proof -
  have "cmmc_inv 6 0 (ram_mmc, blkcache_init)"
    using ram_mmc_wf by (simp add: cmmc_inv_def cache_ok_def blkcache_init_def) (simp add: ram_mmc_def)
  moreover have "unat (3 :: 32 word) + unat (1 :: 32 word) \<le> unat (lba (fst (ram_mmc, blkcache_init)))"
    by (simp add: ram_mmc_def)
  ultimately obtain r bs s where s: "blk_dread 6 0 read_bl_len mmc_bread 3 1 (ram_mmc, blkcache_init) = Some (r, bs, s)"
      "cmmc_inv 6 0 s" "unat (write_bl_len (fst s)) = unat (write_bl_len ram_mmc)" "unat (lba (fst s)) = unat (lba ram_mmc)"
    using cmmc.bread_result [of 6 0 "(ram_mmc, blkcache_init)" 1 3] by auto
  have w: "warm_state = Some s" by (simp add: warm_state_def s(1))
  have "map_option (\<lambda>s. (length (nodes (snd s)), map_option fst (blk_dwrite 6 0 mmc_bwrite 3 1 [7, 9, 7, 9] s))) warm_state = Some (1, Some 1)"
    by code_simp
  then obtain s' where s': "length (nodes (snd s)) = 1" "blk_dwrite 6 0 mmc_bwrite 3 1 [7, 9, 7, 9] s = Some (1, s')"
    unfolding w by auto
  have "Option.bind warm_state (\<lambda>s. Option.bind (blk_dwrite 6 0 mmc_bwrite 3 1 [7, 9, 7, 9] s)
      (\<lambda>(_, s). map_option fst (blk_dread 6 0 read_bl_len mmc_bread 3 1 s))) = Some 1"
    by code_simp
  then obtain bs' s'' where s'': "blk_dread 6 0 read_bl_len mmc_bread 3 1 s' = Some (1, bs', s'')"
    unfolding w using s' by auto
  have "bs' = [7, 9, 7, 9]"
    by (rule blk_dwrite_dread [OF s(2) _ _ _ s'(2) s'']) (use s(3,4) in \<open>simp_all add: ram_mmc_def\<close>)
  with w s' s'' show ?thesis by blast
qed

text \<open>
  The key of a node has no hardware partition, and selecting another one does not invalidate
  the cache: a block of the boot partition reads as the block of the user area that was cached.
\<close>

lemma cached_other_partition:
  "map_option (\<lambda>(_, bs, m, bc). (bs, map_option (\<lambda>(_, bs', _). bs')
       (blk_dread 6 0 read_bl_len mmc_bread 0 1 (m\<lparr>card := (card m)\<lparr>access_part := 1\<rparr>\<rparr>, bc))))
     (blk_dread 6 0 read_bl_len mmc_bread 0 1
       (ram_mmc\<lparr>card := (card ram_mmc)\<lparr>cells := (\<lambda>p b. [of_nat p, of_nat b, 0, 0])\<rparr>\<rparr>, blkcache_init))
   = Some ([0, 0, 0, 0], Some [0, 0, 0, 0])"
  by code_simp

end
