(* ===== verification/Env_Mmc.thy ===== *)
theory Env_Mmc
  imports Env_Import C_Crc Blk_Cache
begin

text \<open>
  The environment on an MMC card: the checked binary form (\<open>env_import\<close>, \<open>env_export\<close>,
  \<open>set_default_env\<close> of \<^verbatim>\<open>common/env_common.c\<close>) and its storage (\<^verbatim>\<open>common/env_mmc.c\<close>), for builds
  with one and with two copies (\<open>CONFIG_ENV_OFFSET_REDUND\<close>, together with the
  \<open>CONFIG_SYS_REDUNDAND_ENVIRONMENT\<close> it needs), without encryption. The record \<open>env_cfg\<close> holds the configuration, the
  default environment and the functions of the MMC core these files call: whether the card is found,
  its initialisation and the selection of a hardware partition.
\<close>

section \<open>The binary form\<close>

record env_t =
  ecrc :: u32
  eserial :: u8
  etext :: "char list"

record 'c env_cfg =
  CONFIG_ENV_SIZE :: nat
  CONFIG_ENV_OFFSET :: int
  CONFIG_ENV_OFFSET_REDUND :: "int option"
  CONFIG_SYS_MMC_ENV_PART :: "u32 option"
  CONFIG_SYS_MMC_ENV_DEV :: int
  default_environment :: "char list"
  env_hk :: env_hooks
  match_re :: "char list \<Rightarrow> char list \<Rightarrow> bool"
  env_buf :: addr
  env_buf2 :: addr
  find_env_mmc :: "'c mmc \<times> block_cache \<Rightarrow> bool"
  init_env_mmc :: "'c mmc \<times> block_cache \<Rightarrow> int \<times> 'c mmc \<times> block_cache"
  env_hwpart :: "'c mmc \<times> block_cache \<Rightarrow> u32"
  select_hwpart :: "u32 \<Rightarrow> 'c mmc \<times> block_cache \<Rightarrow> int \<times> 'c mmc \<times> block_cache"
  capacity :: int

text \<open>The environment with its flag \<open>GD_FLG_ENV_DEFAULT\<close>, the card, \<open>gd->env_valid\<close> and the statics.\<close>

record 'c env_world =
  ew_env :: env_state
  ew_default :: bool
  ew_dev :: "'c mmc \<times> block_cache"
  ew_valid :: ulong
  ew_flags :: u8
  ew_hwpart :: u32

definition redund :: "'c env_cfg \<Rightarrow> bool" where
  "redund cfg \<longleftrightarrow> CONFIG_ENV_OFFSET_REDUND cfg \<noteq> None"

definition ENV_HEADER_SIZE :: "'c env_cfg \<Rightarrow> nat" where
  "ENV_HEADER_SIZE cfg = (if redund cfg then 4 + 1 else 4)"

definition ENV_SIZE :: "'c env_cfg \<Rightarrow> nat" where
  "ENV_SIZE cfg = CONFIG_ENV_SIZE cfg - ENV_HEADER_SIZE cfg"

text \<open>The layout of the structure in memory.\<close>

definition env_bytes :: "'c env_cfg \<Rightarrow> env_t \<Rightarrow> u8 list" where
  "env_bytes cfg e = le32_bytes (ecrc e) @ (if redund cfg then [eserial e] else []) @ map byte_of_char (etext e)"

definition env_of :: "'c env_cfg \<Rightarrow> u8 list \<Rightarrow> env_t" where
  "env_of cfg bs = \<lparr>ecrc = le32_of (take 4 bs), eserial = (if redund cfg then bs ! 4 else 0),
     etext = map char_of_byte (drop (ENV_HEADER_SIZE cfg) bs)\<rparr>"

definition env_crc :: "'c env_cfg \<Rightarrow> addr \<Rightarrow> char list \<Rightarrow> u32" where
  "env_crc cfg buf txt = crc32 0 (buf + of_nat (ENV_HEADER_SIZE cfg)) (map byte_of_char txt)"

definition H_INTERACTIVE :: u32 where "H_INTERACTIVE = 4"

definition set_default_env :: "'c env_cfg \<Rightarrow> char list option \<Rightarrow> 'c env_world \<Rightarrow> 'c env_world option" where
  "set_default_env cfg s w =
     (if ENV_SIZE cfg < length (default_environment cfg) then Some w
      else
        let flag = (case s of None \<Rightarrow> 0 | Some s \<Rightarrow> if peek s = CHR ''!'' then 0 else H_INTERACTIVE) in
        case himport_r (env_hk cfg) (default_environment cfg) NUL flag False [] (env_htab (ew_env w)) of
          None \<Rightarrow> None
        | Some (_, htab) \<Rightarrow>
            Some (w\<lparr>ew_env := (ew_env w)\<lparr>env_htab := htab, env_ready := True\<rparr>, ew_default := True\<rparr>))"

definition set_default_vars :: "'c env_cfg \<Rightarrow> char list list \<Rightarrow> 'c env_world \<Rightarrow> (bool \<times> 'c env_world) option" where
  "set_default_vars cfg vars w =
     map_option (\<lambda>(r, htab). (r, w\<lparr>ew_env := (ew_env w)\<lparr>env_htab := htab\<rparr>\<rparr>))
       (himport_r (env_hk cfg) (default_environment cfg) NUL (1 OR H_INTERACTIVE) False vars (env_htab (ew_env w)))"

definition env_import :: "'c env_cfg \<Rightarrow> addr \<Rightarrow> env_t \<Rightarrow> bool \<Rightarrow> 'c env_world \<Rightarrow> (int \<times> 'c env_world) option" where
  "env_import cfg buf ep check w =
     (if check \<and> env_crc cfg buf (etext ep) \<noteq> ecrc ep
      then map_option (\<lambda>w. (0, w)) (set_default_env cfg (Some ''!bad CRC'') w)
      else
        case himport_r (env_hk cfg) (etext ep) NUL 0 False [] (env_htab (ew_env w)) of
          None \<Rightarrow> None
        | Some (True, htab) \<Rightarrow> Some (1, w\<lparr>ew_env := (ew_env w)\<lparr>env_htab := htab, env_ready := True\<rparr>\<rparr>)
        | Some (False, htab) \<Rightarrow>
            map_option (\<lambda>w. (0, w))
              (set_default_env cfg (Some ''!import failed'') (w\<lparr>ew_env := (ew_env w)\<lparr>env_htab := htab\<rparr>\<rparr>)))"

text \<open>
  \<open>Inl\<close> is a non-zero return. The text is copied to the cleared data area; a text longer than the area
  overruns it. The serial number is set by the caller.
\<close>

definition env_export :: "'c env_cfg \<Rightarrow> env_state \<Rightarrow> (int + env_t) option" where
  "env_export cfg e =
     (case hexport_r (match_re cfg) (env_htab e) NUL 0 (ENV_SIZE cfg) [] of
        Inl _ \<Rightarrow> Some (Inl 1)
      | Inr (res, _) \<Rightarrow>
          if ENV_SIZE cfg < length res then None
          else
            let txt = res @ replicate (ENV_SIZE cfg - length res) NUL in
            Some (Inr \<lparr>ecrc = env_crc cfg (env_buf cfg) txt, eserial = 0, etext = txt\<rparr>))"

section \<open>The card\<close>

definition mmc_get_env_addr :: "'c env_cfg \<Rightarrow> bool \<Rightarrow> u32" where
  "mmc_get_env_addr cfg copy =
     (let offset = CONFIG_ENV_OFFSET cfg;
          offset = (case CONFIG_ENV_OFFSET_REDUND cfg of None \<Rightarrow> offset | Some r \<Rightarrow> if copy then r else offset);
          offset = (if offset < 0 then offset + capacity cfg else offset)
      in of_int offset)"

definition env_init :: "'c env_world \<Rightarrow> 'c env_world" where
  "env_init w = w\<lparr>ew_valid := 1\<rparr>"

definition mmc_set_env_part :: "'c env_cfg \<Rightarrow> 'c env_world \<Rightarrow> int \<times> 'c env_world" where
  "mmc_set_env_part cfg w =
     (case CONFIG_SYS_MMC_ENV_PART cfg of
        None \<Rightarrow> (0, w)
      | Some part \<Rightarrow>
          let w = w\<lparr>ew_hwpart := env_hwpart cfg (ew_dev w)\<rparr>; (ret, d) = select_hwpart cfg part (ew_dev w)
          in (ret, w\<lparr>ew_dev := d\<rparr>))"

definition init_mmc_for_env :: "'c env_cfg \<Rightarrow> 'c env_world \<Rightarrow> char list option \<times> 'c env_world" where
  "init_mmc_for_env cfg w =
     (if \<not> find_env_mmc cfg (ew_dev w) then (Some ''!No MMC card found'', w)
      else
        let (ret, d) = init_env_mmc cfg (ew_dev w); w = w\<lparr>ew_dev := d\<rparr> in
        if ret \<noteq> 0 then (Some ''!MMC init failed'', w)
        else
          let (ret, w) = mmc_set_env_part cfg w in
          (if ret \<noteq> 0 then Some ''!MMC partition switch failed'' else None, w))"

definition fini_mmc_for_env :: "'c env_cfg \<Rightarrow> 'c env_world \<Rightarrow> 'c env_world" where
  "fini_mmc_for_env cfg w =
     (if CONFIG_SYS_MMC_ENV_PART cfg = None then w
      else w\<lparr>ew_dev := snd (select_hwpart cfg (ew_hwpart w) (ew_dev w))\<rparr>)"

definition ALIGN :: "ulong \<Rightarrow> ulong \<Rightarrow> ulong" where
  "ALIGN x a = (x + (a - 1)) AND NOT (a - 1)"

text \<open>\<open>None\<close>: the blocks reach past the structure in memory.\<close>

definition write_env ::
  "'c env_cfg \<Rightarrow> ulong \<Rightarrow> u8 list \<Rightarrow> 'c mmc \<times> block_cache \<Rightarrow> (int \<times> 'c mmc \<times> block_cache) option" where
  "write_env cfg offset buffer d =
     (let bl = write_bl_len (fst d);
          blk_start = ALIGN offset bl div bl;
          blk_cnt = ALIGN (of_nat (CONFIG_ENV_SIZE cfg)) bl div bl
      in if length buffer < unat blk_cnt * unat bl then None
         else map_option (\<lambda>(n, d). (if n = blk_cnt then 0 else -1, d))
           (blk_dwrite 6 (CONFIG_SYS_MMC_ENV_DEV cfg) mmc_bwrite blk_start blk_cnt (take (unat blk_cnt * unat bl) buffer) d))"

definition read_env ::
  "'c env_cfg \<Rightarrow> ulong \<Rightarrow> 'c mmc \<times> block_cache \<Rightarrow> (int \<times> u8 list \<times> 'c mmc \<times> block_cache) option" where
  "read_env cfg offset d =
     (let bl = read_bl_len (fst d);
          blk_start = ALIGN offset bl div bl;
          blk_cnt = ALIGN (of_nat (CONFIG_ENV_SIZE cfg)) bl div bl
      in if CONFIG_ENV_SIZE cfg < unat blk_cnt * unat bl then None
         else map_option (\<lambda>(n, buffer, d). (if n = blk_cnt then 0 else -1, buffer, d))
           (blk_dread 6 (CONFIG_SYS_MMC_ENV_DEV cfg) read_bl_len mmc_bread blk_start blk_cnt d))"

definition saveenv_mmc :: "'c env_cfg \<Rightarrow> 'c env_world \<Rightarrow> (int \<times> 'c env_world) option" where
  "saveenv_mmc cfg w =
     (case init_mmc_for_env cfg w of
        (Some errmsg, w) \<Rightarrow> Some (1, w)
      | (None, w) \<Rightarrow>
          (case env_export cfg (ew_env w) of
             None \<Rightarrow> None
           | Some (Inl ret) \<Rightarrow> Some (ret, fini_mmc_for_env cfg w)
           | Some (Inr env_new) \<Rightarrow>
               let w = (if redund cfg then w\<lparr>ew_flags := ew_flags w + 1\<rparr> else w);
                   env_new = (if redund cfg then env_new\<lparr>eserial := ew_flags w\<rparr> else env_new);
                   copy = (redund cfg \<and> ew_valid w = 1);
                   offset = mmc_get_env_addr cfg copy
               in case write_env cfg offset (env_bytes cfg env_new) (ew_dev w) of
                    None \<Rightarrow> None
                  | Some (ret, d) \<Rightarrow>
                      let w = w\<lparr>ew_dev := d\<rparr> in
                      if ret \<noteq> 0 then Some (1, fini_mmc_for_env cfg w)
                      else
                        let w = (if redund cfg then w\<lparr>ew_valid := if ew_valid w = 2 then 1 else 2\<rparr> else w)
                        in Some (0, fini_mmc_for_env cfg w)))"

text \<open>The copy that is used, \<open>None\<close> when neither checksum is right.\<close>

definition choose_env :: "bool \<Rightarrow> bool \<Rightarrow> u8 \<Rightarrow> u8 \<Rightarrow> ulong option" where
  "choose_env crc1_ok crc2_ok f1 f2 =
     (if \<not> crc1_ok \<and> \<not> crc2_ok then None
      else if crc1_ok \<and> \<not> crc2_ok then Some 1
      else if \<not> crc1_ok \<and> crc2_ok then Some 2
      else if f1 = 255 \<and> f2 = 0 then Some 2
      else if f2 = 255 \<and> f1 = 0 then Some 1
      else if f1 > f2 then Some 1
      else if f2 > f1 then Some 2
      else Some 1)"

definition env_relocate_redund :: "'c env_cfg \<Rightarrow> 'c env_world \<Rightarrow> 'c env_world option" where
  "env_relocate_redund cfg w =
     (case init_mmc_for_env cfg w of
        (Some errmsg, w) \<Rightarrow> set_default_env cfg (Some errmsg) w
      | (None, w) \<Rightarrow>
          (case read_env cfg (mmc_get_env_addr cfg False) (ew_dev w) of
             None \<Rightarrow> None
           | Some (read1_fail, b1, d) \<Rightarrow>
               (case read_env cfg (mmc_get_env_addr cfg True) d of
                  None \<Rightarrow> None
                | Some (read2_fail, b2, d) \<Rightarrow>
                    let w = w\<lparr>ew_dev := d\<rparr>;
                        tmp_env1 = env_of cfg b1; tmp_env2 = env_of cfg b2;
                        crc1_ok = (read1_fail = 0 \<and> env_crc cfg (env_buf cfg) (etext tmp_env1) = ecrc tmp_env1);
                        crc2_ok = (read2_fail = 0 \<and> env_crc cfg (env_buf2 cfg) (etext tmp_env2) = ecrc tmp_env2)
                    in case choose_env crc1_ok crc2_ok (eserial tmp_env1) (eserial tmp_env2) of
                         None \<Rightarrow> set_default_env cfg (Some ''!bad CRC'') (fini_mmc_for_env cfg w)
                       | Some v \<Rightarrow>
                           let ep = (if v = 1 then tmp_env1 else tmp_env2);
                               buf = (if v = 1 then env_buf cfg else env_buf2 cfg)
                           in map_option (\<lambda>(_, w). fini_mmc_for_env cfg w)
                                (env_import cfg buf ep False (w\<lparr>ew_valid := v, ew_flags := eserial ep\<rparr>)))))"

definition env_relocate_single :: "'c env_cfg \<Rightarrow> 'c env_world \<Rightarrow> 'c env_world option" where
  "env_relocate_single cfg w =
     (case init_mmc_for_env cfg w of
        (Some errmsg, w) \<Rightarrow> set_default_env cfg (Some errmsg) w
      | (None, w) \<Rightarrow>
          (case read_env cfg (mmc_get_env_addr cfg False) (ew_dev w) of
             None \<Rightarrow> None
           | Some (fail, buf, d) \<Rightarrow>
               let w = w\<lparr>ew_dev := d\<rparr> in
               if fail \<noteq> 0 then set_default_env cfg (Some ''!read failed'') (fini_mmc_for_env cfg w)
               else map_option (\<lambda>(_, w). fini_mmc_for_env cfg w) (env_import cfg (env_buf cfg) (env_of cfg buf) True w)))"

definition env_relocate_spec :: "'c env_cfg \<Rightarrow> 'c env_world \<Rightarrow> 'c env_world option" where
  "env_relocate_spec cfg w = (if redund cfg then env_relocate_redund cfg w else env_relocate_single cfg w)"

definition env_relocate :: "'c env_cfg \<Rightarrow> 'c env_world \<Rightarrow> 'c env_world option" where
  "env_relocate cfg w =
     (if ew_valid w = 0 then set_default_env cfg (Some ''!bad CRC'') w else env_relocate_spec cfg w)"

section \<open>Areas of the card\<close>

lemma ALIGN_id: "take_bit k x = 0 \<Longrightarrow> ALIGN x (2 ^ k) = x"
proof -
  assume x: "take_bit k x = 0"
  then have "x AND mask k = 0" by (simp add: take_bit_eq_mask)
  then have "x + mask k = x OR mask k" by (rule disjunctive_add_eq_or)
  moreover have "(x OR mask k) AND NOT (mask k) = x"
  proof (rule bit_eqI)
    fix n
    have "\<not> (bit x n \<and> n < k)" using x bit_imp_le_length [of x n] by (auto simp: bit_eq_iff [of "take_bit k x"] bit_take_bit_iff)
    then show "bit ((x OR mask k) AND NOT (mask k)) n = bit x n"
      using bit_imp_le_length [of x n] by (auto simp: bit_simps)
  qed
  ultimately show ?thesis by (simp add: ALIGN_def mask_eq_exp_minus_1)
qed

text \<open>
  The card is found and initialised and has the hardware partition of the environment selected, so
  that the functions of the MMC core return at once.
\<close>

definition card_ready :: "'c env_cfg \<Rightarrow> bool" where
  "card_ready cfg \<longleftrightarrow> (\<forall>d. find_env_mmc cfg d \<and> init_env_mmc cfg d = (0, d) \<and> (\<forall>p. select_hwpart cfg p d = (0, d)))"

definition bl :: "'c mmc \<times> block_cache \<Rightarrow> nat" where
  "bl d = unat (write_bl_len (fst d))"

text \<open>The blocks of both copies are on the card, apart, and filled by the structure.\<close>

definition env_card :: "'c env_cfg \<Rightarrow> 'c mmc \<times> block_cache \<Rightarrow> bool" where
  "env_card cfg d \<longleftrightarrow> cmmc_inv 6 (CONFIG_SYS_MMC_ENV_DEV cfg) d
     \<and> (\<exists>k < 32. write_bl_len (fst d) = 2 ^ k) \<and> bl d dvd CONFIG_ENV_SIZE cfg
     \<and> ENV_HEADER_SIZE cfg < CONFIG_ENV_SIZE cfg \<and> CONFIG_ENV_SIZE cfg < 2 ^ 32
     \<and> (\<forall>copy. bl d dvd unat (mmc_get_env_addr cfg copy)
          \<and> unat (mmc_get_env_addr cfg copy) + CONFIG_ENV_SIZE cfg \<le> unat (lba (fst d)) * bl d)
     \<and> (redund cfg \<longrightarrow>
          unat (mmc_get_env_addr cfg False) + CONFIG_ENV_SIZE cfg \<le> unat (mmc_get_env_addr cfg True)
          \<or> unat (mmc_get_env_addr cfg True) + CONFIG_ENV_SIZE cfg \<le> unat (mmc_get_env_addr cfg False))"

definition same_card :: "'c mmc \<times> block_cache \<Rightarrow> 'c mmc \<times> block_cache \<Rightarrow> bool" where
  "same_card d d' \<longleftrightarrow> write_bl_len (fst d') = write_bl_len (fst d) \<and> lba (fst d') = lba (fst d) \<and> mmc_cells (fst d') = mmc_cells (fst d)"

definition area :: "'c env_cfg \<Rightarrow> 'c mmc \<times> block_cache \<Rightarrow> bool \<Rightarrow> u8 list" where
  "area cfg d copy =
     get_blocks (mmc_cells (fst d)) (unat (mmc_get_env_addr cfg copy) div bl d) (CONFIG_ENV_SIZE cfg div bl d)"

lemma area_same: "same_card d d' \<Longrightarrow> area cfg d' copy = area cfg d copy"
  by (simp add: same_card_def area_def bl_def)

lemma env_card_blocks:
  fixes copy :: bool
  assumes "env_card cfg d"
  defines "off \<equiv> mmc_get_env_addr cfg copy" and "w \<equiv> write_bl_len (fst d)" and "sz \<equiv> of_nat (CONFIG_ENV_SIZE cfg) :: ulong"
  shows "unat (ALIGN off w div w) = unat off div bl d" "unat (ALIGN sz w div w) = CONFIG_ENV_SIZE cfg div bl d"
    "CONFIG_ENV_SIZE cfg div bl d * bl d = CONFIG_ENV_SIZE cfg" "0 < CONFIG_ENV_SIZE cfg div bl d"
    "unat off div bl d + CONFIG_ENV_SIZE cfg div bl d \<le> unat (lba (fst d))"
proof -
  obtain k where k: "k < 32" "w = 2 ^ k" using assms(1) by (auto simp: env_card_def w_def)
  have u: "unat (2 ^ k :: ulong) = 2 ^ k"
    using power_strict_increasing [OF k(1), of "2 :: nat"] unat_of_nat_u32 [of "2 ^ k"] by simp
  then have b: "bl d = 2 ^ k" "0 < bl d" using k by (simp_all add: bl_def w_def)
  have dvd: "bl d dvd unat off" "bl d dvd CONFIG_ENV_SIZE cfg" and sz: "unat sz = CONFIG_ENV_SIZE cfg"
    using assms(1) unat_of_nat_u32 by (auto simp: env_card_def off_def sz_def)
  have tb: "take_bit k x = 0" if "bl d dvd unat x" for x :: ulong
  proof -
    have "unat (take_bit k x) = 0" using that by (simp add: b take_bit_eq_mod unat_mod u)
    then show ?thesis by (simp add: unat_eq_0)
  qed
  show "unat (ALIGN off w div w) = unat off div bl d" "unat (ALIGN sz w div w) = CONFIG_ENV_SIZE cfg div bl d"
    using ALIGN_id [OF tb [OF dvd(1)]] ALIGN_id [OF tb, of sz] dvd(2) sz unfolding k(2)
    by (simp_all add: unat_div bl_def w_def [symmetric] k(2))
  show m: "CONFIG_ENV_SIZE cfg div bl d * bl d = CONFIG_ENV_SIZE cfg" using dvd(2) by simp
  have pos: "0 < CONFIG_ENV_SIZE cfg" using assms(1) by (simp add: env_card_def)
  then show "0 < CONFIG_ENV_SIZE cfg div bl d" using m by (cases "CONFIG_ENV_SIZE cfg div bl d") auto
  have "unat off + CONFIG_ENV_SIZE cfg \<le> unat (lba (fst d)) * bl d"
    using assms(1) by (auto simp: env_card_def off_def)
  then have "(unat off div bl d + CONFIG_ENV_SIZE cfg div bl d) * bl d \<le> unat (lba (fst d)) * bl d"
    using dvd by (simp add: add_mult_distrib)
  then show "unat off div bl d + CONFIG_ENV_SIZE cfg div bl d \<le> unat (lba (fst d))" using b(2) by simp
qed

lemma env_card_inv:
  assumes "env_card cfg d"
  shows "cmmc_inv 6 (CONFIG_SYS_MMC_ENV_DEV cfg) d" "read_bl_len (fst d) = write_bl_len (fst d)"
proof -
  show "cmmc_inv 6 (CONFIG_SYS_MMC_ENV_DEV cfg) d" using assms by (simp add: env_card_def)
  then show "read_bl_len (fst d) = write_bl_len (fst d)" by (simp add: cmmc_inv_def mmc_wf_def)
qed

lemma env_card_keep:
  assumes "env_card cfg d" "cmmc_inv 6 (CONFIG_SYS_MMC_ENV_DEV cfg) d'"
    "unat (write_bl_len (fst d')) = unat (write_bl_len (fst d))" "unat (lba (fst d')) = unat (lba (fst d))"
  shows "env_card cfg d'"
proof -
  have "write_bl_len (fst d') = write_bl_len (fst d)" "lba (fst d') = lba (fst d)"
    using assms(3,4) by (auto intro: unsigned_word_eqI)
  then show ?thesis using assms(1,2) by (simp add: env_card_def bl_def)
qed

lemma same_cardI:
  assumes "unat (write_bl_len (fst d')) = unat (write_bl_len (fst d))" "unat (lba (fst d')) = unat (lba (fst d))"
    "mmc_cells (fst d') = mmc_cells (fst d)"
  shows "same_card d d'"
  using assms by (auto simp: same_card_def intro: unsigned_word_eqI)

lemma read_env_result:
  assumes "env_card cfg d"
  shows "\<exists>r bs d'. read_env cfg (mmc_get_env_addr cfg copy) d = Some (r, bs, d') \<and> env_card cfg d' \<and> same_card d d'
    \<and> (r = 0 \<longrightarrow> bs = area cfg d copy)"
proof -
  note c = env_card_blocks [OF assms]
  obtain r bs d' where r: "blk_dread 6 (CONFIG_SYS_MMC_ENV_DEV cfg) read_bl_len mmc_bread
      (ALIGN (mmc_get_env_addr cfg copy) (write_bl_len (fst d)) div write_bl_len (fst d))
      (ALIGN (of_nat (CONFIG_ENV_SIZE cfg)) (write_bl_len (fst d)) div write_bl_len (fst d)) d = Some (r, bs, d')"
    "cmmc_inv 6 (CONFIG_SYS_MMC_ENV_DEV cfg) d'" "unat (write_bl_len (fst d')) = unat (write_bl_len (fst d))"
    "unat (lba (fst d')) = unat (lba (fst d))" "mmc_cells (fst d') = mmc_cells (fst d)"
    "r = ALIGN (of_nat (CONFIG_ENV_SIZE cfg)) (write_bl_len (fst d)) div write_bl_len (fst d) \<longrightarrow> bs = area cfg d copy"
    using cmmc.bread_result [OF env_card_inv(1) [OF assms], of "ALIGN (of_nat (CONFIG_ENV_SIZE cfg)) (write_bl_len (fst d)) div write_bl_len (fst d)"
        "ALIGN (mmc_get_env_addr cfg copy) (write_bl_len (fst d)) div write_bl_len (fst d)"]
    unfolding c(1,2) area_def using c(4,5) by blast
  have "unat (ALIGN (of_nat (CONFIG_ENV_SIZE cfg)) (write_bl_len (fst d)) div write_bl_len (fst d)) * unat (write_bl_len (fst d)) = CONFIG_ENV_SIZE cfg"
    using c(3) unfolding c(1,2) by (simp add: bl_def)
  then show ?thesis
    using r env_card_keep [OF assms r(2-4)] env_card_inv(2) [OF assms] same_cardI [OF r(3-5)]
    by (auto simp: read_env_def Let_def)
qed

lemma write_env_result:
  assumes "env_card cfg d" "length buf = CONFIG_ENV_SIZE cfg"
  shows "\<exists>r d'. write_env cfg (mmc_get_env_addr cfg copy) buf d = Some (r, d') \<and> env_card cfg d'
    \<and> (r = 0 \<longrightarrow> area cfg d' copy = buf) \<and> (redund cfg \<longrightarrow> area cfg d' (\<not> copy) = area cfg d (\<not> copy))"
proof -
  note c = env_card_blocks [OF assms(1)]
  let ?s = "ALIGN (mmc_get_env_addr cfg copy) (write_bl_len (fst d)) div write_bl_len (fst d)"
  let ?n = "ALIGN (of_nat (CONFIG_ENV_SIZE cfg)) (write_bl_len (fst d)) div write_bl_len (fst d)"
  have len: "unat ?n * unat (write_bl_len (fst d)) = CONFIG_ENV_SIZE cfg"
    using c(3) unfolding c(1,2) by (simp add: bl_def)
  obtain r d' where r: "blk_dwrite 6 (CONFIG_SYS_MMC_ENV_DEV cfg) mmc_bwrite ?s ?n buf d = Some (r, d')"
    "cmmc_inv 6 (CONFIG_SYS_MMC_ENV_DEV cfg) d'" "unat (write_bl_len (fst d')) = unat (write_bl_len (fst d))"
    "unat (lba (fst d')) = unat (lba (fst d))"
    "r = ?n \<longrightarrow> mmc_cells (fst d') = put_blocks (bl d) (mmc_cells (fst d)) (unat ?s) (unat ?n) buf"
    "\<forall>b. \<not> (unat ?s \<le> b \<and> b < unat ?s + unat ?n) \<longrightarrow> mmc_cells (fst d') b = mmc_cells (fst d) b"
    using cmmc.bwrite_result [OF env_card_inv(1) [OF assms(1)], of ?s ?n buf] len assms(2) c(5) [of copy]
    unfolding bl_def [symmetric] c(1,2) by auto
  have bl: "bl d' = bl d" using r(3) by (simp add: bl_def)
  have "r = ?n \<longrightarrow> area cfg d' copy = buf"
    using r(5) get_put_blocks [of buf "unat ?n" "bl d"] assms(2) c(3) unfolding c(1,2) area_def bl by simp
  moreover have "area cfg d' (\<not> copy) = area cfg d (\<not> copy)" if "redund cfg"
    unfolding area_def bl
  proof (rule get_blocks_cong)
    fix b
    assume b: "unat (mmc_get_env_addr cfg (\<not> copy)) div bl d \<le> b"
      "b < unat (mmc_get_env_addr cfg (\<not> copy)) div bl d + CONFIG_ENV_SIZE cfg div bl d"
    let ?o = "unat (mmc_get_env_addr cfg copy)" and ?p = "unat (mmc_get_env_addr cfg (\<not> copy))"
    have "?o + CONFIG_ENV_SIZE cfg \<le> ?p \<or> ?p + CONFIG_ENV_SIZE cfg \<le> ?o"
      using assms(1) that by (cases copy) (auto simp: env_card_def)
    moreover have "bl d dvd ?o" "bl d dvd ?p" "bl d dvd CONFIG_ENV_SIZE cfg"
      using assms(1) by (auto simp: env_card_def)
    ultimately have "?o div bl d + CONFIG_ENV_SIZE cfg div bl d \<le> ?p div bl d \<or> ?p div bl d + CONFIG_ENV_SIZE cfg div bl d \<le> ?o div bl d"
      using div_le_mono by (metis div_plus_div_distrib_dvd_left)
    then show "mmc_cells (fst d') b = mmc_cells (fst d) b" using r(6) b unfolding c(1,2) by auto
  qed
  ultimately show ?thesis
    using r(1) len assms(2) env_card_keep [OF assms(1) r(2-4)]
    by (auto simp: write_env_def Let_def)
qed

section \<open>Images\<close>

lemma env_of_bytes:
  assumes "redund cfg \<or> eserial e = 0"
  shows "env_of cfg (env_bytes cfg e) = e"
  using assms by (cases e) (auto simp: env_of_def env_bytes_def ENV_HEADER_SIZE_def le32_of_bytes nth_append o_def)

definition img :: "'c env_cfg \<Rightarrow> 'c mmc \<times> block_cache \<Rightarrow> bool \<Rightarrow> env_t" where
  "img cfg d copy = env_of cfg (area cfg d copy)"

definition good_crc :: "env_t \<Rightarrow> bool" where
  "good_crc e \<longleftrightarrow> crc32 0 0 (map byte_of_char (etext e)) = ecrc e"

lemma env_crc_good: "env_crc cfg buf (etext e) = ecrc e \<longleftrightarrow> good_crc e"
  by (simp add: env_crc_def good_crc_def crc32_fold)

text \<open>Importing the image gives the variables \<open>V\<close>, whatever the table was before.\<close>

definition holds :: "'c env_cfg \<Rightarrow> env_t \<Rightarrow> (char list \<Rightarrow> char list option) \<Rightarrow> bool" where
  "holds cfg e V \<longleftrightarrow> (\<forall>h. \<exists>h'. himport_r (env_hk cfg) (etext e) NUL 0 False [] h = Some (True, h') \<and> hinv h' \<and> habs h' = V)"

text \<open>
  An environment that can be stored: proper names, non-empty values without backslashes, and no more
  variables than the table made for the text holds.
\<close>

definition storable :: "'c env_cfg \<Rightarrow> env_state \<Rightarrow> bool" where
  "storable cfg e \<longleftrightarrow> env_inv e
     \<and> (\<forall>i. live (env_htab e) i \<longrightarrow> entry_ok NUL (entry (table (env_htab e) ! i)) \<and> CHR 0x5C \<notin> set (data (entry (table (env_htab e) ! i))))
     \<and> filled (env_htab e) \<le> min (CONFIG_ENV_MIN_ENTRIES + ENV_SIZE cfg div 8) CONFIG_ENV_MAX_ENTRIES"

lemma env_export_result:
  assumes "storable cfg e" "permissive (env_hk cfg)" "0 < ENV_SIZE cfg"
  shows "env_export cfg e = Some (Inl 1)
    \<or> (\<exists>i. env_export cfg e = Some (Inr i) \<and> good_crc i \<and> eserial i = 0 \<and> length (etext i) = ENV_SIZE cfg \<and> holds cfg i (env_vars e))"
proof (cases "hexport_r (match_re cfg) (env_htab e) NUL 0 (ENV_SIZE cfg) []")
  case (Inr x)
  then obtain out n where out: "hexport_r (match_re cfg) (env_htab e) NUL 0 (ENV_SIZE cfg) [] = Inr (out, n)"
    by (cases x) auto
  have inv: "hinv (env_htab e)" "\<forall>i. live (env_htab e) i \<longrightarrow> entry_ok NUL (entry (table (env_htab e) ! i))"
    using assms(1) by (auto simp: storable_def env_inv_def)
  have "CHR 0x5C \<notin> set (data x)" if "x \<in> set (export_list (match_re cfg) (env_htab e) 0 [])" for x
    using that assms(1) live_list [of "env_htab e"] unfolding export_list_all storable_def by fastforce
  then have "length out \<le> n"
    using length_export_text [of "export_list (match_re cfg) (env_htab e) 0 []" NUL] out
    by (auto simp: hexport_r_def Let_def split: if_splits)
  moreover have "n = ENV_SIZE cfg" using out assms(3) by (auto simp: hexport_r_def Let_def split: if_splits)
  ultimately have len: "length out \<le> ENV_SIZE cfg" by simp
  let ?t = "out @ replicate (ENV_SIZE cfg - length out) NUL"
  have few: "filled (env_htab e) \<le> min (CONFIG_ENV_MIN_ENTRIES + length ?t div 8) CONFIG_ENV_MAX_ENTRIES"
    using assms(1) len by (simp add: storable_def)
  have "import_sep NUL" by (simp add: import_sep_def)
  from import_export [OF inv(1) this assms(2) inv(2) out few]
  have "holds cfg \<lparr>ecrc = env_crc cfg (env_buf cfg) ?t, eserial = 0, etext = ?t\<rparr> (env_vars e)"
    by (auto simp: holds_def env_vars_def)
  moreover have "good_crc \<lparr>ecrc = env_crc cfg (env_buf cfg) ?t, eserial = 0, etext = ?t\<rparr>"
    using env_crc_good [of cfg "env_buf cfg" "\<lparr>ecrc = env_crc cfg (env_buf cfg) ?t, eserial = 0, etext = ?t\<rparr>"] by simp
  ultimately show ?thesis using out len by (simp add: env_export_def Let_def)
qed (simp add: env_export_def)

section \<open>Saving\<close>

lemma ready_init:
  assumes "card_ready cfg"
  shows "\<exists>p. init_mmc_for_env cfg w = (None, w\<lparr>ew_hwpart := p\<rparr>)" "fini_mmc_for_env cfg w = w"
proof -
  have c: "find_env_mmc cfg d" "init_env_mmc cfg d = (0, d)" "select_hwpart cfg p d = (0, d)" for d p
    using assms unfolding card_ready_def by blast+
  have "init_mmc_for_env cfg w = (None, w\<lparr>ew_hwpart := if CONFIG_SYS_MMC_ENV_PART cfg = None then ew_hwpart w else env_hwpart cfg (ew_dev w)\<rparr>)"
    by (cases "CONFIG_SYS_MMC_ENV_PART cfg") (simp_all add: init_mmc_for_env_def mmc_set_env_part_def Let_def c)
  then show "\<exists>p. init_mmc_for_env cfg w = (None, w\<lparr>ew_hwpart := p\<rparr>)" by blast
  show "fini_mmc_for_env cfg w = w" by (simp add: fini_mmc_for_env_def c)
qed

lemma save_result:
  assumes "card_ready cfg" "env_card cfg (ew_dev w)" "storable cfg (ew_env w)" "permissive (env_hk cfg)"
  defines "copy \<equiv> redund cfg \<and> ew_valid w = 1"
  shows "\<exists>ret w'. saveenv_mmc cfg w = Some (ret, w') \<and> env_card cfg (ew_dev w')
    \<and> (redund cfg \<longrightarrow> img cfg (ew_dev w') (\<not> copy) = img cfg (ew_dev w) (\<not> copy))
    \<and> (ret = 0 \<longrightarrow> good_crc (img cfg (ew_dev w') copy) \<and> holds cfg (img cfg (ew_dev w') copy) (env_vars (ew_env w))
        \<and> (redund cfg \<longrightarrow> eserial (img cfg (ew_dev w') copy) = ew_flags w + 1 \<and> ew_flags w' = ew_flags w + 1
             \<and> ew_valid w' = (if ew_valid w = 2 then 1 else 2)))
    \<and> (ret \<noteq> 0 \<longrightarrow> ew_valid w' = ew_valid w)"
proof -
  obtain p where init: "init_mmc_for_env cfg w = (None, w\<lparr>ew_hwpart := p\<rparr>)" using ready_init(1) [OF assms(1)] by blast
  have pos: "0 < ENV_SIZE cfg" using assms(2) by (simp add: env_card_def ENV_SIZE_def)
  consider "env_export cfg (ew_env w) = Some (Inl 1)"
    | i where "env_export cfg (ew_env w) = Some (Inr i)" "good_crc i" "eserial i = 0" "length (etext i) = ENV_SIZE cfg"
      "holds cfg i (env_vars (ew_env w))"
    using env_export_result [OF assms(3,4) pos] by blast
  then show ?thesis
  proof cases
    case 1
    then show ?thesis using init assms(2) ready_init(2) [OF assms(1)] by (simp add: saveenv_mmc_def)
  next
    case 2
    define j where "j = (if redund cfg then i\<lparr>eserial := ew_flags w + 1\<rparr> else i)"
    have j: "good_crc j" "holds cfg j (env_vars (ew_env w))" "etext j = etext i" "redund cfg \<or> eserial j = 0"
      "redund cfg \<longrightarrow> eserial j = ew_flags w + 1"
      using 2 by (auto simp: j_def good_crc_def holds_def)
    have "length (env_bytes cfg j) = CONFIG_ENV_SIZE cfg"
      using 2(4) j(3) assms(2) by (simp add: env_bytes_def ENV_SIZE_def ENV_HEADER_SIZE_def env_card_def)
    from write_env_result [OF assms(2) this, of copy] obtain r d where
      r: "write_env cfg (mmc_get_env_addr cfg copy) (env_bytes cfg j) (ew_dev w) = Some (r, d)" "env_card cfg d"
      "r = 0 \<longrightarrow> img cfg d copy = j" "redund cfg \<longrightarrow> img cfg d (\<not> copy) = img cfg (ew_dev w) (\<not> copy)"
      using env_of_bytes [OF j(4)] by (auto simp: img_def)
    show ?thesis
    proof (cases "redund cfg")
      case True
      then show ?thesis
        using init 2(1) r j ready_init(2) [OF assms(1)]
        by (cases "r = 0") (simp_all add: saveenv_mmc_def Let_def j_def copy_def)
    next
      case False
      then show ?thesis
        using init 2(1) r j ready_init(2) [OF assms(1)]
        by (cases "r = 0") (simp_all add: saveenv_mmc_def Let_def j_def copy_def)
    qed
  qed
qed

section \<open>Booting\<close>

text \<open>All reads of the relocation go through.\<close>

definition reads_env :: "'c env_cfg \<Rightarrow> 'c mmc \<times> block_cache \<Rightarrow> bool" where
  "reads_env cfg d \<longleftrightarrow>
     (case read_env cfg (mmc_get_env_addr cfg False) d of
        Some (r, _, d1) \<Rightarrow> r = 0 \<and> (redund cfg \<longrightarrow> map_option fst (read_env cfg (mmc_get_env_addr cfg True) d1) = Some 0)
      | None \<Rightarrow> False)"

lemma env_import_holds:
  assumes "holds cfg e V" "check \<longrightarrow> good_crc e"
  shows "\<exists>h. env_import cfg buf e check w = Some (1, w\<lparr>ew_env := (ew_env w)\<lparr>env_htab := h, env_ready := True\<rparr>\<rparr>) \<and> hinv h \<and> habs h = V"
proof -
  obtain h where "himport_r (env_hk cfg) (etext e) NUL 0 False [] (env_htab (ew_env w)) = Some (True, h)" "hinv h" "habs h = V"
    using assms(1) unfolding holds_def by blast
  then show ?thesis using assms(2) by (intro exI [of _ h]) (simp add: env_import_def env_crc_good)
qed

lemma boot_single:
  assumes "\<not> redund cfg" "card_ready cfg" "env_card cfg (ew_dev w)" "reads_env cfg (ew_dev w)"
    "good_crc (img cfg (ew_dev w) False)" "holds cfg (img cfg (ew_dev w) False) V"
  shows "\<exists>w'. env_relocate_spec cfg w = Some w' \<and> env_inv (ew_env w') \<and> env_vars (ew_env w') = V
    \<and> env_card cfg (ew_dev w') \<and> same_card (ew_dev w) (ew_dev w')"
proof -
  obtain p where init: "init_mmc_for_env cfg w = (None, w\<lparr>ew_hwpart := p\<rparr>)" using ready_init(1) [OF assms(2)] by blast
  obtain bs d where r: "read_env cfg (mmc_get_env_addr cfg False) (ew_dev w) = Some (0, bs, d)" "env_card cfg d"
    "same_card (ew_dev w) d" "env_of cfg bs = img cfg (ew_dev w) False"
    using read_env_result [OF assms(3), of False] assms(4) by (auto simp: reads_env_def img_def)
  obtain h where "env_import cfg (env_buf cfg) (img cfg (ew_dev w) False) True (w\<lparr>ew_hwpart := p, ew_dev := d\<rparr>) =
      Some (1, (w\<lparr>ew_hwpart := p, ew_dev := d\<rparr>)\<lparr>ew_env := (ew_env w)\<lparr>env_htab := h, env_ready := True\<rparr>\<rparr>)" "hinv h" "habs h = V"
    using env_import_holds [OF assms(6), of True "env_buf cfg" "w\<lparr>ew_hwpart := p, ew_dev := d\<rparr>"] assms(5) by auto
  then show ?thesis
    using init r assms(1) ready_init(2) [OF assms(2)]
    by (simp add: env_relocate_spec_def env_relocate_single_def Let_def env_inv_def env_vars_def)
qed

text \<open>
  Two copies on the card: the active one is good, holds the variables \<open>V\<close> and has the serial number
  \<open>f\<close>; the other is broken or the one before it.
\<close>

definition redund_ok :: "'c env_cfg \<Rightarrow> 'c mmc \<times> block_cache \<Rightarrow> bool \<Rightarrow> u8 \<Rightarrow> (char list \<Rightarrow> char list option) \<Rightarrow> bool" where
  "redund_ok cfg d act f V \<longleftrightarrow> good_crc (img cfg d act) \<and> eserial (img cfg d act) = f \<and> holds cfg (img cfg d act) V
     \<and> (good_crc (img cfg d (\<not> act)) \<longrightarrow> eserial (img cfg d (\<not> act)) = f - 1)"

lemma redund_ok_same: "same_card d d' \<Longrightarrow> redund_ok cfg d' act f V = redund_ok cfg d act f V"
  by (simp add: redund_ok_def img_def area_same)

lemma u8_prev: "(f :: u8) - 1 < f \<or> f = 0"
  by (cases "f = 0") (simp_all add: word_less_nat_alt unat_minus_one unat_gt_0)

lemma choose_first: "(g \<Longrightarrow> f2 = f1 - 1) \<Longrightarrow> choose_env True g f1 f2 = Some 1"
  using u8_prev [of f1] by (cases "f1 = 0"; cases g) (auto simp: choose_env_def)

lemma choose_second: "(g \<Longrightarrow> f1 = f2 - 1) \<Longrightarrow> choose_env g True f1 f2 = Some 2"
  using u8_prev [of f2] by (cases "f2 = 0"; cases g) (auto simp: choose_env_def)

lemma boot_redund:
  assumes "redund cfg" "card_ready cfg" "env_card cfg (ew_dev w)" "reads_env cfg (ew_dev w)" "redund_ok cfg (ew_dev w) act f V"
  shows "\<exists>w'. env_relocate_spec cfg w = Some w' \<and> env_inv (ew_env w') \<and> env_vars (ew_env w') = V
    \<and> env_card cfg (ew_dev w') \<and> same_card (ew_dev w) (ew_dev w') \<and> ew_valid w' = (if act then 2 else 1) \<and> ew_flags w' = f"
proof -
  obtain p where init: "init_mmc_for_env cfg w = (None, w\<lparr>ew_hwpart := p\<rparr>)" using ready_init(1) [OF assms(2)] by blast
  obtain b1 d1 where r1: "read_env cfg (mmc_get_env_addr cfg False) (ew_dev w) = Some (0, b1, d1)" "env_card cfg d1"
    "same_card (ew_dev w) d1" "env_of cfg b1 = img cfg (ew_dev w) False"
    using read_env_result [OF assms(3), of False] assms(4) by (auto simp: reads_env_def img_def)
  obtain b2 d2 where r2: "read_env cfg (mmc_get_env_addr cfg True) d1 = Some (0, b2, d2)" "env_card cfg d2"
    "same_card d1 d2" "env_of cfg b2 = img cfg (ew_dev w) True"
    using read_env_result [OF r1(2), of True] assms(1,4) r1(1) area_same [OF r1(3)] by (auto simp: reads_env_def img_def)
  have same: "same_card (ew_dev w) d2" using r1(3) r2(3) by (simp add: same_card_def)
  let ?i1 = "img cfg (ew_dev w) False" and ?i2 = "img cfg (ew_dev w) True"
  have ch: "choose_env (good_crc ?i1) (good_crc ?i2) (eserial ?i1) (eserial ?i2) = Some (if act then 2 else 1)"
    using assms(5) choose_first [of "good_crc ?i2" "eserial ?i2" "eserial ?i1"] choose_second [of "good_crc ?i1" "eserial ?i1" "eserial ?i2"]
    by (cases act) (simp_all add: redund_ok_def)
  let ?w = "w\<lparr>ew_hwpart := p, ew_dev := d2, ew_valid := if act then 2 else 1, ew_flags := f\<rparr>"
  have act: "holds cfg (img cfg (ew_dev w) act) V" "eserial (img cfg (ew_dev w) act) = f"
    using assms(5) by (simp_all add: redund_ok_def)
  obtain h where "env_import cfg (if act then env_buf2 cfg else env_buf cfg) (img cfg (ew_dev w) act) False ?w =
      Some (1, ?w\<lparr>ew_env := (ew_env w)\<lparr>env_htab := h, env_ready := True\<rparr>\<rparr>)" "hinv h" "habs h = V"
    using env_import_holds [OF act(1), of False "if act then env_buf2 cfg else env_buf cfg" ?w] by auto
  then show ?thesis
    using init r1 r2 same ch assms(1) act(2) ready_init(2) [OF assms(2)]
    by (cases act) (simp_all add: env_relocate_spec_def env_relocate_redund_def Let_def env_crc_good env_inv_def env_vars_def)
qed

text \<open>
  After the next boot the environment is \<open>V\<close>, however the memory was before, when the card is the same
  and can be read.
\<close>

definition boots_to :: "'c env_cfg \<Rightarrow> 'c mmc \<times> block_cache \<Rightarrow> (char list \<Rightarrow> char list option) \<Rightarrow> bool" where
  "boots_to cfg d V \<longleftrightarrow>
     (\<forall>w. same_card d (ew_dev w) \<and> env_card cfg (ew_dev w) \<and> reads_env cfg (ew_dev w) \<longrightarrow>
        (\<exists>w'. env_relocate cfg (env_init w) = Some w' \<and> env_inv (ew_env w') \<and> env_vars (ew_env w') = V))"

lemma boots_to_redund:
  assumes "redund cfg" "card_ready cfg" "redund_ok cfg d act f V"
  shows "boots_to cfg d V"
  unfolding boots_to_def
proof (intro allI impI, elim conjE)
  fix w :: "'a env_world"
  assume w: "same_card d (ew_dev w)" "env_card cfg (ew_dev w)" "reads_env cfg (ew_dev w)"
  have "redund_ok cfg (ew_dev (env_init w)) act f V" using assms(3) redund_ok_same [OF w(1)] by (simp add: env_init_def)
  from boot_redund [OF assms(1,2) _ _ this] w(2,3)
  show "\<exists>w'. env_relocate cfg (env_init w) = Some w' \<and> env_inv (ew_env w') \<and> env_vars (ew_env w') = V"
    by (auto simp: env_relocate_def env_init_def)
qed

lemma boots_to_single:
  assumes "\<not> redund cfg" "card_ready cfg" "good_crc (img cfg d False)" "holds cfg (img cfg d False) V"
  shows "boots_to cfg d V"
  unfolding boots_to_def
proof (intro allI impI, elim conjE)
  fix w :: "'a env_world"
  assume w: "same_card d (ew_dev w)" "env_card cfg (ew_dev w)" "reads_env cfg (ew_dev w)"
  have "img cfg (ew_dev (env_init w)) False = img cfg d False" using area_same [OF w(1)] by (simp add: img_def env_init_def)
  with boot_single [OF assms(1,2), of "env_init w" V] assms(3,4) w(2,3)
  show "\<exists>w'. env_relocate cfg (env_init w) = Some w' \<and> env_inv (ew_env w') \<and> env_vars (ew_env w') = V"
    by (auto simp: env_relocate_def env_init_def)
qed

text \<open>
  C10: A saved environment survives a reboot. In a build with one copy, \<open>saveenv\<close> of a storable
  environment ends, and when it reports success every later boot from this card that can read it
  finds exactly the variables that were saved.
\<close>

theorem save_then_boot:
  assumes "\<not> redund cfg" "card_ready cfg" "permissive (env_hk cfg)" "env_card cfg (ew_dev w)" "storable cfg (ew_env w)"
  shows "\<exists>ret w'. saveenv_mmc cfg w = Some (ret, w') \<and> (ret = 0 \<longrightarrow> boots_to cfg (ew_dev w') (env_vars (ew_env w)))"
proof -
  from save_result [OF assms(2,4,5,3)] obtain ret w' where "saveenv_mmc cfg w = Some (ret, w')"
    "ret = 0 \<longrightarrow> good_crc (img cfg (ew_dev w') False) \<and> holds cfg (img cfg (ew_dev w') False) (env_vars (ew_env w))"
    using assms(1) by auto
  then show ?thesis using boots_to_single [OF assms(1,2), of "ew_dev w'"] by blast
qed

text \<open>One variable, on the card of eight blocks.\<close>

definition envdemo_cfg :: "unit env_cfg" where
  "envdemo_cfg = \<lparr>CONFIG_ENV_SIZE = 12, CONFIG_ENV_OFFSET = 0, CONFIG_ENV_OFFSET_REDUND = None, CONFIG_SYS_MMC_ENV_PART = Some 0,
     CONFIG_SYS_MMC_ENV_DEV = 0, default_environment = [NUL], env_hk = no_hooks, match_re = (\<lambda>_ _. False), env_buf = 64, env_buf2 = 96,
     find_env_mmc = (\<lambda>_. True), init_env_mmc = (\<lambda>d. (0, d)), env_hwpart = (\<lambda>_. 0), select_hwpart = (\<lambda>_ d. (0, d)), capacity = 64\<rparr>"

definition envdemo_cfg2 :: "unit env_cfg" where
  "envdemo_cfg2 = envdemo_cfg\<lparr>CONFIG_ENV_OFFSET_REDUND := Some 12\<rparr>"

definition envdemo_world :: "unit env_world" where
  "envdemo_world = \<lparr>ew_env = \<lparr>env_htab = table5_a, env_ready = True, env_id = 0\<rparr>, ew_default = False,
     ew_dev = (ram_mmc, blkcache_init), ew_valid = 2, ew_flags = 254, ew_hwpart = 0\<rparr>"

lemma envdemo_storable: "storable envdemo_cfg (ew_env envdemo_world)" "storable envdemo_cfg2 (ew_env envdemo_world)"
proof -
  have "filled (env_htab (ew_env envdemo_world)) \<le> min (CONFIG_ENV_MIN_ENTRIES + ENV_SIZE envdemo_cfg div 8) CONFIG_ENV_MAX_ENTRIES"
    "filled (env_htab (ew_env envdemo_world)) \<le> min (CONFIG_ENV_MIN_ENTRIES + ENV_SIZE envdemo_cfg2 div 8) CONFIG_ENV_MAX_ENTRIES"
    "entry_ok NUL (entry (table table5_a ! 3))" "CHR 0x5C \<notin> set (data (entry (table table5_a ! 3)))"
    by code_simp+
  then show "storable envdemo_cfg (ew_env envdemo_world)" "storable envdemo_cfg2 (ew_env envdemo_world)"
    using hinv_table5_a live_table5_a by (auto simp: storable_def env_inv_def envdemo_world_def dest!: live_table5_a)
qed

lemma envdemo_ready: "card_ready envdemo_cfg" "card_ready envdemo_cfg2" "permissive (env_hk envdemo_cfg)" "permissive (env_hk envdemo_cfg2)"
  using permissive_no_hooks by (simp_all add: card_ready_def envdemo_cfg2_def envdemo_cfg_def)

lemma envdemo_card: "env_card envdemo_cfg (ew_dev envdemo_world)" "env_card envdemo_cfg2 (ew_dev envdemo_world)"
proof -
  have inv: "cmmc_inv 6 0 (ram_mmc, blkcache_init)"
    using ram_mmc_wf by (simp add: cmmc_inv_def cache_ok_def blkcache_init_def) (simp add: ram_mmc_def)
  have "\<exists>k < 32. write_bl_len ram_mmc = 2 ^ k" by (rule exI [of _ 2]) (simp add: ram_mmc_def)
  moreover have "unat (write_bl_len ram_mmc) = 4" "unat (lba ram_mmc) = 8" by (simp_all add: ram_mmc_def)
  ultimately show "env_card envdemo_cfg (ew_dev envdemo_world)" "env_card envdemo_cfg2 (ew_dev envdemo_world)"
    using inv by (simp_all add: env_card_def envdemo_world_def envdemo_cfg2_def envdemo_cfg_def bl_def ENV_HEADER_SIZE_def redund_def mmc_get_env_addr_def)
qed

theorem save_then_boot_witness:
  "\<exists>w'. saveenv_mmc envdemo_cfg envdemo_world = Some (0, w') \<and> boots_to envdemo_cfg (ew_dev w') (env_vars (ew_env envdemo_world))"
proof -
  have "map_option fst (saveenv_mmc envdemo_cfg envdemo_world) = Some 0" by code_simp
  moreover have "\<not> redund envdemo_cfg" by (simp add: redund_def envdemo_cfg_def)
  ultimately show ?thesis
    using save_then_boot [OF _ envdemo_ready(1,3) envdemo_card(1) envdemo_storable(1)] by auto
qed

text \<open>
  C9: With two copies saving is atomic. When the card holds the variables \<open>V\<close> in its active copy,
  \<open>saveenv\<close> ends. After a success the other copy is active, with the next serial number even across
  the wrap-around from 255 to 0, and the next boot finds the saved variables. After a failure that leaves the other
  copy with a wrong checksum the next boot still finds \<open>V\<close>.
\<close>

theorem redund_save_atomic:
  assumes "redund cfg" "card_ready cfg" "permissive (env_hk cfg)" "env_card cfg (ew_dev w)" "storable cfg (ew_env w)"
    and "ew_valid w = (if act then 2 else 1)" "redund_ok cfg (ew_dev w) act (ew_flags w) V"
  shows "\<exists>ret w'. saveenv_mmc cfg w = Some (ret, w')
    \<and> (ret = 0 \<longrightarrow> ew_valid w' = (if act then 1 else 2)
         \<and> redund_ok cfg (ew_dev w') (\<not> act) (ew_flags w') (env_vars (ew_env w)) \<and> boots_to cfg (ew_dev w') (env_vars (ew_env w)))
    \<and> (ret \<noteq> 0 \<and> \<not> good_crc (img cfg (ew_dev w') (\<not> act)) \<longrightarrow> boots_to cfg (ew_dev w') V)"
proof -
  have copy: "(redund cfg \<and> ew_valid w = 1) = (\<not> act)" using assms(1,6) by simp
  obtain ret w' where r: "saveenv_mmc cfg w = Some (ret, w')" "img cfg (ew_dev w') act = img cfg (ew_dev w) act"
    "ret = 0 \<longrightarrow> good_crc (img cfg (ew_dev w') (\<not> act)) \<and> holds cfg (img cfg (ew_dev w') (\<not> act)) (env_vars (ew_env w))
       \<and> eserial (img cfg (ew_dev w') (\<not> act)) = ew_flags w + 1 \<and> ew_flags w' = ew_flags w + 1
       \<and> ew_valid w' = (if ew_valid w = 2 then 1 else 2)"
    using save_result [OF assms(2,4,5,3)] assms(1) unfolding copy not_not by auto
  have ok: "ret = 0 \<longrightarrow> redund_ok cfg (ew_dev w') (\<not> act) (ew_flags w') (env_vars (ew_env w))"
    using r(2,3) assms(7) by (simp add: redund_ok_def)
  have old: "\<not> good_crc (img cfg (ew_dev w') (\<not> act)) \<longrightarrow> redund_ok cfg (ew_dev w') act (ew_flags w) V"
    using r(2) assms(7) by (simp add: redund_ok_def)
  show ?thesis
    using r(1,3) ok old boots_to_redund [OF assms(1,2), of "ew_dev w'"] assms(6) by (cases act) auto
qed

theorem redund_save_atomic_witness:
  "\<exists>w1 w2. saveenv_mmc envdemo_cfg2 envdemo_world = Some (0, w1) \<and> saveenv_mmc envdemo_cfg2 w1 = Some (0, w2) \<and> ew_flags w2 = 0
    \<and> ew_valid w2 = 2 \<and> boots_to envdemo_cfg2 (ew_dev w2) (env_vars (ew_env w1))"
proof -
  have run: "map_option (\<lambda>(r, w). (r, ew_valid w, good_crc (img envdemo_cfg2 (ew_dev w) True), ew_env w,
        map_option (\<lambda>(r, w). (r, ew_flags w)) (saveenv_mmc envdemo_cfg2 w))) (saveenv_mmc envdemo_cfg2 envdemo_world)
      = Some (0, 1, False, ew_env envdemo_world, Some (0, 0))" by code_simp
  have rd: "redund envdemo_cfg2" and v: "ew_valid envdemo_world = 2" by (simp_all add: redund_def envdemo_cfg2_def envdemo_world_def)
  obtain w1 where w1: "saveenv_mmc envdemo_cfg2 envdemo_world = Some (0, w1)" "env_card envdemo_cfg2 (ew_dev w1)" "ew_valid w1 = 1"
    "\<not> good_crc (img envdemo_cfg2 (ew_dev w1) True)" "ew_env w1 = ew_env envdemo_world"
    "map_option (\<lambda>(r, w). (r, ew_flags w)) (saveenv_mmc envdemo_cfg2 w1) = Some (0, 0)"
    "redund_ok envdemo_cfg2 (ew_dev w1) False (ew_flags w1) (env_vars (ew_env envdemo_world))"
    using run save_result [OF envdemo_ready(2) envdemo_card(2) envdemo_storable(2) envdemo_ready(4)] rd v by (auto simp: redund_ok_def)
  have st: "storable envdemo_cfg2 (ew_env w1)" and val: "ew_valid w1 = (if False then 2 else 1)" using w1(3,5) envdemo_storable(2) by simp_all
  from redund_save_atomic [OF rd envdemo_ready(2,4) w1(2) st val w1(7)] w1(1,6) show ?thesis by auto
qed

section \<open>The serial number after a failed write\<close>

text \<open>
  A write that fails has already raised the serial number. The next successful save then is two ahead
  of the active copy, and across the wrap-around the older copy is taken.
\<close>

lemma failed_write_counts:
  assumes "redund cfg" "init_mmc_for_env cfg w = (None, w1)" "env_export cfg (ew_env w1) = Some (Inr i)"
    and "write_env cfg (mmc_get_env_addr cfg (ew_valid w1 = 1)) (env_bytes cfg (i\<lparr>eserial := ew_flags w1 + 1\<rparr>)) (ew_dev w1) = Some (r, d)" "r \<noteq> 0"
  shows "\<exists>w'. saveenv_mmc cfg w = Some (1, w') \<and> ew_flags w' = ew_flags w1 + 1 \<and> ew_valid w' = ew_valid w1"
  using assms by (auto simp: saveenv_mmc_def Let_def fini_mmc_for_env_def)

lemma skipped_serial_loses: "choose_env True True 254 (254 + 2) = Some 1"
  by (simp add: choose_env_def)

end
