(* ===== verification/Fb_Ptable.thy ===== *)
theory Fb_Ptable
  imports Env
begin

text \<open>
  The partition table of the fastboot gadget (\<^verbatim>\<open>drivers/usb/gadget/f_fastboot.c\<close>,
  \<^verbatim>\<open>include/fsl_fastboot.h\<close>): the array of entries, how it is filled from the partition table of
  the device, and how it is searched. Built with MMC storage, without SATA, firmware or partition
  UUID support. \<open>ab\<close> tells whether the build has A/B slots, which changes some partition names.
\<close>

section \<open>Entries\<close>

record fastboot_ptentry =
  pname :: "char list"
  pstart :: u32
  plength :: u32
  pflags :: u32
  partition_id :: u32
  partition_index :: u32
  fstype :: "char list"

definition zero_ptentry :: fastboot_ptentry where
  "zero_ptentry = \<lparr>pname = [], pstart = 0, plength = 0, pflags = 0, partition_id = 0, partition_index = 0, fstype = []\<rparr>"

text \<open>The answer of \<open>part_get_info\<close> (\<open>disk_partition_t\<close>).\<close>

record disk_partition =
  istart :: lbaint
  isize :: lbaint
  iblksz :: ulong
  iname :: "char list"

definition MAX_PTN :: nat where "MAX_PTN = 32"
definition PTN_GPT_INDEX :: nat where "PTN_GPT_INDEX = 0"
definition PTN_TEE_INDEX :: nat where "PTN_TEE_INDEX = 1"
definition PTN_ALL_INDEX :: nat where "PTN_ALL_INDEX = 2"
definition PTN_BOOTLOADER_INDEX :: nat where "PTN_BOOTLOADER_INDEX = 3"

lemmas ptn_index_defs = MAX_PTN_def PTN_GPT_INDEX_def PTN_TEE_INDEX_def PTN_ALL_INDEX_def PTN_BOOTLOADER_INDEX_def

definition FLAGS_WRITE_ENV :: u32 where "FLAGS_WRITE_ENV = 0x400"
definition FLAGS_UNERASEABLE :: u32 where "FLAGS_UNERASEABLE = 0x800"

definition MMC_BOOT_PARTITION_ID :: u32 where "MMC_BOOT_PARTITION_ID = 1"
definition MMC_USER_PARTITION_ID :: u32 where "MMC_USER_PARTITION_ID = 0"
definition MMC_NONE_PARTITION_ID :: u32 where "MMC_NONE_PARTITION_ID = -1"
definition TEE_HWPARTITION_ID :: u32 where "TEE_HWPARTITION_ID = 2"
definition TRUSTY_OS_MMC_BLKS :: u32 where "TRUSTY_OS_MMC_BLKS = 0x7FF"
definition ANDROID_GPT_OFFSET :: u32 where "ANDROID_GPT_OFFSET = 0"
definition ANDROID_GPT_SIZE :: u32 where "ANDROID_GPT_SIZE = 0x100000"
definition ANDROID_GPT_END :: u32 where "ANDROID_GPT_END = 0x4400"
definition ANDROID_BOOTLOADER_SIZE :: u32 where "ANDROID_BOOTLOADER_SIZE = 0x1FFC00"

definition FASTBOOT_PARTITION_BOOTLOADER :: "bool \<Rightarrow> char list" where
  "FASTBOOT_PARTITION_BOOTLOADER ab = (if ab then ''bootloader0'' else ''bootloader'')"

text \<open>The offset of the boot loader, by the family of the processor.\<close>

datatype soc = Imx8m | Imx8_rev_a | Imx8 | Imx_other

definition bootloader_mmc_offset :: "soc \<Rightarrow> ulong" where
  "bootloader_mmc_offset c =
     (if c = Imx8m \<or> c = Imx8_rev_a then 0x8400 else if c = Imx8 then 0x8000 else 0x400)"

section \<open>The table\<close>

text \<open>\<open>g_ptable\<close> always has \<open>MAX_PTN\<close> slots; the first \<open>g_pcount\<close> are in use.\<close>

record ptable =
  g_ptable :: "fastboot_ptentry list"
  g_pcount :: nat

definition fastboot_flash_add_ptn :: "fastboot_ptentry \<Rightarrow> ptable \<Rightarrow> ptable" where
  "fastboot_flash_add_ptn ptn pt =
     (if g_pcount pt < MAX_PTN
      then pt\<lparr>g_ptable := (g_ptable pt)[g_pcount pt := ptn], g_pcount := g_pcount pt + 1\<rparr> else pt)"

text \<open>The search loop, from slot \<open>n\<close> on; the result is a slot.\<close>

function find_ptn_from :: "nat \<Rightarrow> char list \<Rightarrow> ptable \<Rightarrow> nat option" where
  "find_ptn_from n name pt =
     (if n < g_pcount pt then
        if strlen name = strlen (pname (g_ptable pt ! n)) \<and> strcmp (pname (g_ptable pt ! n)) name = 0 then Some n
        else find_ptn_from (Suc n) name pt
      else None)"
  by auto
termination
  by (relation "measure (\<lambda>(n, _, pt). g_pcount pt - n)") auto

declare find_ptn_from.simps [simp del]

definition fastboot_flash_find_ptn :: "char list \<Rightarrow> ptable \<Rightarrow> fastboot_ptentry option" where
  "fastboot_flash_find_ptn name pt = map_option (\<lambda>n. g_ptable pt ! n) (find_ptn_from 0 name pt)"

definition fastboot_flash_find_index :: "char list \<Rightarrow> ptable \<Rightarrow> int" where
  "fastboot_flash_find_index name pt =
     (case fastboot_flash_find_ptn name pt of
        None \<Rightarrow> -1
      | Some ptentry \<Rightarrow> sint (partition_index ptentry))"

definition fastboot_flash_get_ptn :: "nat \<Rightarrow> ptable \<Rightarrow> fastboot_ptentry option" where
  "fastboot_flash_get_ptn n pt = (if n < g_pcount pt then Some (g_ptable pt ! n) else None)"

definition fastboot_flash_get_ptn_count :: "ptable \<Rightarrow> nat" where
  "fastboot_flash_get_ptn_count pt = g_pcount pt"

section \<open>Filling the table\<close>

definition ext4_names :: "bool \<Rightarrow> char list list" where
  "ext4_names ab =
     (if ab then [''system_a'', ''system_b'', ''oem_a'', ''vendor_a'', ''oem_b'', ''vendor_b'', ''userdata'']
      else [''system'', ''userdata'', ''device'', ''cache''])"

text \<open>
  One entry from the partition table of the device; \<open>part_info\<close> is \<open>part_get_info\<close> on the device.
  The name field has 20 bytes, all zero before.
\<close>

definition parts_add_ptable_entry ::
  "bool \<Rightarrow> (u32 \<Rightarrow> disk_partition option) \<Rightarrow> nat \<Rightarrow> u32 \<Rightarrow> u32 \<Rightarrow> fastboot_ptentry list \<Rightarrow> fastboot_ptentry list option" where
  "parts_add_ptable_entry ab part_info ptable_index mmc_dos_partition_index mmc_partition_index ptable =
     (case part_info mmc_dos_partition_index of
        None \<Rightarrow> None
      | Some info \<Rightarrow>
          Some (ptable[ptable_index := (ptable ! ptable_index)
            \<lparr>pstart := istart info, plength := isize info, partition_id := mmc_partition_index,
             partition_index := mmc_dos_partition_index,
             pname := (case strncpy (replicate 20 NUL) (iname info) 19 of Some b \<Rightarrow> b | None \<Rightarrow> []),
             fstype := (if \<exists>n \<in> set (ext4_names ab). strcmp (iname info) n = 0 then ''ext4'' else ''raw'')\<rparr>]))"

text \<open>The loop over the partitions of the device, from slot \<open>tbl_idx\<close> on.\<close>

function load_loop ::
  "bool \<Rightarrow> (u32 \<Rightarrow> disk_partition option) \<Rightarrow> u32 \<Rightarrow> nat \<Rightarrow> u32 \<Rightarrow> fastboot_ptentry list \<Rightarrow> fastboot_ptentry list \<times> nat" where
  "load_loop ab part_info user_partition tbl_idx part_idx ptable =
     (if tbl_idx < MAX_PTN then
        case parts_add_ptable_entry ab part_info tbl_idx part_idx user_partition ptable of
          None \<Rightarrow> (ptable, tbl_idx)
        | Some ptable \<Rightarrow> load_loop ab part_info user_partition (Suc tbl_idx) (part_idx + 1) ptable
      else (ptable, tbl_idx))"
  by auto
termination
  by (relation "measure (\<lambda>(_, _, _, i, _, _). MAX_PTN - i)") auto

declare load_loop.simps [simp del]

text \<open>
  What \<open>_fastboot_parts_load_from_ptable\<close> learns of the device: whether it has a usable block
  device, whether it has hardware partitions (\<open>part_config\<close>), its block size and count, and its
  partition table.
\<close>

record mmc_target =
  usable :: bool
  part_config :: u8
  tblksz :: ulong
  tlba :: lbaint
  part_info :: "u32 \<Rightarrow> disk_partition option"

definition fixed_ptable :: "bool \<Rightarrow> soc \<Rightarrow> mmc_target \<Rightarrow> u32 \<Rightarrow> u32 \<Rightarrow> fastboot_ptentry list" where
  "fixed_ptable ab cpu t user_partition boot_partition =
     (replicate MAX_PTN zero_ptentry)
       [PTN_GPT_INDEX := zero_ptentry\<lparr>pname := ''gpt'', pstart := ANDROID_GPT_OFFSET div tblksz t,
          plength := ANDROID_GPT_SIZE div tblksz t, partition_id := user_partition,
          pflags := FLAGS_UNERASEABLE, fstype := ''raw''\<rparr>,
        PTN_TEE_INDEX := zero_ptentry\<lparr>pname := ''tos'', pstart := 0, plength := TRUSTY_OS_MMC_BLKS,
          partition_id := TEE_HWPARTITION_ID, fstype := ''raw''\<rparr>,
        PTN_ALL_INDEX := zero_ptentry\<lparr>pname := ''all'', pstart := 0, plength := tlba t,
          partition_id := user_partition, fstype := ''device''\<rparr>,
        PTN_BOOTLOADER_INDEX := zero_ptentry\<lparr>pname := FASTBOOT_PARTITION_BOOTLOADER ab,
          pstart := bootloader_mmc_offset cpu div tblksz t, plength := ANDROID_BOOTLOADER_SIZE div tblksz t,
          partition_id := boot_partition, pflags := FLAGS_UNERASEABLE, fstype := ''raw''\<rparr>]"

definition parts_load_from_ptable :: "bool \<Rightarrow> soc \<Rightarrow> mmc_target \<Rightarrow> ptable \<Rightarrow> int \<times> ptable" where
  "parts_load_from_ptable ab cpu t pt =
     (if \<not> usable t then (-1, pt)
      else
        let avail = part_config t \<noteq> 0xff;
            boot_partition = (if avail then MMC_BOOT_PARTITION_ID else MMC_NONE_PARTITION_ID);
            user_partition = (if avail then MMC_USER_PARTITION_ID else MMC_NONE_PARTITION_ID);
            (ptable, tbl_idx) = load_loop ab (part_info t) user_partition (PTN_BOOTLOADER_INDEX + 1) 1
                                  (fixed_ptable ab cpu t user_partition boot_partition) in
        (0, fold fastboot_flash_add_ptn (take tbl_idx ptable) pt))"

datatype dev_type = DEV_SATA | DEV_MMC | DEV_other

definition load_partitions :: "bool \<Rightarrow> soc \<Rightarrow> dev_type \<Rightarrow> mmc_target \<Rightarrow> ptable \<Rightarrow> ptable" where
  "load_partitions ab cpu ty t pt =
     (let pt = pt\<lparr>g_pcount := 0\<rparr> in
      if ty = DEV_MMC then snd (parts_load_from_ptable ab cpu t pt) else pt)"

section \<open>The target device\<close>

record devinfo =
  dtype :: dev_type
  dev_id :: u8

text \<open>
  \<open>_fastboot_setup_dev\<close>: \<open>None\<close> when the environment names no known device. The second component
  tells whether the device changed.
\<close>

definition fastboot_setup_dev ::
  "(char list \<Rightarrow> char list option) \<Rightarrow> u8 \<Rightarrow> devinfo \<Rightarrow> (devinfo \<times> bool) option" where
  "fastboot_setup_dev genv flash_mmc_dev old =
     (case genv ''fastboot_dev'' of
        None \<Rightarrow> None
      | Some fastboot_env \<Rightarrow>
          let new =
            (if strcmp fastboot_env ''sata'' = 0 then Some \<lparr>dtype = DEV_SATA, dev_id = 0\<rparr>
             else if strncmp fastboot_env ''mmc'' 3 = 0 then
               Some \<lparr>dtype = DEV_MMC,
                     dev_id = (case genv ''mmcdev'' of
                                 None \<Rightarrow> flash_mmc_dev
                               | Some mmcdev \<Rightarrow> ucast (fst (simple_strtoul mmcdev 0)))\<rparr>
             else None) in
          map_option (\<lambda>d. (d, dtype d \<noteq> dtype old \<or> dev_id d \<noteq> dev_id old)) new)"

section \<open>The table invariant\<close>

definition ptable_ok :: "ptable \<Rightarrow> bool" where
  "ptable_ok pt \<longleftrightarrow> length (g_ptable pt) = MAX_PTN \<and> g_pcount pt \<le> MAX_PTN"

definition entries_of :: "ptable \<Rightarrow> fastboot_ptentry list" where
  "entries_of pt = take (g_pcount pt) (g_ptable pt)"

lemma add_ptn_ok:
  assumes "ptable_ok pt"
  shows "ptable_ok (fastboot_flash_add_ptn e pt)"
    and "entries_of (fastboot_flash_add_ptn e pt) = (if g_pcount pt < MAX_PTN then entries_of pt @ [e] else entries_of pt)"
  using assms by (auto simp: ptable_ok_def fastboot_flash_add_ptn_def entries_of_def take_Suc_conv_app_nth)

lemma length_entries_of: "ptable_ok pt \<Longrightarrow> length (entries_of pt) = g_pcount pt"
  by (simp add: ptable_ok_def entries_of_def)

lemma fold_add_ptn:
  assumes "ptable_ok pt" "g_pcount pt + length es \<le> MAX_PTN"
  shows "ptable_ok (fold fastboot_flash_add_ptn es pt) \<and> entries_of (fold fastboot_flash_add_ptn es pt) = entries_of pt @ es"
  using assms
proof (induction es arbitrary: pt)
  case (Cons e es)
  have "g_pcount (fastboot_flash_add_ptn e pt) = g_pcount pt + 1"
    using Cons.prems(2) by (simp add: fastboot_flash_add_ptn_def)
  with Cons.IH [of "fastboot_flash_add_ptn e pt"] Cons.prems add_ptn_ok [OF Cons.prems(1), of e] show ?case
    by simp
qed simp

lemma find_ptn_from_find:
  assumes "ptable_ok pt" "n \<le> g_pcount pt"
  shows "map_option (\<lambda>n. g_ptable pt ! n) (find_ptn_from n name pt)
    = find (\<lambda>e. cstr (pname e) = cstr name) (drop n (entries_of pt))"
  using assms
proof (induction n name pt rule: find_ptn_from.induct)
  case (1 n name pt)
  show ?case
  proof (cases "n < g_pcount pt")
    case True
    have "strlen name = strlen (pname (g_ptable pt ! n)) \<and> strcmp (pname (g_ptable pt ! n)) name = 0
        \<longleftrightarrow> cstr (pname (g_ptable pt ! n)) = cstr name"
      by (auto simp: strcmp_eq_0_iff strlen_cstr)
    moreover have "drop n (entries_of pt) = g_ptable pt ! n # drop (Suc n) (entries_of pt)"
      using True 1(2) by (simp add: ptable_ok_def entries_of_def Cons_nth_drop_Suc [symmetric])
    ultimately show ?thesis
      using 1 True by (subst find_ptn_from.simps) (simp del: drop_Suc)
  next
    case False
    then show ?thesis
      using 1(3) by (subst find_ptn_from.simps) (simp add: entries_of_def)
  qed
qed

lemma find_ptn_eq:
  assumes "ptable_ok pt"
  shows "fastboot_flash_find_ptn name pt = find (\<lambda>e. cstr (pname e) = cstr name) (entries_of pt)"
  using find_ptn_from_find [OF assms, of 0 name] by (simp add: fastboot_flash_find_ptn_def)

section \<open>Loading\<close>

definition part_entry :: "bool \<Rightarrow> u32 \<Rightarrow> u32 \<Rightarrow> disk_partition \<Rightarrow> fastboot_ptentry \<Rightarrow> bool" where
  "part_entry ab user idx info e \<longleftrightarrow> pstart e = istart info \<and> plength e = isize info
     \<and> partition_id e = user \<and> partition_index e = idx \<and> cstr (pname e) = take 19 (cstr (iname info))
     \<and> fstype e = (if cstr (iname info) \<in> set (ext4_names ab) then ''ext4'' else ''raw'')"

lemma strncpy_name: "\<exists>b. strncpy (replicate 20 NUL) src 19 = Some b \<and> cstr b = take 19 (cstr src)"
proof -
  have "\<exists>b. strncpy (replicate (Suc n) NUL) src n = Some b \<and> cstr b = take n (cstr src)" for n
  proof (induction n arbitrary: src)
    case (Suc n)
    show ?case
    proof (cases src)
      case Nil
      then show ?thesis using Suc [of "[]"] by (auto simp: numeral_eq_Suc)
    next
      case (Cons c cs)
      then show ?thesis using Suc [of cs] Suc [of "c # cs"] by (cases "c = NUL") auto
    qed
  qed simp
  from this [of 19] show ?thesis by (simp add: numeral_eq_Suc)
qed

lemma ext4_names_cstr: "n \<in> set (ext4_names ab) \<Longrightarrow> cstr n = n"
  by (auto simp: ext4_names_def split: if_splits)

lemma add_entry_result:
  assumes "parts_add_ptable_entry ab pi i idx user ptable = Some ptable'" "i < length ptable"
  shows "\<exists>info. pi idx = Some info \<and> part_entry ab user idx info (ptable' ! i) \<and> length ptable' = length ptable
    \<and> (\<forall>j. j \<noteq> i \<longrightarrow> ptable' ! j = ptable ! j)"
proof -
  obtain info where info: "pi idx = Some info"
    using assms(1) by (auto simp: parts_add_ptable_entry_def split: option.splits)
  obtain b where b: "strncpy (replicate 20 NUL) (iname info) 19 = Some b" "cstr b = take 19 (cstr (iname info))"
    using strncpy_name by blast
  have "(\<exists>n \<in> set (ext4_names ab). strcmp (iname info) n = 0) \<longleftrightarrow> cstr (iname info) \<in> set (ext4_names ab)"
    by (auto simp: strcmp_eq_0_iff ext4_names_cstr)
  with assms info b show ?thesis
    by (auto simp: parts_add_ptable_entry_def part_entry_def)
qed

lemma load_loop_result:
  assumes "length ptable = MAX_PTN" "load_loop ab pi user i idx ptable = (ptable', i')" "i \<le> MAX_PTN"
  shows "i \<le> i' \<and> i' \<le> MAX_PTN \<and> length ptable' = MAX_PTN \<and> (\<forall>j < i. ptable' ! j = ptable ! j)
    \<and> (\<forall>j. i \<le> j \<and> j < i' \<longrightarrow> (\<exists>info. pi (idx + of_nat (j - i)) = Some info
         \<and> part_entry ab user (idx + of_nat (j - i)) info (ptable' ! j)))
    \<and> (i' < MAX_PTN \<longrightarrow> pi (idx + of_nat (i' - i)) = None)"
  using assms
proof (induction ab pi user i idx ptable rule: load_loop.induct)
  case (1 ab pi user i idx ptable)
  show ?case
  proof (cases "i < MAX_PTN")
    case False
    then show ?thesis
      using 1(2-) by (subst (asm) load_loop.simps) auto
  next
    case lt: True
    show ?thesis
    proof (cases "parts_add_ptable_entry ab pi i idx user ptable")
      case None
      then have "pi idx = None"
        by (auto simp: parts_add_ptable_entry_def split: option.splits)
      with None lt show ?thesis
        using 1(2-) by (subst (asm) load_loop.simps) auto
    next
      case (Some t)
      obtain info where info: "pi idx = Some info" "part_entry ab user idx info (t ! i)" "length t = MAX_PTN"
          "\<And>j. j \<noteq> i \<Longrightarrow> t ! j = ptable ! j"
        using add_entry_result [OF Some] 1(2) lt by auto
      have rec: "load_loop ab pi user (Suc i) (idx + 1) t = (ptable', i')"
        using 1(3) Some lt by (subst (asm) load_loop.simps) simp
      note IH = 1(1) [OF lt Some info(3) rec]
      have ih: "Suc i \<le> i'" "i' \<le> MAX_PTN" "length ptable' = MAX_PTN" "\<And>j. j < Suc i \<Longrightarrow> ptable' ! j = t ! j"
        "\<And>j. Suc i \<le> j \<Longrightarrow> j < i' \<Longrightarrow> \<exists>info. pi (idx + 1 + of_nat (j - Suc i)) = Some info
           \<and> part_entry ab user (idx + 1 + of_nat (j - Suc i)) info (ptable' ! j)"
        "i' < MAX_PTN \<Longrightarrow> pi (idx + 1 + of_nat (i' - Suc i)) = None"
        using IH lt by auto
      have shift: "idx + of_nat (j - i) = idx + 1 + of_nat (j - Suc i)" if "Suc i \<le> j" for j
        using that by (simp add: Suc_diff_Suc [symmetric] del: Suc_diff_Suc)
      have "\<exists>info. pi (idx + of_nat (j - i)) = Some info \<and> part_entry ab user (idx + of_nat (j - i)) info (ptable' ! j)"
        if "i \<le> j" "j < i'" for j
      proof (cases "j = i")
        case True
        then show ?thesis using info ih(4) [of i] by simp
      next
        case False
        then show ?thesis using ih(5) [of j] that by (subst (1 2) shift) simp_all
      qed
      moreover have "ptable' ! j = ptable ! j" if "j < i" for j
        using ih(4) [of j] info(4) [of j] that by simp
      moreover have "pi (idx + of_nat (i' - i)) = None" if "i' < MAX_PTN"
        unfolding shift [OF ih(1)] by (rule ih(6) [OF that])
      ultimately show ?thesis using ih(1-3) by auto
    qed
  qed
qed

lemma nth_4: "i < 4 \<Longrightarrow> i = PTN_GPT_INDEX \<or> i = PTN_TEE_INDEX \<or> i = PTN_ALL_INDEX \<or> i = PTN_BOOTLOADER_INDEX"
  by (auto simp: ptn_index_defs)

section \<open>Properties\<close>

text \<open>
  C30: Searching the table gives the first entry in use whose name is the given one: never an entry
  beyond the count, never a name that is only a prefix.
\<close>

theorem find_ptn_exact:
  assumes "ptable_ok pt"
  shows "fastboot_flash_find_ptn name pt = find (\<lambda>e. cstr (pname e) = cstr name) (entries_of pt)"
  by (rule find_ptn_eq [OF assms])

definition ptable_of :: "fastboot_ptentry list \<Rightarrow> ptable" where
  "ptable_of es = \<lparr>g_ptable = take MAX_PTN (es @ replicate MAX_PTN zero_ptentry), g_pcount = min MAX_PTN (length es)\<rparr>"

lemma ptable_of_ok: "ptable_ok (ptable_of es)"
  by (simp add: ptable_ok_def ptable_of_def)

theorem find_ptn_exact_witness:
  "fastboot_flash_find_ptn ''boot'' (ptable_of [zero_ptentry\<lparr>pname := ''bootloader''\<rparr>, zero_ptentry\<lparr>pname := ''boot''\<rparr>])
   = Some (zero_ptentry\<lparr>pname := ''boot''\<rparr>)"
  unfolding find_ptn_exact [OF ptable_of_ok]
  by (simp add: entries_of_def ptable_of_def MAX_PTN_def zero_ptentry_def)

text \<open>
  C29: Loading the partitions of an MMC fills the table with the four fixed entries followed by the
  partitions 1, 2, ... of the device up to the first one that does not exist, at most 28 of them,
  each with its own start, size, index and the first 19 characters of its name.
\<close>

theorem load_partitions_table:
  assumes "length (g_ptable pt) = MAX_PTN" "usable t"
    and user: "user = (if part_config t \<noteq> 0xff then MMC_USER_PARTITION_ID else MMC_NONE_PARTITION_ID)"
    and boot: "boot = (if part_config t \<noteq> 0xff then MMC_BOOT_PARTITION_ID else MMC_NONE_PARTITION_ID)"
  shows "\<exists>k parts. entries_of (load_partitions ab cpu DEV_MMC t pt) = take 4 (fixed_ptable ab cpu t user boot) @ parts
    \<and> ptable_ok (load_partitions ab cpu DEV_MMC t pt) \<and> length parts = k \<and> k \<le> 28
    \<and> (\<forall>i < k. \<exists>info. part_info t (1 + of_nat i) = Some info \<and> part_entry ab user (1 + of_nat i) info (parts ! i))
    \<and> (k < 28 \<longrightarrow> part_info t (1 + of_nat k) = None)"
proof -
  define fx where "fx = fixed_ptable ab cpu t user boot"
  obtain tab i' where ll: "load_loop ab (part_info t) user (PTN_BOOTLOADER_INDEX + 1) 1 fx = (tab, i')"
    by (cases "load_loop ab (part_info t) user (PTN_BOOTLOADER_INDEX + 1) 1 fx")
  have lfx: "length fx = MAX_PTN" by (simp add: fx_def fixed_ptable_def)
  have r: "4 \<le> i'" "i' \<le> MAX_PTN" "length tab = MAX_PTN" "\<And>j. j < 4 \<Longrightarrow> tab ! j = fx ! j"
    "\<And>j. 4 \<le> j \<Longrightarrow> j < i' \<Longrightarrow> \<exists>info. part_info t (1 + of_nat (j - 4)) = Some info
       \<and> part_entry ab user (1 + of_nat (j - 4)) info (tab ! j)"
    "i' < MAX_PTN \<Longrightarrow> part_info t (1 + of_nat (i' - 4)) = None"
    using load_loop_result [OF lfx ll] by (auto simp: ptn_index_defs)
  define pt0 where "pt0 = pt\<lparr>g_pcount := 0\<rparr>"
  have pt0: "ptable_ok pt0" "entries_of pt0 = []" "g_pcount pt0 = 0"
    using assms(1) by (simp_all add: pt0_def ptable_ok_def entries_of_def)
  have eq: "load_partitions ab cpu DEV_MMC t pt = fold fastboot_flash_add_ptn (take i' tab) pt0"
    using assms(2) ll by (simp add: load_partitions_def parts_load_from_ptable_def Let_def pt0_def user [symmetric]
        boot [symmetric] fx_def [symmetric])
  have res: "ptable_ok (load_partitions ab cpu DEV_MMC t pt)" "entries_of (load_partitions ab cpu DEV_MMC t pt) = take i' tab"
    using fold_add_ptn [OF pt0(1), of "take i' tab"] pt0 r(2,3) by (simp_all add: eq)
  have "take 4 tab = take 4 fx"
    using r(3,4) lfx by (intro nth_equalityI) (simp_all add: MAX_PTN_def)
  moreover have "take i' tab = take 4 tab @ take (i' - 4) (drop 4 tab)"
    using r(1) by (metis le_add_diff_inverse take_add)
  ultimately have split: "take i' tab = take 4 fx @ take (i' - 4) (drop 4 tab)" by simp
  have "\<exists>info. part_info t (1 + of_nat i) = Some info \<and> part_entry ab user (1 + of_nat i) info (take (i' - 4) (drop 4 tab) ! i)"
    if "i < i' - 4" for i
    using r(5) [of "4 + i"] that r(2,3) by simp
  then show ?thesis
    using res split r(1-3,6)
    by (intro exI [of _ "i' - 4"] exI [of _ "take (i' - 4) (drop 4 tab)"]) (auto simp: fx_def MAX_PTN_def)
qed

definition target_one :: mmc_target where
  "target_one = \<lparr>usable = True, part_config = 0, tblksz = 512, tlba = 7634944,
     part_info = (\<lambda>i. if i = 1 then Some \<lparr>istart = 16384, isize = 65536, iblksz = 512, iname = ''boot''\<rparr> else None)\<rparr>"

theorem load_partitions_table_witness:
  "\<exists>parts. entries_of (load_partitions False Imx_other DEV_MMC target_one (ptable_of []))
      = take 4 (fixed_ptable False Imx_other target_one 0 1) @ parts
    \<and> length parts \<le> 28 \<and> ptable_ok (load_partitions False Imx_other DEV_MMC target_one (ptable_of []))"
  using load_partitions_table [of "ptable_of []" target_one 0 1 False Imx_other]
  by (auto simp: ptable_of_def target_one_def MMC_USER_PARTITION_ID_def MMC_BOOT_PARTITION_ID_def)

end
