(* ===== verification/Sparse.thy ===== *)
theory Sparse
  imports C_Memory Block_Device
begin

text \<open>
  Android sparse images (\<^verbatim>\<open>common/image-sparse.c\<close>, \<^verbatim>\<open>include/image-sparse.h\<close>,
  \<^verbatim>\<open>include/sparse_format.h\<close>): the headers read from memory, the chunk loop of
  \<open>write_sparse_image\<close> and the storage it writes to.

  An operation that does not come back is \<open>None\<close>: a storage driver that hangs, or a division by
  zero, which ends in \<open>hang()\<close>. The reply is what \<open>fastboot_okay\<close> or \<open>fastboot_fail\<close> is
  called with. \<open>memalign\<close> gives the address of an aligned buffer, or \<open>None\<close> when memory is short.
\<close>

section \<open>Headers\<close>

datatype fb_reply =
    Fb_okay "char list"
  | Fb_fail "char list"

definition load16 :: "mem \<Rightarrow> addr \<Rightarrow> u16" where
  "load16 m a = ucast (m a) OR push_bit 8 (ucast (m (a + 1)))"

definition load32 :: "mem \<Rightarrow> addr \<Rightarrow> u32" where
  "load32 m a = le32_of (mem_read m a 4)"

record sparse_header =
  magic :: u32
  major_version :: u16
  minor_version :: u16
  file_hdr_sz :: u16
  chunk_hdr_sz :: u16
  blk_sz :: u32
  total_blks :: u32
  total_chunks :: u32
  image_checksum :: u32

record chunk_header =
  chunk_type :: u16
  reserved1 :: u16
  chunk_sz :: u32
  total_sz :: u32

definition sparse_header_at :: "mem \<Rightarrow> addr \<Rightarrow> sparse_header" where
  "sparse_header_at m a =
     \<lparr>magic = load32 m a, major_version = load16 m (a + 4), minor_version = load16 m (a + 6),
      file_hdr_sz = load16 m (a + 8), chunk_hdr_sz = load16 m (a + 10), blk_sz = load32 m (a + 12),
      total_blks = load32 m (a + 16), total_chunks = load32 m (a + 20), image_checksum = load32 m (a + 24)\<rparr>"

definition chunk_header_at :: "mem \<Rightarrow> addr \<Rightarrow> chunk_header" where
  "chunk_header_at m a =
     \<lparr>chunk_type = load16 m a, reserved1 = load16 m (a + 2), chunk_sz = load32 m (a + 4), total_sz = load32 m (a + 8)\<rparr>"

definition SPARSE_HEADER_MAGIC :: u32 where "SPARSE_HEADER_MAGIC = 0xed26ff3a"
definition CHUNK_TYPE_RAW :: u16 where "CHUNK_TYPE_RAW = 0xCAC1"
definition CHUNK_TYPE_FILL :: u16 where "CHUNK_TYPE_FILL = 0xCAC2"
definition CHUNK_TYPE_DONT_CARE :: u16 where "CHUNK_TYPE_DONT_CARE = 0xCAC3"
definition CHUNK_TYPE_CRC32 :: u16 where "CHUNK_TYPE_CRC32 = 0xCAC4"

lemmas chunk_type_defs = CHUNK_TYPE_RAW_def CHUNK_TYPE_FILL_def CHUNK_TYPE_DONT_CARE_def CHUNK_TYPE_CRC32_def

definition is_sparse_image :: "mem \<Rightarrow> addr \<Rightarrow> bool" where
  "is_sparse_image m buf \<longleftrightarrow> load32 m buf = SPARSE_HEADER_MAGIC \<and> load16 m (buf + 4) = 1"

section \<open>The storage\<close>

text \<open>
  \<open>swrite blk blkcnt a bs\<close> writes the blocks \<open>bs\<close> found at address \<open>a\<close>; it returns the number of
  blocks it used.
\<close>

record 's sparse_storage =
  blksz :: lbaint
  start :: lbaint
  psize :: lbaint
  swrite :: "lbaint \<Rightarrow> lbaint \<Rightarrow> addr \<Rightarrow> u8 list \<Rightarrow> 's \<Rightarrow> (lbaint \<times> 's) option"
  sreserve :: "lbaint \<Rightarrow> lbaint \<Rightarrow> lbaint"

definition FILLBUF_SIZE :: u32 where "FILLBUF_SIZE = 524288"

definition ROUNDUP :: "u32 \<Rightarrow> u32 \<Rightarrow> u32" where
  "ROUNDUP x y = (x + (y - 1)) AND NOT (y - 1)"

definition ARCH_DMA_MINALIGN :: u32 where "ARCH_DMA_MINALIGN = 64"

text \<open>The first \<open>n\<close> bytes of a buffer filled with a word.\<close>

definition fill_bytes :: "nat \<Rightarrow> u32 \<Rightarrow> u8 list" where
  "fill_bytes n v = map (\<lambda>i. le32_bytes v ! (i mod 4)) [0..<n]"

section \<open>Writing an image\<close>

record sp_state =
  sdata :: addr
  sblk :: lbaint
  bytes_written :: u32
  total_blocks :: u32

text \<open>The address behind the chunk header at \<open>data\<close>, and the size of the data of a chunk.\<close>

definition chunk_payload :: "sparse_header \<Rightarrow> addr \<Rightarrow> addr" where
  "chunk_payload sh data =
     (if chunk_hdr_sz sh > 12 then data + 12 + (ucast (chunk_hdr_sz sh) - 12) else data + 12)"

definition chunk_data_size :: "sparse_header \<Rightarrow> chunk_header \<Rightarrow> u32" where
  "chunk_data_size sh ch = blk_sz sh * chunk_sz ch"

text \<open>
  The loop of a fill chunk. The loop variables are signed, the comparison with the block count
  is not. The result is the next block, or \<open>None\<close> after a failed write.
\<close>

partial_function (option) fill_loop ::
  "'s sparse_storage \<Rightarrow> addr \<Rightarrow> u32 \<Rightarrow> u32 \<Rightarrow> lbaint \<Rightarrow> u32 \<Rightarrow> lbaint \<Rightarrow> 's \<Rightarrow> (lbaint option \<times> 's) option" where
  "fill_loop info fill_buf fill_val fill_buf_num_blks blkcnt i blk s =
     (if i < blkcnt then
        let j = blkcnt - i;
            j = (if sint j > sint fill_buf_num_blks then fill_buf_num_blks else j) in
        case swrite info blk j fill_buf (fill_bytes (unat (j * blksz info)) fill_val) s of
          None \<Rightarrow> None
        | Some (blks, s) \<Rightarrow>
            if blks < j then Some (None, s)
            else fill_loop info fill_buf fill_val fill_buf_num_blks blkcnt (i + j) (blk + blks) s
      else Some (Some blk, s))"

declare fill_loop.simps [code]

definition sparse_chunk ::
  "(u32 \<Rightarrow> addr option) \<Rightarrow> mem \<Rightarrow> 's sparse_storage \<Rightarrow> sparse_header \<Rightarrow> sp_state \<Rightarrow> 's
   \<Rightarrow> ((char list + sp_state) \<times> 's) option" where
  "sparse_chunk memalign m info sh st s =
     (let ch = chunk_header_at m (sdata st);
          data = chunk_payload sh (sdata st);
          chunk_data_sz = chunk_data_size sh ch;
          blkcnt = chunk_data_sz div blksz info;
          fill_buf_num_blks = FILLBUF_SIZE div blksz info;
          blk = sblk st in
      if chunk_type ch = CHUNK_TYPE_RAW then
        if total_sz ch \<noteq> ucast (chunk_hdr_sz sh) + chunk_data_sz then
          Some (Inl ''Bogus chunk size for chunk type Raw'', s)
        else if blk + blkcnt > start info + psize info then
          Some (Inl ''Request would exceed partition size!'', s)
        else
          (case swrite info blk blkcnt data (mem_read m data (unat (blkcnt * blksz info))) s of
             None \<Rightarrow> None
           | Some (blks, s) \<Rightarrow>
               if blks < blkcnt then Some (Inl ''flash write failure'', s)
               else Some (Inr \<lparr>sdata = data + chunk_data_sz, sblk = blk + blks,
                            bytes_written = bytes_written st + blkcnt * blksz info,
                            total_blocks = total_blocks st + chunk_sz ch\<rparr>, s))
      else if chunk_type ch = CHUNK_TYPE_FILL then
        if total_sz ch \<noteq> ucast (chunk_hdr_sz sh) + 4 then
          Some (Inl ''Bogus chunk size for chunk type FILL'', s)
        else
          (case memalign (ROUNDUP (blksz info * fill_buf_num_blks) ARCH_DMA_MINALIGN) of
             None \<Rightarrow> Some (Inl ''Malloc failed for: CHUNK_TYPE_FILL'', s)
           | Some fill_buf \<Rightarrow>
               if blk + blkcnt > start info + psize info then
                 Some (Inl ''Request would exceed partition size!'', s)
               else
                 (case fill_loop info fill_buf (load32 m data) fill_buf_num_blks blkcnt 0 blk s of
                    None \<Rightarrow> None
                  | Some (None, s) \<Rightarrow> Some (Inl ''flash write failure'', s)
                  | Some (Some blk, s) \<Rightarrow>
                      if blk_sz sh = 0 then None
                      else Some (Inr \<lparr>sdata = data + 4, sblk = blk,
                              bytes_written = bytes_written st + blkcnt * blksz info,
                              total_blocks = total_blocks st + chunk_data_sz div blk_sz sh\<rparr>, s)))
      else if chunk_type ch = CHUNK_TYPE_DONT_CARE then
        Some (Inr \<lparr>sdata = data, sblk = blk + sreserve info blk blkcnt,
                   bytes_written = bytes_written st, total_blocks = total_blocks st + chunk_sz ch\<rparr>, s)
      else if chunk_type ch = CHUNK_TYPE_CRC32 then
        if total_sz ch \<noteq> ucast (chunk_hdr_sz sh) then
          Some (Inl ''Bogus chunk size for chunk type Dont Care'', s)
        else
          Some (Inr \<lparr>sdata = data + chunk_data_sz, sblk = blk,
                     bytes_written = bytes_written st, total_blocks = total_blocks st + chunk_sz ch\<rparr>, s)
      else Some (Inl ''Unknown chunk type'', s))"

primrec sparse_chunks ::
  "nat \<Rightarrow> (u32 \<Rightarrow> addr option) \<Rightarrow> mem \<Rightarrow> 's sparse_storage \<Rightarrow> sparse_header \<Rightarrow> sp_state \<Rightarrow> 's
   \<Rightarrow> ((char list + sp_state) \<times> 's) option" where
  "sparse_chunks 0 memalign m info sh st s = Some (Inr st, s)"
| "sparse_chunks (Suc n) memalign m info sh st s =
     (case sparse_chunk memalign m info sh st s of
        None \<Rightarrow> None
      | Some (Inl err, s) \<Rightarrow> Some (Inl err, s)
      | Some (Inr st, s) \<Rightarrow> sparse_chunks n memalign m info sh st s)"

text \<open>
  The bytes of a file header longer than expected are skipped twice, as in the source. The size
  of the download plays no role.
\<close>

definition first_chunk :: "sparse_header \<Rightarrow> addr \<Rightarrow> addr" where
  "first_chunk sh data =
     (let data = data + ucast (file_hdr_sz sh) in
      if file_hdr_sz sh > 28 then data + (ucast (file_hdr_sz sh) - 28) else data)"

definition write_sparse_image ::
  "(u32 \<Rightarrow> addr option) \<Rightarrow> mem \<Rightarrow> 's sparse_storage \<Rightarrow> addr \<Rightarrow> 's \<Rightarrow> (fb_reply \<times> 's) option" where
  "write_sparse_image memalign m info data s =
     (if blksz info = 0 then None
      else
        let sh = sparse_header_at m data in
        if blk_sz sh mod blksz info \<noteq> 0 then Some (Fb_fail ''sparse image block size issue'', s)
        else
          (case sparse_chunks (unat (total_chunks sh)) memalign m info sh
                  \<lparr>sdata = first_chunk sh data, sblk = start info, bytes_written = 0, total_blocks = 0\<rparr> s of
             None \<Rightarrow> None
           | Some (Inl err, s) \<Rightarrow> Some (Fb_fail err, s)
           | Some (Inr st, s) \<Rightarrow>
               Some (if total_blocks st \<noteq> total_blks sh then Fb_fail ''sparse image write failure'' else Fb_okay '''', s)))"

section \<open>What an image means\<close>

text \<open>
  \<open>unsparse\<close> is the device content an image stands for: the blocks of its raw and fill chunks
  put one after the other on the old content, from block \<open>blk\<close> on. \<open>image_span\<close> is the number of
  blocks that the chunks cover together.
\<close>

definition chunk_blocks :: "nat \<Rightarrow> sparse_header \<Rightarrow> chunk_header \<Rightarrow> nat" where
  "chunk_blocks bsz sh ch = unat (chunk_data_size sh ch) div bsz"

definition chunk_next :: "mem \<Rightarrow> sparse_header \<Rightarrow> addr \<Rightarrow> addr" where
  "chunk_next m sh data =
     (let ch = chunk_header_at m data; p = chunk_payload sh data in
      if chunk_type ch = CHUNK_TYPE_FILL then p + 4
      else if chunk_type ch = CHUNK_TYPE_DONT_CARE then p
      else p + chunk_data_size sh ch)"

definition chunk_covers :: "nat \<Rightarrow> mem \<Rightarrow> sparse_header \<Rightarrow> addr \<Rightarrow> nat" where
  "chunk_covers bsz m sh data =
     (let ch = chunk_header_at m data in
      if chunk_type ch = CHUNK_TYPE_CRC32 then 0 else chunk_blocks bsz sh ch)"

definition put_chunk :: "nat \<Rightarrow> mem \<Rightarrow> sparse_header \<Rightarrow> addr \<Rightarrow> nat \<Rightarrow> (nat \<Rightarrow> u8 list) \<Rightarrow> nat \<Rightarrow> u8 list" where
  "put_chunk bsz m sh data blk B =
     (let ch = chunk_header_at m data; p = chunk_payload sh data; n = chunk_blocks bsz sh ch in
      if chunk_type ch = CHUNK_TYPE_RAW then put_blocks bsz B blk n (mem_read m p (n * bsz))
      else if chunk_type ch = CHUNK_TYPE_FILL then put_blocks bsz B blk n (fill_bytes (n * bsz) (load32 m p))
      else B)"

primrec image_span :: "nat \<Rightarrow> nat \<Rightarrow> mem \<Rightarrow> sparse_header \<Rightarrow> addr \<Rightarrow> nat" where
  "image_span 0 bsz m sh data = 0"
| "image_span (Suc n) bsz m sh data = chunk_covers bsz m sh data + image_span n bsz m sh (chunk_next m sh data)"

primrec unsparse :: "nat \<Rightarrow> nat \<Rightarrow> mem \<Rightarrow> sparse_header \<Rightarrow> addr \<Rightarrow> nat \<Rightarrow> (nat \<Rightarrow> u8 list) \<Rightarrow> nat \<Rightarrow> u8 list" where
  "unsparse 0 bsz m sh data blk B = B"
| "unsparse (Suc n) bsz m sh data blk B =
     unsparse n bsz m sh (chunk_next m sh data) (blk + chunk_covers bsz m sh data) (put_chunk bsz m sh data blk B)"

lemma length_fill_bytes [simp]: "length (fill_bytes n v) = n"
  by (simp add: fill_bytes_def)

lemma fill_bytes_add:
  assumes "4 dvd a"
  shows "fill_bytes (a + b) v = fill_bytes a v @ fill_bytes b v"
proof (rule nth_equalityI)
  fix i
  assume "i < length (fill_bytes (a + b) v)"
  moreover have "(i - a) mod 4 = i mod 4" if "a \<le> i"
    using assms that by (metis le_add_diff_inverse2 mod_add_right_eq add.right_neutral dvd_imp_mod_0)
  moreover have "[0..<b] ! (i - a) = i - a" if "a \<le> i" "i < a + b"
    using that by (subst nth_upt) auto
  ultimately show "fill_bytes (a + b) v ! i = (fill_bytes a v @ fill_bytes b v) ! i"
    by (auto simp: fill_bytes_def nth_append linorder_not_less)
qed simp

section \<open>The storage contract\<close>

text \<open>
  A storage that writes all blocks of a request in place or reports fewer, never touches
  other blocks, and reserves exactly what it is asked to. The blocks \<open>lo\<close> to \<open>hi\<close> are those it
  may be asked for.
\<close>

definition wrote :: "('s \<Rightarrow> nat \<Rightarrow> u8 list) \<Rightarrow> nat \<Rightarrow> nat \<Rightarrow> 's \<Rightarrow> 's \<Rightarrow> bool" where
  "wrote blocks lo hi s s' \<longleftrightarrow> (\<forall>b. \<not> (lo \<le> b \<and> b < hi) \<longrightarrow> blocks s' b = blocks s b)"

lemma wrote_refl [simp]: "wrote blocks lo hi s s"
  by (simp add: wrote_def)

lemma wrote_trans:
  "wrote blocks a b s1 s2 \<Longrightarrow> wrote blocks c d s2 s3 \<Longrightarrow> lo \<le> a \<Longrightarrow> lo \<le> c \<Longrightarrow> b \<le> hi \<Longrightarrow> d \<le> hi \<Longrightarrow> wrote blocks lo hi s1 s3"
  unfolding wrote_def by (metis order.trans order_less_le_trans)

locale sparse_backend =
  fixes inv :: "'s \<Rightarrow> bool"
    and blocks :: "'s \<Rightarrow> nat \<Rightarrow> u8 list"
    and info :: "'s sparse_storage"
  assumes swrite_result: "\<lbrakk>inv s; unat (start info) \<le> unat blk;
        unat blk + unat n \<le> unat (start info) + unat (psize info); length bs = unat n * unat (blksz info)\<rbrakk> \<Longrightarrow>
      \<exists>r s'. swrite info blk n a bs s = Some (r, s') \<and> inv s' \<and> r \<le> n
        \<and> (r = n \<longrightarrow> blocks s' = put_blocks (unat (blksz info)) (blocks s) (unat blk) (unat n) bs)
        \<and> wrote blocks (unat blk) (unat blk + unat n) s s'"
    and sreserve_result: "sreserve info blk n = n"
    and no_wrap: "inv s \<Longrightarrow> unat (start info) + unat (psize info) < 2 ^ 32"
    and blksz_range: "inv s \<Longrightarrow> 0 < unat (blksz info)" "inv s \<Longrightarrow> unat (blksz info) \<le> 524288"
      "inv s \<Longrightarrow> 4 dvd unat (blksz info)"
begin

abbreviation bsz :: nat where
  "bsz \<equiv> unat (blksz info)"

abbreviation lo :: nat where
  "lo \<equiv> unat (start info)"

abbreviation hi :: nat where
  "hi \<equiv> unat (start info) + unat (psize info)"

end

lemma sint_small:
  assumes "unat (w :: u32) < 2 ^ 31"
  shows "sint w = int (unat w)"
proof -
  from assms have "int (unat w) < int (2 ^ 31)" by (rule of_nat_less_iff [THEN iffD2])
  then have "uint w < 2 ^ 31" by simp
  moreover have "- (2 ^ 31) \<le> uint w" by (rule order.trans [OF _ uint_ge_0]) simp
  ultimately have "signed_take_bit 31 (uint w) = uint w"
    by (intro signed_take_bit_int_eq_self) simp_all
  then show ?thesis by (simp add: sint_uint)
qed

context sparse_backend
begin

lemma hi_word: "inv s \<Longrightarrow> unat (start info + psize info) = hi"
  by (rule u32_plus) (rule no_wrap)

lemma fill_buf_blocks:
  assumes "inv s"
  shows "0 < unat (FILLBUF_SIZE div blksz info)" "unat (FILLBUF_SIZE div blksz info) < 2 ^ 31"
    "unat (FILLBUF_SIZE div blksz info) * bsz < 2 ^ 32"
proof -
  have u: "unat (FILLBUF_SIZE div blksz info) = 524288 div bsz"
    by (simp add: unat_div FILLBUF_SIZE_def)
  show "0 < unat (FILLBUF_SIZE div blksz info)"
    using blksz_range(1,2) [OF assms] by (simp add: u div_greater_zero_iff)
  show "unat (FILLBUF_SIZE div blksz info) < 2 ^ 31"
    unfolding u by (rule le_less_trans [OF div_le_dividend]) simp
  show "unat (FILLBUF_SIZE div blksz info) * bsz < 2 ^ 32"
    unfolding u by (rule le_less_trans [OF div_times_less_eq_dividend]) simp
qed

lemma fill_loop_result:
  assumes "inv s" "lo \<le> unat blk" "unat i \<le> unat cnt" "unat blk + (unat cnt - unat i) \<le> hi" "unat cnt < 2 ^ 31"
  shows "\<exists>r s'. fill_loop info a v (FILLBUF_SIZE div blksz info) cnt i blk s = Some (r, s') \<and> inv s'
    \<and> wrote blocks (unat blk) (unat blk + (unat cnt - unat i)) s s'
    \<and> (\<forall>blk'. r = Some blk' \<longrightarrow> unat blk' = unat blk + (unat cnt - unat i)
         \<and> blocks s' = put_blocks bsz (blocks s) (unat blk) (unat cnt - unat i) (fill_bytes ((unat cnt - unat i) * bsz) v))"
  using assms
proof (induction "unat cnt - unat i" arbitrary: i blk s rule: less_induct)
  case less
  let ?nb = "FILLBUF_SIZE div blksz info"
  note fill_buf_blocks = fill_buf_blocks [OF less.prems(1)]
  note no_wrap = no_wrap [OF less.prems(1)]
  note blksz_range = blksz_range [OF less.prems(1)]
  show ?case
  proof (cases "i < cnt")
    case False
    then have "unat cnt - unat i = 0" by (simp add: word_less_nat_alt)
    with False less.prems(1) show ?thesis
      by (subst fill_loop.simps) simp
  next
    case True
    then have lt: "unat i < unat cnt" by (simp add: word_less_nat_alt)
    define j where "j = (if sint (cnt - i) > sint ?nb then ?nb else cnt - i)"
    have rest: "unat (cnt - i) = unat cnt - unat i" using lt by (intro u32_minus) simp
    have "unat (cnt - i) < 2 ^ 31"
      unfolding rest by (rule le_less_trans [OF diff_le_self less.prems(5)])
    then have "sint (cnt - i) > sint ?nb \<longleftrightarrow> cnt - i > ?nb"
      using sint_small [OF fill_buf_blocks(2)] by (simp only: sint_small word_less_nat_alt of_nat_less_iff)
    then have j: "j = (if cnt - i > ?nb then ?nb else cnt - i)" by (simp add: j_def)
    have jr: "0 < unat j" "unat j \<le> unat cnt - unat i" "unat j \<le> unat ?nb"
      using fill_buf_blocks(1) lt by (auto simp: j word_less_nat_alt rest)
    have "unat j * bsz \<le> unat ?nb * bsz" using jr(3) by (rule mult_le_mono1)
    then have bytes: "unat (j * blksz info) = unat j * bsz"
      using fill_buf_blocks(3) by (intro u32_times) linarith
    have "unat blk + unat j \<le> hi" using jr less.prems(4) by linarith
    then obtain r1 s1 where r1: "swrite info blk j a (fill_bytes (unat j * bsz) v) s = Some (r1, s1)" "inv s1" "r1 \<le> j"
        "r1 = j \<longrightarrow> blocks s1 = put_blocks bsz (blocks s) (unat blk) (unat j) (fill_bytes (unat j * bsz) v)"
        "wrote blocks (unat blk) (unat blk + unat j) s s1"
      using swrite_result [OF less.prems(1,2), of j "fill_bytes (unat j * bsz) v" a] by auto
    have w1: "wrote blocks (unat blk) (unat blk + (unat cnt - unat i)) s s1"
      by (rule wrote_trans [OF r1(5) wrote_refl]) (use jr in auto)
    have eq: "fill_loop info a v ?nb cnt i blk s =
        (if r1 < j then Some (None, s1) else fill_loop info a v ?nb cnt (i + j) (blk + r1) s1)"
      using True by (subst fill_loop.simps) (simp add: Let_def j_def [symmetric] bytes r1(1))
    show ?thesis
    proof (cases "r1 = j")
      case False
      then have "r1 < j" using r1(3) by simp
      with eq r1(2) w1 show ?thesis by simp
    next
      case j1: True
      have ij: "unat (i + j) = unat i + unat j"
        using jr lt unat_u32_less [of cnt] by (intro u32_plus) linarith
      have bj: "unat (blk + j) = unat blk + unat j"
        using jr less.prems(4) no_wrap by (intro u32_plus) linarith
      define rem where "rem = unat cnt - unat i - unat j"
      have rem: "unat cnt - unat (i + j) = rem" "unat cnt - unat i = unat j + rem" using jr by (simp_all add: ij rem_def)
      have "\<exists>r s'. fill_loop info a v ?nb cnt (i + j) (blk + j) s1 = Some (r, s') \<and> inv s'
        \<and> wrote blocks (unat (blk + j)) (unat (blk + j) + (unat cnt - unat (i + j))) s1 s'
        \<and> (\<forall>blk'. r = Some blk' \<longrightarrow> unat blk' = unat (blk + j) + (unat cnt - unat (i + j))
             \<and> blocks s' = put_blocks bsz (blocks s1) (unat (blk + j)) (unat cnt - unat (i + j))
                 (fill_bytes ((unat cnt - unat (i + j)) * bsz) v))"
        by (rule less.hyps) (use jr lt less.prems r1(2) in \<open>simp_all add: ij bj\<close>)
      then obtain r s' where r: "fill_loop info a v ?nb cnt (i + j) (blk + j) s1 = Some (r, s')" "inv s'"
          "wrote blocks (unat blk + unat j) (unat blk + unat j + rem) s1 s'"
          "\<And>blk'. r = Some blk' \<Longrightarrow> unat blk' = unat blk + unat j + rem
             \<and> blocks s' = put_blocks bsz (blocks s1) (unat blk + unat j) rem (fill_bytes (rem * bsz) v)"
        unfolding bj rem(1) by blast
      have "wrote blocks (unat blk) (unat blk + (unat cnt - unat i)) s s'"
        unfolding rem(2) by (rule wrote_trans [OF r1(5) r(3)]) auto
      moreover have "put_blocks bsz (put_blocks bsz (blocks s) (unat blk) (unat j) (fill_bytes (unat j * bsz) v))
          (unat blk + unat j) rem (fill_bytes (rem * bsz) v)
        = put_blocks bsz (blocks s) (unat blk) (unat j + rem) (fill_bytes ((unat j + rem) * bsz) v)"
        using put_blocks_append [of "fill_bytes (unat j * bsz) v" "unat j" bsz "blocks s" "unat blk" rem "fill_bytes (rem * bsz) v"]
          fill_bytes_add [of "unat j * bsz" "rem * bsz" v] blksz_range(3) by (simp add: add_mult_distrib)
      ultimately show ?thesis
        using eq j1 r r1(4) by (auto simp: rem(2))
    qed
  qed
qed

text \<open>One chunk.\<close>

lemma chunk_count:
  assumes "inv s"
  shows "unat (chunk_data_size sh ch div blksz info) = chunk_blocks bsz sh ch"
  "chunk_blocks bsz sh ch * bsz < 2 ^ 32" "chunk_blocks bsz sh ch < 2 ^ 31"
  "unat (chunk_data_size sh ch div blksz info * blksz info) = chunk_blocks bsz sh ch * bsz"
proof -
  show cnt: "unat (chunk_data_size sh ch div blksz info) = chunk_blocks bsz sh ch"
    by (simp add: unat_div chunk_blocks_def)
  show le: "chunk_blocks bsz sh ch * bsz < 2 ^ 32"
    unfolding chunk_blocks_def by (rule le_less_trans [OF div_times_less_eq_dividend unat_u32_less])
  have "4 \<le> bsz" using blksz_range(1,3) [OF assms] by (rule dvd_imp_le [rotated])
  then have "chunk_blocks bsz sh ch * 4 \<le> chunk_blocks bsz sh ch * bsz" by (rule mult_le_mono2)
  then have "chunk_blocks bsz sh ch * 4 < 2 ^ 32" using le by (rule le_less_trans)
  then show "chunk_blocks bsz sh ch < 2 ^ 31" by simp
  show "unat (chunk_data_size sh ch div blksz info * blksz info) = chunk_blocks bsz sh ch * bsz"
    using u32_times [of "chunk_data_size sh ch div blksz info" "blksz info"] le by (simp add: cnt)
qed

definition chunk_done :: "mem \<Rightarrow> sparse_header \<Rightarrow> sp_state \<Rightarrow> 's \<Rightarrow> char list + sp_state \<Rightarrow> 's \<Rightarrow> bool" where
  "chunk_done m sh st s r s' \<longleftrightarrow> inv s' \<and> wrote blocks lo hi s s'
     \<and> (\<forall>st'. r = Inr st' \<longrightarrow> sdata st' = chunk_next m sh (sdata st)
          \<and> unat (sblk st') = unat (sblk st) + chunk_covers bsz m sh (sdata st)
          \<and> blocks s' = put_chunk bsz m sh (sdata st) (unat (sblk st)) (blocks s))"

lemma sparse_raw:
  assumes "inv s" "lo \<le> unat (sblk st)" "unat (sblk st) + chunk_covers bsz m sh (sdata st) \<le> hi"
    and ty: "chunk_type (chunk_header_at m (sdata st)) = CHUNK_TYPE_RAW"
  shows "\<exists>r s'. sparse_chunk memalign m info sh st s = Some (r, s') \<and> chunk_done m sh st s r s'"
proof -
  define ch where "ch = chunk_header_at m (sdata st)"
  define p where "p = chunk_payload sh (sdata st)"
  define cnt where "cnt = chunk_data_size sh ch div blksz info"
  note cnt = chunk_count [OF assms(1), of sh ch, folded cnt_def]
  have cov: "chunk_covers bsz m sh (sdata st) = unat cnt"
    using ty by (simp add: chunk_covers_def Let_def ch_def [symmetric] cnt(1) chunk_type_defs)
  have le: "unat (sblk st) + unat cnt \<le> hi" using assms(3) by (simp add: cov)
  then have bound: "\<not> sblk st + cnt > start info + psize info" and sum: "unat (sblk st + cnt) = unat (sblk st) + unat cnt"
    using u32_plus [of "sblk st" cnt] no_wrap [OF assms(1)] hi_word [OF assms(1)] by (simp_all add: word_less_nat_alt)
  obtain r s1 where r: "swrite info (sblk st) cnt p (mem_read m p (unat cnt * bsz)) s = Some (r, s1)" "inv s1" "r \<le> cnt"
      "r = cnt \<longrightarrow> blocks s1 = put_blocks bsz (blocks s) (unat (sblk st)) (unat cnt) (mem_read m p (unat cnt * bsz))"
      "wrote blocks (unat (sblk st)) (unat (sblk st) + unat cnt) s s1"
    using swrite_result [OF assms(1,2) le, of "mem_read m p (unat cnt * bsz)" p] by auto
  have w: "wrote blocks lo hi s s1"
    by (rule wrote_trans [OF r(5) wrote_refl]) (use assms(2) le in auto)
  have eq: "sparse_chunk memalign m info sh st s =
     (if total_sz ch \<noteq> ucast (chunk_hdr_sz sh) + chunk_data_size sh ch then Some (Inl ''Bogus chunk size for chunk type Raw'', s)
      else if r < cnt then Some (Inl ''flash write failure'', s1)
      else Some (Inr \<lparr>sdata = p + chunk_data_size sh ch, sblk = sblk st + r,
             bytes_written = bytes_written st + cnt * blksz info, total_blocks = total_blocks st + chunk_sz ch\<rparr>, s1))"
    using ty bound r(1) by (simp add: sparse_chunk_def Let_def ch_def [symmetric] p_def [symmetric] cnt_def [symmetric] cnt(1,4))
  have "\<not> r < cnt \<Longrightarrow> r = cnt" using r(3) by simp
  moreover have "chunk_next m sh (sdata st) = p + chunk_data_size sh ch"
    using ty by (simp add: chunk_next_def Let_def ch_def p_def chunk_type_defs)
  moreover have "put_chunk bsz m sh (sdata st) (unat (sblk st)) (blocks s) =
      put_blocks bsz (blocks s) (unat (sblk st)) (unat cnt) (mem_read m p (unat cnt * bsz))"
    using ty by (simp add: put_chunk_def Let_def ch_def [symmetric] p_def [symmetric] cnt(1))
  ultimately show ?thesis
    using eq r w assms(1) sum by (auto simp: chunk_done_def cov)
qed

lemma sparse_fill:
  assumes "inv s" "lo \<le> unat (sblk st)" "unat (sblk st) + chunk_covers bsz m sh (sdata st) \<le> hi" "blk_sz sh \<noteq> 0"
    and ty: "chunk_type (chunk_header_at m (sdata st)) = CHUNK_TYPE_FILL"
  shows "\<exists>r s'. sparse_chunk memalign m info sh st s = Some (r, s') \<and> chunk_done m sh st s r s'"
proof -
  define ch where "ch = chunk_header_at m (sdata st)"
  define p where "p = chunk_payload sh (sdata st)"
  define cnt where "cnt = chunk_data_size sh ch div blksz info"
  define al where "al = memalign (ROUNDUP (blksz info * (FILLBUF_SIZE div blksz info)) ARCH_DMA_MINALIGN)"
  note cnt = chunk_count [OF assms(1), of sh ch, folded cnt_def]
  have cov: "chunk_covers bsz m sh (sdata st) = unat cnt"
    using ty by (simp add: chunk_covers_def Let_def ch_def [symmetric] cnt(1) chunk_type_defs)
  have le: "unat (sblk st) + unat cnt \<le> hi" using assms(3) by (simp add: cov)
  then have bound: "\<not> sblk st + cnt > start info + psize info"
    using u32_plus [of "sblk st" cnt] no_wrap [OF assms(1)] hi_word [OF assms(1)] by (simp add: word_less_nat_alt)
  have small: "unat cnt < 2 ^ 31" using cnt(3) by (simp only: cnt(1))
  have ty': "chunk_type ch = CHUNK_TYPE_FILL" "CHUNK_TYPE_FILL \<noteq> CHUNK_TYPE_RAW"
    using ty by (simp_all add: ch_def chunk_type_defs)
  note unf = sparse_chunk_def [of memalign m info sh st s, unfolded Let_def, folded ch_def p_def, folded cnt_def, folded al_def]
  show ?thesis
  proof (cases "total_sz ch = ucast (chunk_hdr_sz sh) + 4 \<and> al \<noteq> None")
    case False
    then show ?thesis
      using assms(1) ty' by (cases "total_sz ch = ucast (chunk_hdr_sz sh) + 4") (simp_all add: unf chunk_done_def)
  next
    case True
    then obtain fb where fb: "al = Some fb" by blast
    obtain r s1 where r: "fill_loop info fb (load32 m p) (FILLBUF_SIZE div blksz info) cnt 0 (sblk st) s = Some (r, s1)"
        "inv s1" "wrote blocks (unat (sblk st)) (unat (sblk st) + unat cnt) s s1"
        "\<And>blk'. r = Some blk' \<Longrightarrow> unat blk' = unat (sblk st) + unat cnt
           \<and> blocks s1 = put_blocks bsz (blocks s) (unat (sblk st)) (unat cnt) (fill_bytes (unat cnt * bsz) (load32 m p))"
      using fill_loop_result [OF assms(1,2), of 0 cnt fb "load32 m p"] le small by auto
    have w: "wrote blocks lo hi s s1"
      by (rule wrote_trans [OF r(3) wrote_refl]) (use assms(2) le in auto)
    have "chunk_next m sh (sdata st) = p + 4"
      using ty by (simp add: chunk_next_def Let_def p_def)
    moreover have "put_chunk bsz m sh (sdata st) (unat (sblk st)) (blocks s) =
        put_blocks bsz (blocks s) (unat (sblk st)) (unat cnt) (fill_bytes (unat cnt * bsz) (load32 m p))"
      using ty' by (simp add: put_chunk_def Let_def ch_def [symmetric] p_def [symmetric] cnt(1))
    ultimately show ?thesis
      using True ty' fb r w bound assms(4) cov by (cases r) (simp_all add: unf chunk_done_def)
  qed
qed

lemma sparse_chunk_result:
  assumes "inv s" "lo \<le> unat (sblk st)" "unat (sblk st) + chunk_covers bsz m sh (sdata st) \<le> hi" "blk_sz sh \<noteq> 0"
  shows "\<exists>r s'. sparse_chunk memalign m info sh st s = Some (r, s') \<and> chunk_done m sh st s r s'"
proof -
  let ?ty = "chunk_type (chunk_header_at m (sdata st))"
  let ?cnt = "chunk_data_size sh (chunk_header_at m (sdata st)) div blksz info"
  consider "?ty = CHUNK_TYPE_RAW" | "?ty = CHUNK_TYPE_FILL" | "?ty = CHUNK_TYPE_DONT_CARE"
    | "?ty \<notin> {CHUNK_TYPE_RAW, CHUNK_TYPE_FILL, CHUNK_TYPE_DONT_CARE}" by blast
  then show ?thesis
  proof cases
    case 1
    then show ?thesis by (rule sparse_raw [OF assms(1-3)])
  next
    case 2
    then show ?thesis by (rule sparse_fill [OF assms])
  next
    case 3
    then have cov: "chunk_covers bsz m sh (sdata st) = unat ?cnt"
      by (simp add: chunk_covers_def Let_def chunk_count(1) [OF assms(1)] chunk_type_defs)
    then have "unat (sblk st + ?cnt) = unat (sblk st) + unat ?cnt"
      using assms(3) no_wrap [OF assms(1)] by (intro u32_plus) linarith
    moreover have "sparse_chunk memalign m info sh st s = Some (Inr \<lparr>sdata = chunk_payload sh (sdata st), sblk = sblk st + ?cnt,
        bytes_written = bytes_written st, total_blocks = total_blocks st + chunk_sz (chunk_header_at m (sdata st))\<rparr>, s)"
      using 3 by (simp add: sparse_chunk_def Let_def sreserve_result chunk_type_defs)
    moreover have "chunk_next m sh (sdata st) = chunk_payload sh (sdata st)"
      "put_chunk bsz m sh (sdata st) (unat (sblk st)) (blocks s) = blocks s"
      using 3 by (simp_all add: chunk_next_def put_chunk_def Let_def chunk_type_defs)
    ultimately show ?thesis
      using assms(1) cov by (simp add: chunk_done_def)
  next
    case 4
    then have "put_chunk bsz m sh (sdata st) (unat (sblk st)) (blocks s) = blocks s"
      "chunk_next m sh (sdata st) = chunk_payload sh (sdata st) + chunk_data_size sh (chunk_header_at m (sdata st))"
      by (simp_all add: chunk_next_def put_chunk_def Let_def)
    with 4 assms(1) show ?thesis
      by (simp add: sparse_chunk_def Let_def chunk_done_def chunk_covers_def)
  qed
qed

lemma sparse_chunks_result:
  assumes "inv s" "lo \<le> unat (sblk st)" "unat (sblk st) + image_span n bsz m sh (sdata st) \<le> hi" "blk_sz sh \<noteq> 0"
  shows "\<exists>r s'. sparse_chunks n memalign m info sh st s = Some (r, s') \<and> inv s' \<and> wrote blocks lo hi s s'
    \<and> (\<forall>st'. r = Inr st' \<longrightarrow> blocks s' = unsparse n bsz m sh (sdata st) (unat (sblk st)) (blocks s))"
  using assms
proof (induction n arbitrary: st s)
  case (Suc n)
  have le: "unat (sblk st) + chunk_covers bsz m sh (sdata st) \<le> hi"
    using Suc.prems(3) by simp
  obtain r s1 where r: "sparse_chunk memalign m info sh st s = Some (r, s1)" "chunk_done m sh st s r s1"
    using sparse_chunk_result [OF Suc.prems(1,2) le Suc.prems(4)] by blast
  show ?case
  proof (cases r)
    case (Inl err)
    with r show ?thesis by (simp add: chunk_done_def)
  next
    case (Inr st')
    with r(2) have st': "inv s1" "wrote blocks lo hi s s1" "sdata st' = chunk_next m sh (sdata st)"
        "unat (sblk st') = unat (sblk st) + chunk_covers bsz m sh (sdata st)"
        "blocks s1 = put_chunk bsz m sh (sdata st) (unat (sblk st)) (blocks s)"
      by (simp_all add: chunk_done_def)
    obtain r2 s2 where r2: "sparse_chunks n memalign m info sh st' s1 = Some (r2, s2)" "inv s2" "wrote blocks lo hi s1 s2"
        "\<forall>st''. r2 = Inr st'' \<longrightarrow> blocks s2 = unsparse n bsz m sh (sdata st') (unat (sblk st')) (blocks s1)"
      using Suc.IH [of s1 st'] st' Suc.prems by auto
    have "wrote blocks lo hi s s2"
      by (rule wrote_trans [OF st'(2) r2(3)]) auto
    with r2 Inr r(1) st' show ?thesis by simp
  qed
qed simp

text \<open>The whole image.\<close>

lemma write_sparse_image_result:
  assumes "inv s" "sh = sparse_header_at m data" "blk_sz sh \<noteq> 0"
    "image_span (unat (total_chunks sh)) bsz m sh (first_chunk sh data) \<le> unat (psize info)"
  shows "\<exists>r s'. write_sparse_image memalign m info data s = Some (r, s') \<and> inv s' \<and> wrote blocks lo hi s s'
    \<and> (\<forall>msg. r = Fb_okay msg \<longrightarrow>
         blocks s' = unsparse (unat (total_chunks sh)) bsz m sh (first_chunk sh data) lo (blocks s))"
proof -
  let ?st = "\<lparr>sdata = first_chunk sh data, sblk = start info, bytes_written = 0, total_blocks = 0\<rparr>"
  obtain r s' where r: "sparse_chunks (unat (total_chunks sh)) memalign m info sh ?st s = Some (r, s')" "inv s'" "wrote blocks lo hi s s'"
      "\<forall>st'. r = Inr st' \<longrightarrow> blocks s' = unsparse (unat (total_chunks sh)) bsz m sh (first_chunk sh data) lo (blocks s)"
    using sparse_chunks_result [OF assms(1), of ?st "unat (total_chunks sh)" m sh memalign] assms(3,4) by auto
  have "blksz info \<noteq> 0" using blksz_range(1) [OF assms(1)] by auto
  with r assms(1) show ?thesis
    by (cases r) (auto simp: write_sparse_image_def Let_def assms(2) [symmetric])
qed

end

end
