(* ===== verification/Fb_Sparse.thy ===== *)
theory Fb_Sparse
  imports Sparse Blk_Cache
begin

text \<open>
  Sparse images on MMC (\<open>mmc_sparse_write\<close> and \<open>mmc_sparse_reserve\<close> of
  \<^verbatim>\<open>drivers/usb/gadget/f_fastboot.c\<close>): the storage that \<open>write_sparse_image\<close> is given, over the
  cached block device \<open>dev\<close> of interface type \<open>ift\<close>. Data that is not aligned to a cache line goes
  through a bounce buffer, which is taken to be available.
\<close>

section \<open>The storage operations\<close>

definition SPARSE_FILL_BUF_SIZE :: u32 where "SPARSE_FILL_BUF_SIZE = 2097152"
definition CACHELINE_SIZE :: u32 where "CACHELINE_SIZE = 64"

type_synonym 'c mmcdev = "'c mmc \<times> block_cache"

text \<open>The loop over the bounce buffer. \<open>ret\<close> sums what the writes report; a failed one is not the end.\<close>

partial_function (option) bounce_loop ::
  "int \<Rightarrow> int \<Rightarrow> u32 \<Rightarrow> u32 \<Rightarrow> lbaint \<Rightarrow> lbaint \<Rightarrow> u8 list \<Rightarrow> ulong \<Rightarrow> 'c mmcdev \<Rightarrow> (ulong \<times> 'c mmcdev) option" where
  "bounce_loop ift dev bs fill_buf_num_blks blk blkcnt buffer ret d =
     (if blkcnt \<noteq> 0 then
        let cnt = (if blkcnt > fill_buf_num_blks then fill_buf_num_blks else blkcnt) in
        case blk_dwrite ift dev mmc_bwrite blk cnt (take (unat (cnt * bs)) buffer) d of
          None \<Rightarrow> None
        | Some (n, d) \<Rightarrow>
            bounce_loop ift dev bs fill_buf_num_blks (blk + cnt) (blkcnt - cnt) (drop (unat (cnt * bs)) buffer) (ret + n) d
      else Some (ret, d))"

declare bounce_loop.simps [code]

definition mmc_sparse_write ::
  "int \<Rightarrow> int \<Rightarrow> u32 \<Rightarrow> lbaint \<Rightarrow> lbaint \<Rightarrow> addr \<Rightarrow> u8 list \<Rightarrow> 'c mmcdev \<Rightarrow> (lbaint \<times> 'c mmcdev) option" where
  "mmc_sparse_write ift dev bs blk blkcnt buffer bytes d =
     (if buffer AND (CACHELINE_SIZE - 1) \<noteq> 0
      then bounce_loop ift dev bs (SPARSE_FILL_BUF_SIZE div bs) blk blkcnt bytes 0 d
      else blk_dwrite ift dev mmc_bwrite blk blkcnt bytes d)"

definition mmc_sparse_reserve :: "lbaint \<Rightarrow> lbaint \<Rightarrow> lbaint" where
  "mmc_sparse_reserve blk blkcnt = blkcnt"

definition mmc_sparse :: "int \<Rightarrow> int \<Rightarrow> lbaint \<Rightarrow> lbaint \<Rightarrow> lbaint \<Rightarrow> 'c mmcdev sparse_storage" where
  "mmc_sparse ift dev bs st sz =
     \<lparr>blksz = bs, start = st, psize = sz, swrite = mmc_sparse_write ift dev bs, sreserve = mmc_sparse_reserve\<rparr>"

section \<open>The contract of the storage\<close>

text \<open>
  The partition lies on the device, the block size is the one of the device, at most the size
  of the fill buffer, and a multiple of 4.
\<close>

definition mmc_sparse_inv :: "int \<Rightarrow> int \<Rightarrow> lbaint \<Rightarrow> lbaint \<Rightarrow> lbaint \<Rightarrow> 'c mmcdev \<Rightarrow> bool" where
  "mmc_sparse_inv ift dev bs st sz d \<longleftrightarrow> cmmc_inv ift dev d \<and> bs = write_bl_len (fst d)
     \<and> unat st + unat sz \<le> unat (lba (fst d)) \<and> unat bs \<le> 524288 \<and> 4 dvd unat bs"

lemma mmc_dwrite_result:
  assumes "mmc_sparse_inv ift dev bs st sz d" "unat blk + unat n \<le> unat (lba (fst d))" "length bytes = unat n * unat bs"
  shows "\<exists>r d'. blk_dwrite ift dev mmc_bwrite blk n bytes d = Some (r, d') \<and> mmc_sparse_inv ift dev bs st sz d'
    \<and> lba (fst d') = lba (fst d) \<and> (r = n \<or> r = 0)
    \<and> (r = n \<longrightarrow> mmc_cells (fst d') = put_blocks (unat bs) (mmc_cells (fst d)) (unat blk) (unat n) bytes)
    \<and> wrote (\<lambda>d. mmc_cells (fst d)) (unat blk) (unat blk + unat n) d d'"
proof -
  have inv: "cmmc_inv ift dev d" and bs: "bs = write_bl_len (fst d)" using assms(1) by (simp_all add: mmc_sparse_inv_def)
  obtain r d' where r: "blk_dwrite ift dev mmc_bwrite blk n bytes d = Some (r, d')"
    using cmmc.bwrite_result [OF inv assms(2)] assms(3) unfolding bs by blast
  note ok = cmmc.bwrite_ok [OF inv assms(2) assms(3) [unfolded bs] r]
  have "write_bl_len (fst d') = write_bl_len (fst d)" "lba (fst d') = lba (fst d)"
    using ok(2,3) by (auto intro: unsigned_word_eqI)
  with r ok assms(1) show ?thesis
    unfolding wrote_def by (auto simp: mmc_sparse_inv_def)
qed

lemma mmc_wf_blksz: "mmc_sparse_inv ift dev bs st sz d \<Longrightarrow> 0 < unat bs"
  by (auto simp: mmc_sparse_inv_def cmmc_inv_def mmc_wf_def)

lemma bounce_loop_result:
  assumes "mmc_sparse_inv ift dev bs st sz d" "unat blk + unat n \<le> unat (lba (fst d))" "length bytes = unat n * unat bs"
  shows "\<exists>r d'. bounce_loop ift dev bs (SPARSE_FILL_BUF_SIZE div bs) blk n bytes ret d = Some (ret + r, d')
    \<and> mmc_sparse_inv ift dev bs st sz d' \<and> unat r \<le> unat n
    \<and> (r = n \<longrightarrow> mmc_cells (fst d') = put_blocks (unat bs) (mmc_cells (fst d)) (unat blk) (unat n) bytes)
    \<and> wrote (\<lambda>d. mmc_cells (fst d)) (unat blk) (unat blk + unat n) d d'"
  using assms
proof (induction "unat n" arbitrary: blk n bytes ret d rule: less_induct)
  case less
  let ?nb = "SPARSE_FILL_BUF_SIZE div bs"
  show ?case
  proof (cases "n = 0")
    case True
    with less.prems(1) show ?thesis
      by (subst bounce_loop.simps) (auto intro!: exI [of _ 0])
  next
    case False
    define cnt where "cnt = (if n > ?nb then ?nb else n)"
    have nb: "unat ?nb = 2097152 div unat bs" by (simp add: unat_div SPARSE_FILL_BUF_SIZE_def)
    have "unat bs \<le> 524288" using less.prems(1) unfolding mmc_sparse_inv_def by blast
    then have "unat bs \<le> 2097152" by simp
    then have pos: "0 < unat ?nb" using mmc_wf_blksz [OF less.prems(1)] by (simp add: nb div_greater_zero_iff)
    have n: "0 < unat n" using False by (simp add: unat_gt_0)
    note cnt = round_size [OF pos n, folded cnt_def]
    have "unat cnt * unat bs \<le> unat ?nb * unat bs" using cnt(3) by (rule mult_le_mono1)
    also have "\<dots> \<le> 2097152" unfolding nb by (rule div_times_less_eq_dividend)
    finally have bytes: "unat (cnt * bs) = unat cnt * unat bs" by (intro u32_times) simp
    have len: "unat cnt * unat bs \<le> length bytes" using cnt(2) less.prems(3) by (simp add: mult_le_mono1)
    obtain k d1 where k: "blk_dwrite ift dev mmc_bwrite blk cnt (take (unat cnt * unat bs) bytes) d = Some (k, d1)"
        "mmc_sparse_inv ift dev bs st sz d1" "lba (fst d1) = lba (fst d)" "k = cnt \<or> k = 0"
        "k = cnt \<longrightarrow> mmc_cells (fst d1) = put_blocks (unat bs) (mmc_cells (fst d)) (unat blk) (unat cnt) (take (unat cnt * unat bs) bytes)"
        "wrote (\<lambda>d. mmc_cells (fst d)) (unat blk) (unat blk + unat cnt) d d1"
      using mmc_dwrite_result [OF less.prems(1), of blk cnt "take (unat cnt * unat bs) bytes"] less.prems(2) cnt(2) len by auto
    have st': "unat (blk + cnt) = unat blk + unat cnt"
      by (rule round_start [OF less.prems(2) cnt(2)])
    have eq: "bounce_loop ift dev bs ?nb blk n bytes ret d =
        bounce_loop ift dev bs ?nb (blk + cnt) (n - cnt) (drop (unat cnt * unat bs) bytes) (ret + k) d1"
      using False by (subst bounce_loop.simps) (simp add: Let_def cnt_def [symmetric] bytes k(1))
    have "\<exists>r d'. bounce_loop ift dev bs ?nb (blk + cnt) (n - cnt) (drop (unat cnt * unat bs) bytes) (ret + k) d1 = Some (ret + k + r, d')
      \<and> mmc_sparse_inv ift dev bs st sz d' \<and> unat r \<le> unat (n - cnt)
      \<and> (r = n - cnt \<longrightarrow> mmc_cells (fst d') = put_blocks (unat bs) (mmc_cells (fst d1)) (unat (blk + cnt)) (unat (n - cnt)) (drop (unat cnt * unat bs) bytes))
      \<and> wrote (\<lambda>d. mmc_cells (fst d)) (unat (blk + cnt)) (unat (blk + cnt) + unat (n - cnt)) d1 d'"
    proof (rule less.hyps [OF _ k(2)])
      show "unat (n - cnt) < unat n" using cnt n by linarith
      show "unat (blk + cnt) + unat (n - cnt) \<le> unat (lba (fst d1))" using less.prems(2) cnt by (simp add: st' k(3))
      show "length (drop (unat cnt * unat bs) bytes) = unat (n - cnt) * unat bs"
        by (simp add: less.prems(3) cnt(4) diff_mult_distrib)
    qed
    then obtain r d' where r: "bounce_loop ift dev bs ?nb (blk + cnt) (n - cnt) (drop (unat cnt * unat bs) bytes) (ret + k) d1 = Some (ret + k + r, d')"
        "mmc_sparse_inv ift dev bs st sz d'" "unat r \<le> unat n - unat cnt"
        "r = n - cnt \<Longrightarrow> mmc_cells (fst d') = put_blocks (unat bs) (mmc_cells (fst d1)) (unat blk + unat cnt) (unat n - unat cnt) (drop (unat cnt * unat bs) bytes)"
        "wrote (\<lambda>d. mmc_cells (fst d)) (unat blk + unat cnt) (unat blk + unat cnt + (unat n - unat cnt)) d1 d'"
      unfolding st' cnt(4) by blast
    have "unat k + unat r \<le> unat n" using k(4) r(3) cnt(2) by auto
    then have sum: "unat (k + r) = unat k + unat r" "unat (k + r) \<le> unat n"
      using u32_plus [of k r] unat_u32_less [of n] by linarith+
    have "wrote (\<lambda>d. mmc_cells (fst d)) (unat blk) (unat blk + unat n) d d'"
      by (rule wrote_trans [OF k(6) r(5)]) (use cnt(2) in auto)
    moreover have "mmc_cells (fst d') = put_blocks (unat bs) (mmc_cells (fst d)) (unat blk) (unat n) bytes" if "k + r = n"
    proof -
      have "unat k + unat r = unat n" using sum(1) that by simp
      then have kc: "k = cnt" using k(4) r(3) cnt(1,2) by auto
      then have "r = n - cnt" using that by auto
      with k(5) kc r(4) show ?thesis
        using put_blocks_append [of "take (unat cnt * unat bs) bytes" "unat cnt" "unat bs" "mmc_cells (fst d)" "unat blk"
            "unat n - unat cnt" "drop (unat cnt * unat bs) bytes"] len cnt(2) by simp
    qed
    ultimately show ?thesis
      using eq r(1,2) sum(2) by (intro exI [of _ "k + r"] exI [of _ d']) (simp add: add.assoc)
  qed
qed

lemma mmc_sparse_write_result:
  assumes "mmc_sparse_inv ift dev bs st sz d" "unat blk + unat n \<le> unat (lba (fst d))" "length bytes = unat n * unat bs"
  shows "\<exists>r d'. mmc_sparse_write ift dev bs blk n a bytes d = Some (r, d') \<and> mmc_sparse_inv ift dev bs st sz d' \<and> r \<le> n
    \<and> (r = n \<longrightarrow> mmc_cells (fst d') = put_blocks (unat bs) (mmc_cells (fst d)) (unat blk) (unat n) bytes)
    \<and> wrote (\<lambda>d. mmc_cells (fst d)) (unat blk) (unat blk + unat n) d d'"
proof (cases "a AND (CACHELINE_SIZE - 1) \<noteq> 0")
  case True
  then show ?thesis
    using bounce_loop_result [OF assms, of 0] by (simp add: mmc_sparse_write_def word_le_nat_alt)
next
  case False
  then show ?thesis
    using mmc_dwrite_result [OF assms] by (auto simp: mmc_sparse_write_def)
qed

interpretation mmcsp: sparse_backend "mmc_sparse_inv ift dev bs st sz" "\<lambda>d. mmc_cells (fst d)" "mmc_sparse ift dev bs st sz"
  for ift dev bs st sz
proof (unfold_locales, goal_cases)
  case (1 d blk n bytes a)
  then have "unat blk + unat n \<le> unat (lba (fst d))"
    by (auto simp: mmc_sparse_def mmc_sparse_inv_def)
  with 1 show ?case
    using mmc_sparse_write_result [of ift dev bs st sz d blk n bytes a] by (simp add: mmc_sparse_def)
next
  case (2 blk n)
  show ?case by (simp add: mmc_sparse_def mmc_sparse_reserve_def)
next
  case (3 d)
  then show ?case
    using unat_u32_less [of "lba (fst d)"] by (auto simp: mmc_sparse_def mmc_sparse_inv_def)
next
  case (4 d)
  then show ?case using mmc_wf_blksz [OF 4] by (simp add: mmc_sparse_def)
next
  case (5 d)
  then show ?case unfolding mmc_sparse_def mmc_sparse_inv_def sparse_storage.simps by blast
next
  case (6 d)
  then show ?case unfolding mmc_sparse_def mmc_sparse_inv_def sparse_storage.simps by blast
qed

section \<open>Properties\<close>


text \<open>An image of two chunks: one raw block, then two blocks to leave alone.\<close>

definition tiny_image :: "u8 list" where
  "tiny_image = [0x3a, 0xff, 0x26, 0xed, 1, 0, 0, 0, 28, 0, 12, 0, 4, 0, 0, 0, 3, 0, 0, 0, 2, 0, 0, 0, 0, 0, 0, 0,
     0xC1, 0xCA, 0, 0, 1, 0, 0, 0, 16, 0, 0, 0, 0xde, 0xad, 0xbe, 0xef,
     0xC3, 0xCA, 0, 0, 2, 0, 0, 0, 12, 0, 0, 0]"

definition tiny_mem :: mem where
  "tiny_mem = (\<lambda>a. if unat (a - 0x1000) < length tiny_image then tiny_image ! unat (a - 0x1000) else 0)"


text \<open>
  A chunk to leave alone is not checked against the partition: block counts add up
  past its end and wrap, so that a later raw chunk is written in front of the partition.
\<close>

lemma sparse_dont_care_wraps:
  assumes "chunk_type (chunk_header_at m (sdata st)) = CHUNK_TYPE_DONT_CARE"
  shows "\<exists>st'. sparse_chunk memalign m (mmc_sparse ift dev bs ps sz) sh st d = Some (Inr st', d)
    \<and> sblk st' = sblk st + chunk_data_size sh (chunk_header_at m (sdata st)) div bs"
  using assms by (simp add: sparse_chunk_def Let_def mmc_sparse_def mmc_sparse_reserve_def chunk_type_defs)

end
