(* ===== verification/Fb_ParseEnv.thy ===== *)
theory Fb_ParseEnv
  imports Env
begin

text \<open>
  The text form of variable assignments that is flashed to an environment partition
  (\<open>parse_env\<close>, \<open>save_env\<close> and \<open>saveenv_to_ptn\<close> of \<^verbatim>\<open>drivers/usb/gadget/f_fastboot.c\<close>).

  The transfer buffer is a list of characters that reaches one past the input; pointers into it
  are indices. \<open>sv\<close> is \<open>save_env\<close> on the state \<open>'s\<close>; \<open>None\<close> when it does not come back.
\<close>

section \<open>The scanner\<close>

record parse_state =
  pbuff :: "char list"
  pvar :: "nat option"
  pvar_end :: "nat option"
  pval :: "nat option"
  pval_end :: "nat option"
  comment_start :: bool
  sets :: nat

type_synonym 's saver = "char list \<Rightarrow> char list option \<Rightarrow> 's \<Rightarrow> 's option"

definition is_nl :: "char \<Rightarrow> bool" where
  "is_nl c \<longleftrightarrow> c = CHR 0x0D \<or> c = CHR 0x0A"

definition is_bl :: "char \<Rightarrow> bool" where
  "is_bl c \<longleftrightarrow> c = CHR '' '' \<or> c = CHR 0x09"

text \<open>The strings at \<open>var\<close> and \<open>val\<close> are handed to the environment.\<close>

definition save_pair :: "'s saver \<Rightarrow> parse_state \<Rightarrow> 's \<Rightarrow> 's option" where
  "save_pair sv p s =
     sv (cstr (drop (the (pvar p)) (pbuff p))) (map_option (\<lambda>v. cstr (drop v (pbuff p))) (pval p)) s"

text \<open>
  The chain of cases for the character at \<open>i\<close>. The inner \<open>None\<close> is the internal error.
\<close>

definition scan_char :: "'s saver \<Rightarrow> bool \<Rightarrow> nat \<Rightarrow> parse_state \<Rightarrow> 's \<Rightarrow> (parse_state option \<times> 's) option" where
  "scan_char sv save i p s =
     (let c = pbuff p ! i in
      if pvar p = None then
        let p = (if c = CHR ''#'' then p\<lparr>comment_start := True\<rparr> else p) in
        Some (Some (if comment_start p then if is_nl c then p\<lparr>comment_start := False\<rparr> else p
                    else if \<not> (is_bl c \<or> is_nl c) then p\<lparr>pvar := Some i\<rparr> else p), s)
      else if (pvar_end p = None \<or> pval p = None) \<and> is_nl c then
        let p = (if save then p\<lparr>pbuff := (pbuff p)[i := NUL]\<rparr> else p) in
        map_option (\<lambda>s. (Some (p\<lparr>pvar := None, pvar_end := None, sets := sets p + 1\<rparr>), s))
          (if save then save_pair sv p s else Some s)
      else if pvar_end p = None then
        Some (Some (if is_bl c then p\<lparr>pvar_end := Some i\<rparr> else p), s)
      else if pval p = None then
        Some (Some (if \<not> is_bl c then p\<lparr>pval := Some i\<rparr> else p), s)
      else if pval_end p = None then
        Some (Some (if is_nl c then
                      if pbuff p ! (i - 1) = CHR 0x5C then
                        let b = (if c = CHR 0x0D \<and> pbuff p ! (i + 1) = CHR 0x0A
                                 then (pbuff p)[i + 1 := CHR '' ''] else pbuff p) in
                        p\<lparr>pbuff := b[i := CHR '' '', i - 1 := CHR '' '']\<rparr>
                      else p\<lparr>pval_end := Some i\<rparr>
                    else p), s)
      else Some (None, s))"

text \<open>The check for a finished pair behind it, and both: the body of the loop.\<close>

definition finish_pair :: "'s saver \<Rightarrow> bool \<Rightarrow> parse_state \<Rightarrow> 's \<Rightarrow> (parse_state option \<times> 's) option" where
  "finish_pair sv save p s =
     (if pval_end p \<noteq> None then
        let p = (if save then p\<lparr>pbuff := (pbuff p)[the (pvar_end p) := NUL, the (pval_end p) := NUL]\<rparr> else p) in
        map_option (\<lambda>s. (Some (p\<lparr>pvar := None, pvar_end := None, pval := None, pval_end := None, sets := sets p + 1\<rparr>), s))
          (if save then save_pair sv p s else Some s)
      else Some (Some p, s))"

definition parse_char :: "'s saver \<Rightarrow> bool \<Rightarrow> nat \<Rightarrow> parse_state \<Rightarrow> 's \<Rightarrow> (parse_state option \<times> 's) option" where
  "parse_char sv save i p s =
     (case scan_char sv save i p s of
        None \<Rightarrow> None
      | Some (None, s) \<Rightarrow> Some (None, s)
      | Some (Some p, s) \<Rightarrow> finish_pair sv save p s)"

primrec parse_loop :: "'s saver \<Rightarrow> bool \<Rightarrow> nat \<Rightarrow> nat \<Rightarrow> parse_state \<Rightarrow> 's \<Rightarrow> (parse_state option \<times> 's) option" where
  "parse_loop sv save 0 i p s = Some (Some p, s)"
| "parse_loop sv save (Suc n) i p s =
     (case parse_char sv save i p s of
        None \<Rightarrow> None
      | Some (None, s) \<Rightarrow> Some (None, s)
      | Some (Some p, s) \<Rightarrow> parse_loop sv save n (i + 1) p s)"

definition start_state :: "char list \<Rightarrow> parse_state" where
  "start_state buff =
     \<lparr>pbuff = buff, pvar = None, pvar_end = None, pval = None, pval_end = None, comment_start = False, sets = 0\<rparr>"

text \<open>
  \<open>parse_env\<close> on an input of \<open>n\<close> characters: the return code, the error text where one is written,
  the buffer and the state.
\<close>

definition parse_env ::
  "'s saver \<Rightarrow> bool \<Rightarrow> nat \<Rightarrow> char list \<Rightarrow> 's \<Rightarrow> (int \<times> char list option \<times> char list \<times> 's) option" where
  "parse_env sv save n buff s =
     (let buff = (if save then buff[n := NUL] else buff) in
      case parse_loop sv save n 0 (start_state buff) s of
        None \<Rightarrow> None
      | Some (None, s) \<Rightarrow> Some (1, Some ''Internal Error'', buff, s)
      | Some (Some p, s) \<Rightarrow>
          let trailing = (pvar p \<noteq> None \<and> pval_end p = None);
              p = (if trailing \<and> save \<and> pvar_end p \<noteq> None
                   then p\<lparr>pbuff := (pbuff p)[the (pvar_end p) := NUL]\<rparr> else p) in
          (case (if trailing \<and> save then save_pair sv p s else Some s) of
             None \<Rightarrow> None
           | Some s \<Rightarrow>
               let k = sets p + (if trailing then 1 else 0) in
               Some (if k = 0 then 1 else 0, if k = 0 then Some ''No variables set'' else None, pbuff p, s)))"

definition saveenv_to_ptn ::
  "'s saver \<Rightarrow> nat \<Rightarrow> char list \<Rightarrow> 's \<Rightarrow> (int \<times> char list \<times> char list \<times> 's) option" where
  "saveenv_to_ptn sv n buff s =
     (let err_string = ''Unknown Error'' in
      case parse_env sv False n buff s of
        None \<Rightarrow> None
      | Some (ret, e, buff, s) \<Rightarrow>
          let err_string = (case e of None \<Rightarrow> err_string | Some e \<Rightarrow> e) in
          if ret = 0 then
            (case parse_env sv True n buff s of
               None \<Rightarrow> None
             | Some (ret, e, buff, s) \<Rightarrow> Some (ret, case e of None \<Rightarrow> err_string | Some e \<Rightarrow> e, buff, s))
          else Some (1, err_string, buff, s))"

text \<open>\<open>saveenv\<close>, the storage driver the board selects, takes the environment to the storage \<open>'d\<close>.\<close>

definition save_env :: "env_hooks \<Rightarrow> (env_state \<Rightarrow> 'd \<Rightarrow> 'd) \<Rightarrow> (env_state \<times> 'd) saver" where
  "save_env hk saveenv var val s =
     map_option (\<lambda>(_, e). (e, saveenv e (snd s))) (setenv hk var val (fst s))"

section \<open>The scanner has no internal error\<close>

text \<open>Between characters no pair is pending.\<close>

lemma scan_var:
  "pvar p = None \<Longrightarrow> \<exists>p'. scan_char sv save i p s = Some (Some p', s)"
  unfolding scan_char_def Let_def by (simp only: if_True simp_thms) blast

lemma scan_unset:
  "pvar p \<noteq> None \<Longrightarrow> pvar_end p = None \<or> pval p = None \<Longrightarrow> is_nl (pbuff p ! i) \<Longrightarrow>
   scan_char sv save i p s = Some (r, s') \<Longrightarrow> r \<noteq> None"
  unfolding scan_char_def Let_def by (simp only: if_True if_False simp_thms) auto

lemma scan_rest:
  "pvar p \<noteq> None \<Longrightarrow> \<not> ((pvar_end p = None \<or> pval p = None) \<and> is_nl (pbuff p ! i)) \<Longrightarrow> pval_end p = None \<Longrightarrow>
   \<exists>p'. scan_char sv save i p s = Some (Some p', s)"
  unfolding scan_char_def Let_def
  by (cases "pvar_end p = None"; cases "pval p = None"; simp only: if_True if_False simp_thms; blast)

lemma scan_char_no_error:
  assumes "pval_end p = None" "scan_char sv save i p s = Some (r, s')"
  shows "r \<noteq> None"
proof (cases "pvar p = None")
  case True
  then show ?thesis using scan_var [of p sv save i s] assms(2) by auto
next
  case var: False
  show ?thesis
  proof (cases "(pvar_end p = None \<or> pval p = None) \<and> is_nl (pbuff p ! i)")
    case True
    then show ?thesis using scan_unset [OF var _ _ assms(2)] by blast
  next
    case False
    then show ?thesis using scan_rest [OF var False assms(1), of sv save s] assms(2) by auto
  qed
qed

lemma finish_pair_clear:
  assumes "finish_pair sv save p s = Some (r, s')"
  shows "\<exists>p'. r = Some p' \<and> pval_end p' = None"
proof (cases "pval_end p = None")
  case True
  then show ?thesis using assms by (auto simp: finish_pair_def)
next
  case False
  then have "\<exists>q x. map_option (\<lambda>s. (Some (q\<lparr>pvar := None, pvar_end := None, pval := None, pval_end := None, sets := sets q + 1\<rparr>), s)) x
      = Some (r, s')"
    using assms unfolding finish_pair_def Let_def by (simp only: not_False_eq_True if_True) blast
  then show ?thesis by (elim exE) (auto simp: map_option_eq_Some)
qed

lemma parse_char_clear:
  assumes "pval_end p = None" "parse_char sv save i p s = Some (r, s')"
  shows "\<exists>p'. r = Some p' \<and> pval_end p' = None"
proof (cases "scan_char sv save i p s")
  case None
  then show ?thesis using assms(2) by (simp add: parse_char_def)
next
  case (Some x)
  obtain q s1 where x: "x = (q, s1)" by (cases x)
  show ?thesis
  proof (cases q)
    case None
    then show ?thesis using scan_char_no_error [OF assms(1) Some [unfolded x]] by contradiction
  next
    case p1: (Some p1)
    show ?thesis
      using assms(2) by (intro finish_pair_clear [of sv save p1 s1]) (simp add: parse_char_def Some x p1)
  qed
qed

lemma parse_loop_clear:
  "pval_end p = None \<Longrightarrow> parse_loop sv save n i p s = Some (r, s') \<Longrightarrow> \<exists>p'. r = Some p' \<and> pval_end p' = None"
proof (induction n arbitrary: i p s)
  case (Suc n)
  obtain q s1 where q: "parse_char sv save i p s = Some (q, s1)"
    using Suc.prems(2) by (cases "parse_char sv save i p s") auto
  from parse_char_clear [OF Suc.prems(1) q] obtain p1 where p1: "q = Some p1" "pval_end p1 = None" by blast
  have "parse_loop sv save n (i + 1) p1 s1 = Some (r, s')"
    using Suc.prems(2) by (simp add: q p1(1))
  then show ?case by (rule Suc.IH [OF p1(2)])
qed auto

section \<open>Lines of assignments\<close>

text \<open>A name and a value as one line, and names and values that the scanner takes as they are.\<close>

definition line :: "char list \<times> char list \<Rightarrow> char list" where
  "line kv = fst kv @ CHR '' '' # snd kv @ [CHR 0x0A]"

definition plain_name :: "char list \<Rightarrow> bool" where
  "plain_name k \<longleftrightarrow> k \<noteq> [] \<and> hd k \<noteq> CHR ''#'' \<and> (\<forall>c \<in> set k. \<not> is_nl c \<and> \<not> is_bl c \<and> c \<noteq> NUL)"

definition plain_value :: "char list \<Rightarrow> bool" where
  "plain_value v \<longleftrightarrow> v \<noteq> [] \<and> \<not> is_bl (hd v) \<and> last v \<noteq> CHR 0x5C \<and> (\<forall>c \<in> set v. \<not> is_nl c \<and> c \<noteq> NUL)"

lemma parse_loop_add:
  "parse_loop sv save (n + m) i p s =
     (case parse_loop sv save n i p s of
        None \<Rightarrow> None
      | Some (None, s) \<Rightarrow> Some (None, s)
      | Some (Some p, s) \<Rightarrow> parse_loop sv save m (i + n) p s)"
proof (induction n arbitrary: i p s)
  case (Suc n)
  show ?case
  proof (cases "parse_char sv save i p s")
    case (Some r)
    obtain q s1 where r: "r = (q, s1)" by (cases r)
    have "Suc i + n = i + Suc n" by simp
    then show ?thesis by (cases q) (simp_all only: Some r Suc.IH add_Suc parse_loop.simps option.case prod.case Suc_eq_plus1 [of i, symmetric])
  qed simp
qed simp

lemma parse_loop_stay:
  "(\<And>j. i \<le> j \<Longrightarrow> j < i + n \<Longrightarrow> parse_char sv save j p s = Some (Some p, s)) \<Longrightarrow> parse_loop sv save n i p s = Some (Some p, s)"
proof (induction n arbitrary: i)
  case (Suc n)
  then show ?case using Suc.IH [of "Suc i"] by simp
qed simp

text \<open>The characters of a line, one group at a time.\<close>

lemma char_var:
  assumes "pvar p = None" "\<not> comment_start p" "pval_end p = None" "\<not> is_nl (pbuff p ! i)" "\<not> is_bl (pbuff p ! i)" "pbuff p ! i \<noteq> CHR ''#''"
  shows "parse_char sv save i p s = Some (Some (p\<lparr>pvar := Some i\<rparr>), s)"
  using assms by (simp add: parse_char_def scan_char_def finish_pair_def Let_def)

lemma char_name:
  assumes "pvar p = Some a" "pvar_end p = None" "pval_end p = None" "\<not> is_nl (pbuff p ! i)" "\<not> is_bl (pbuff p ! i)"
  shows "parse_char sv save i p s = Some (Some p, s)"
  using assms by (simp add: parse_char_def scan_char_def finish_pair_def Let_def)

lemma char_blank:
  assumes "pvar p = Some a" "pvar_end p = None" "pval_end p = None" "pbuff p ! i = CHR '' ''"
  shows "parse_char sv save i p s = Some (Some (p\<lparr>pvar_end := Some i\<rparr>), s)"
  using assms by (simp add: parse_char_def scan_char_def finish_pair_def Let_def is_nl_def is_bl_def)

lemma char_val:
  assumes "pvar p = Some a" "pvar_end p = Some b" "pval p = None" "pval_end p = None" "\<not> is_nl (pbuff p ! i)" "\<not> is_bl (pbuff p ! i)"
  shows "parse_char sv save i p s = Some (Some (p\<lparr>pval := Some i\<rparr>), s)"
  using assms by (simp add: parse_char_def scan_char_def finish_pair_def Let_def)

lemma char_value:
  assumes "pvar p = Some a" "pvar_end p = Some b" "pval p = Some v" "pval_end p = None" "\<not> is_nl (pbuff p ! i)"
  shows "parse_char sv save i p s = Some (Some p, s)"
  using assms by (simp add: parse_char_def scan_char_def finish_pair_def Let_def)

lemma char_end:
  assumes "pvar p = Some a" "pvar_end p = Some b" "pval p = Some v" "pval_end p = None" "pbuff p ! i = CHR 0x0A"
    "pbuff p ! (i - 1) \<noteq> CHR 0x5C"
  shows "parse_char sv True i p s =
    map_option (\<lambda>s. (Some (p\<lparr>pbuff := (pbuff p)[b := NUL, i := NUL], pvar := None, pvar_end := None, pval := None,
        pval_end := None, sets := sets p + 1\<rparr>), s))
      (sv (cstr (drop a ((pbuff p)[b := NUL, i := NUL]))) (Some (cstr (drop v ((pbuff p)[b := NUL, i := NUL])))) s)"
  using assms by (simp add: parse_char_def scan_char_def finish_pair_def Let_def is_nl_def save_pair_def)

lemma char_end_parse:
  assumes "pvar p = Some a" "pvar_end p = Some b" "pval p = Some v" "pval_end p = None" "pbuff p ! i = CHR 0x0A"
    "pbuff p ! (i - 1) \<noteq> CHR 0x5C"
  shows "parse_char sv False i p s =
    Some (Some (p\<lparr>pvar := None, pvar_end := None, pval := None, pval_end := None, sets := sets p + 1\<rparr>), s)"
  using assms by (simp add: parse_char_def scan_char_def finish_pair_def Let_def is_nl_def)

text \<open>A state between two lines, with \<open>pre\<close> behind it.\<close>

definition at_line :: "char list \<Rightarrow> char list \<Rightarrow> nat \<Rightarrow> parse_state" where
  "at_line pre rest k =
     \<lparr>pbuff = pre @ rest, pvar = None, pvar_end = None, pval = None, pval_end = None, comment_start = False, sets = k\<rparr>"

lemma plain_nth:
  "plain_name k \<Longrightarrow> j < length k \<Longrightarrow> \<not> is_nl (k ! j) \<and> \<not> is_bl (k ! j)"
  "plain_value v \<Longrightarrow> j < length v \<Longrightarrow> \<not> is_nl (v ! j)"
  by (auto simp: plain_name_def plain_value_def)

lemma plain_first:
  "plain_name k \<Longrightarrow> k ! 0 \<noteq> CHR ''#''" "plain_value v \<Longrightarrow> \<not> is_bl (v ! 0)"
  by (simp_all add: plain_name_def plain_value_def flip: hd_conv_nth)

lemma plain_last: "plain_value v \<Longrightarrow> v ! (length v - 1) \<noteq> CHR 0x5C"
  using last_conv_nth [of v] by (simp add: plain_value_def)

lemma nonempty_plain: "plain_name k \<Longrightarrow> 0 < length k" "plain_value v \<Longrightarrow> 0 < length v"
  by (auto simp: plain_name_def plain_value_def)

lemma nth_line:
  "j < length k \<Longrightarrow> (pre @ line (k, v) @ post) ! (length pre + j) = k ! j"
  "(pre @ line (k, v) @ post) ! (length pre + length k) = CHR '' ''"
  "j < length v \<Longrightarrow> (pre @ line (k, v) @ post) ! (length pre + length k + 1 + j) = v ! j"
  "(pre @ line (k, v) @ post) ! (length pre + length k + 1 + length v) = CHR 0x0A"
  by (simp_all add: line_def nth_append)

lemma parse_loop_then:
  "parse_loop sv save n i p s = Some (Some p1, s1) \<Longrightarrow> j = i + n \<Longrightarrow> t = n + m \<Longrightarrow>
   parse_loop sv save t i p s = parse_loop sv save m j p1 s1"
  by (simp add: parse_loop_add)

lemma parse_loop_one: "parse_loop sv save 1 i p s = parse_char sv save i p s"
  by (auto split: option.splits)

text \<open>Up to the newline.\<close>

lemma parse_line_body:
  fixes pre post :: "char list" and c :: nat
  assumes k: "plain_name k" and v: "plain_value v"
  defines "p \<equiv> at_line pre (line (k, v) @ post) c"
  defines "L \<equiv> length pre"
  shows "parse_loop sv save (length k + 1 + length v) L p s =
    Some (Some (p\<lparr>pvar := Some L, pvar_end := Some (L + length k), pval := Some (L + length k + 1)\<rparr>), s)"
    (is "_ = Some (Some ?p3, s)")
proof -
  let ?p1 = "p\<lparr>pvar := Some L\<rparr>"
  let ?p2 = "?p1\<lparr>pvar_end := Some (L + length k)\<rparr>"
  note len = nonempty_plain(1) [OF k] nonempty_plain(2) [OF v]
  have b: "pbuff p = pre @ line (k, v) @ post" "pvar p = None" "pvar_end p = None" "pval p = None"
      "pval_end p = None" "\<not> comment_start p"
    by (simp_all add: p_def at_line_def)
  have name: "pbuff p ! (L + j) = k ! j" if "j < length k" for j
    unfolding b(1) L_def by (rule nth_line(1) [OF that])
  have val: "pbuff p ! (L + length k + 1 + j) = v ! j" if "j < length v" for j
    unfolding b(1) L_def by (rule nth_line(3) [OF that])
  have 1: "parse_loop sv save 1 L p s = Some (Some ?p1, s)"
    unfolding parse_loop_one
    by (rule char_var) (use b name [OF len(1)] plain_nth(1) [OF k len(1)] plain_first(1) [OF k] in simp_all)
  have 2: "parse_loop sv save (length k - 1) (L + 1) ?p1 s = Some (Some ?p1, s)"
  proof (rule parse_loop_stay)
    fix j assume j: "L + 1 \<le> j" "j < L + 1 + (length k - 1)"
    define d where "d = j - L"
    have "j = L + d" "d < length k" using j len by (auto simp: d_def)
    then have "\<not> is_nl (pbuff p ! j) \<and> \<not> is_bl (pbuff p ! j)"
      using name [of d] plain_nth(1) [OF k, of d] by simp
    then show "parse_char sv save j ?p1 s = Some (Some ?p1, s)"
      by (intro char_name) (use b in simp_all)
  qed
  have 3: "parse_loop sv save 1 (L + length k) ?p1 s = Some (Some ?p2, s)"
    unfolding parse_loop_one
    by (rule char_blank) (use b nth_line(2) in \<open>simp_all add: L_def\<close>)
  have 4: "parse_loop sv save 1 (L + length k + 1) ?p2 s = Some (Some ?p3, s)"
    unfolding parse_loop_one
    by (rule char_val) (use b val [OF len(2)] plain_nth(2) [OF v len(2)] plain_first(2) [OF v] in simp_all)
  have 5: "parse_loop sv save (length v - 1) (L + length k + 2) ?p3 s = Some (Some ?p3, s)"
  proof (rule parse_loop_stay)
    fix j assume j: "L + length k + 2 \<le> j" "j < L + length k + 2 + (length v - 1)"
    define d where "d = j - (L + length k + 1)"
    have "j = L + length k + 1 + d" "d < length v" using j len by (auto simp: d_def)
    then have "\<not> is_nl (pbuff p ! j)"
      using val [of d] plain_nth(2) [OF v, of d] by simp
    then show "parse_char sv save j ?p3 s = Some (Some ?p3, s)"
      by (intro char_value) (use b in simp_all)
  qed
  have "parse_loop sv save (length k + 1 + length v) L p s = parse_loop sv save (length k + length v) (L + 1) ?p1 s"
    by (rule parse_loop_then [OF 1]) simp_all
  also have "\<dots> = parse_loop sv save (1 + length v) (L + length k) ?p1 s"
    by (rule parse_loop_then [OF 2]) (use len in simp_all)
  also have "\<dots> = parse_loop sv save (length v) (L + length k + 1) ?p2 s"
    by (rule parse_loop_then [OF 3]) simp_all
  also have "\<dots> = parse_loop sv save (length v - 1) (L + length k + 2) ?p3 s"
    by (rule parse_loop_then [OF 4]) (use len in simp_all)
  finally show ?thesis by (simp only: 5)
qed

lemma clear_separators:
  "(pre @ line (k, v) @ post)[length pre + length k := NUL, Suc (length pre + length k + length v) := NUL] =
    pre @ k @ NUL # v @ NUL # post"
  by (simp add: line_def list_update_append)

text \<open>A whole line: with \<open>save\<close> the pair is handed on and the separators become zero bytes.\<close>

lemma parse_line_save:
  assumes k: "plain_name k" and v: "plain_value v"
  shows "parse_loop sv True (length (line (k, v))) (length pre) (at_line pre (line (k, v) @ post) c) s =
    map_option (\<lambda>s. (Some (at_line (pre @ k @ NUL # v @ [NUL]) post (c + 1)), s)) (sv k (Some v) s)"
proof -
  let ?p = "at_line pre (line (k, v) @ post) c" and ?L = "length pre"
  let ?p3 = "?p\<lparr>pvar := Some ?L, pvar_end := Some (?L + length k), pval := Some (?L + length k + 1)\<rparr>"
  let ?e = "?L + length k + 1 + length v"
  have b: "pbuff ?p = pre @ line (k, v) @ post" by (simp add: at_line_def)
  have esc: "pbuff ?p ! (?e - 1) \<noteq> CHR 0x5C"
    using nth_line(3) [of "length v - 1" v pre k post] nonempty_plain(2) [OF v] plain_last [OF v] by (simp add: b)
  have nul: "NUL \<notin> set k" "NUL \<notin> set v"
    using k v by (auto simp: plain_name_def plain_value_def)
  have "parse_loop sv True (length (line (k, v))) ?L ?p s = parse_char sv True ?e ?p3 s"
    unfolding parse_loop_one [symmetric]
    by (rule parse_loop_then [OF parse_line_body [OF k v]]) (simp_all add: line_def)
  also have "\<dots> = map_option (\<lambda>s. (Some (at_line (pre @ k @ NUL # v @ [NUL]) post (c + 1)), s)) (sv k (Some v) s)"
    using nul by (subst char_end [where a = ?L and b = "?L + length k" and v = "?L + length k + 1"])
      (use esc nth_line(4) [of pre k v post] in
       \<open>simp_all add: b clear_separators cstr_append_NUL at_line_def\<close>)
  finally show ?thesis .
qed

lemma parse_line_check:
  assumes k: "plain_name k" and v: "plain_value v"
  shows "parse_loop sv False (length (line (k, v))) (length pre) (at_line pre (line (k, v) @ post) c) s =
    Some (Some (at_line (pre @ line (k, v)) post (c + 1)), s)"
proof -
  let ?p = "at_line pre (line (k, v) @ post) c" and ?L = "length pre"
  let ?p3 = "?p\<lparr>pvar := Some ?L, pvar_end := Some (?L + length k), pval := Some (?L + length k + 1)\<rparr>"
  let ?e = "?L + length k + 1 + length v"
  have b: "pbuff ?p = pre @ line (k, v) @ post" by (simp add: at_line_def)
  have esc: "pbuff ?p ! (?e - 1) \<noteq> CHR 0x5C"
    using nth_line(3) [of "length v - 1" v pre k post] nonempty_plain(2) [OF v] plain_last [OF v] by (simp add: b)
  have "parse_loop sv False (length (line (k, v))) ?L ?p s = parse_char sv False ?e ?p3 s"
    unfolding parse_loop_one [symmetric]
    by (rule parse_loop_then [OF parse_line_body [OF k v]]) (simp_all add: line_def)
  also have "\<dots> = Some (Some (at_line (pre @ line (k, v)) post (c + 1)), s)"
    by (subst char_end_parse [where a = ?L and b = "?L + length k" and v = "?L + length k + 1"])
      (use esc nth_line(4) [of pre k v post] in \<open>simp_all add: b at_line_def\<close>)
  finally show ?thesis .
qed

text \<open>What a list of pairs does to the environment, one after the other.\<close>

primrec run_saves :: "'s saver \<Rightarrow> (char list \<times> char list) list \<Rightarrow> 's \<Rightarrow> 's option" where
  "run_saves sv [] s = Some s"
| "run_saves sv (kv # kvs) s = (case sv (fst kv) (Some (snd kv)) s of None \<Rightarrow> None | Some s \<Rightarrow> run_saves sv kvs s)"

definition plain_pairs :: "(char list \<times> char list) list \<Rightarrow> bool" where
  "plain_pairs kvs \<longleftrightarrow> list_all (\<lambda>kv. plain_name (fst kv) \<and> plain_value (snd kv)) kvs"

abbreviation env_text :: "(char list \<times> char list) list \<Rightarrow> char list" where
  "env_text kvs \<equiv> concat (map line kvs)"

lemma parse_lines_check:
  "plain_pairs kvs \<Longrightarrow>
   parse_loop sv False (length (env_text kvs)) (length pre) (at_line pre (env_text kvs @ post) c) s =
     Some (Some (at_line (pre @ env_text kvs) post (c + length kvs)), s)"
proof (induction kvs arbitrary: pre c)
  case (Cons kv kvs)
  obtain k v where kv: "kv = (k, v)" by (cases kv)
  from Cons.prems have p: "plain_name k" "plain_value v" "plain_pairs kvs" by (simp_all add: plain_pairs_def kv)
  have "parse_loop sv False (length (env_text (kv # kvs))) (length pre) (at_line pre (env_text (kv # kvs) @ post) c) s
      = parse_loop sv False (length (env_text kvs)) (length (pre @ line (k, v)))
          (at_line (pre @ line (k, v)) (env_text kvs @ post) (c + 1)) s"
    unfolding kv list.map concat.simps append_assoc
    by (rule parse_loop_then [OF parse_line_check [OF p(1,2)]]) simp_all
  also have "\<dots> = Some (Some (at_line (pre @ env_text (kv # kvs)) post (c + length (kv # kvs))), s)"
    by (simp add: Cons.IH [OF p(3)] kv del: length_append)
  finally show ?case .
qed simp

lemma parse_lines_save:
  "plain_pairs kvs \<Longrightarrow> \<exists>done. length done = length (env_text kvs) \<and>
   parse_loop sv True (length (env_text kvs)) (length pre) (at_line pre (env_text kvs @ post) c) s =
     map_option (\<lambda>s. (Some (at_line (pre @ done) post (c + length kvs)), s)) (run_saves sv kvs s)"
proof (induction kvs arbitrary: pre c s)
  case (Cons kv kvs)
  obtain k v where kv: "kv = (k, v)" by (cases kv)
  from Cons.prems have p: "plain_name k" "plain_value v" "plain_pairs kvs" by (simp_all add: plain_pairs_def kv)
  let ?z = "k @ NUL # v @ [NUL]"
  have z: "length (line (k, v)) = Suc (Suc (length k + length v))" by (simp add: line_def)
  note head = parse_line_save [OF p(1,2), of sv pre "env_text kvs @ post" c s]
  show ?case
  proof (cases "sv k (Some v) s")
    case None
    then show ?thesis
      using head by (intro exI [of _ "env_text (kv # kvs)"]) (simp add: kv parse_loop_add)
  next
    case (Some s1)
    from Cons.IH [OF p(3), of "pre @ ?z" "c + 1" s1] obtain d where d: "length d = length (env_text kvs)"
      "parse_loop sv True (length (env_text kvs)) (length (pre @ ?z)) (at_line (pre @ ?z) (env_text kvs @ post) (c + 1)) s1
       = map_option (\<lambda>s. (Some (at_line ((pre @ ?z) @ d) post (c + 1 + length kvs)), s)) (run_saves sv kvs s1)"
      by blast
    have "parse_loop sv True (length (env_text (kv # kvs))) (length pre) (at_line pre (env_text (kv # kvs) @ post) c) s
        = parse_loop sv True (length (env_text kvs)) (length (pre @ ?z)) (at_line (pre @ ?z) (env_text kvs @ post) (c + 1)) s1"
      unfolding kv list.map concat.simps append_assoc length_append
      using head by (intro parse_loop_then) (simp_all add: Some z)
    then show ?thesis
      using d z by (intro exI [of _ "?z @ d"]) (simp add: kv Some)
  qed
qed simp

section \<open>What flashing a text of assignments does\<close>

text \<open>
  C40: \<open>parse_env\<close> reports success, or that nothing was assigned. Its third outcome, the internal
  error for a finished pair that was not picked up, never occurs, whatever the text.
\<close>

theorem parse_env_outcome:
  assumes "parse_env sv save n buff s = Some (ret, e, b, s')"
  shows "(ret, e) = (0, None) \<or> (ret, e) = (1, Some ''No variables set'')"
proof -
  let ?b = "if save then buff[n := NUL] else buff"
  obtain r s1 where r: "parse_loop sv save n 0 (start_state ?b) s = Some (r, s1)"
    using assms by (cases "parse_loop sv save n 0 (start_state ?b) s") (auto simp: parse_env_def)
  from parse_loop_clear [OF _ r] obtain p where p: "r = Some p" by (auto simp: start_state_def)
  show ?thesis
    using assms r p unfolding parse_env_def Let_def by (simp split: option.splits if_splits)
qed

theorem parse_env_outcome_witness:
  "\<exists>b. parse_env (\<lambda>k v s. Some (s @ [(k, v)])) True 3 ''# x0'' [] = Some (1, Some ''No variables set'', b, [])
    \<and> ((1::int, Some ''No variables set'') = (0, None) \<or> (1::int, Some ''No variables set'') = (1, Some ''No variables set''))"
proof -
  have "parse_env (\<lambda>k v s. Some (s @ [(k, v)])) True 3 ''# x0'' [] = Some (1, Some ''No variables set'', ''# x'' @ [NUL], [])"
    by code_simp
  from this parse_env_outcome [OF this] show ?thesis by blast
qed

lemma parse_env_lines:
  assumes "plain_pairs kvs" "kvs \<noteq> []"
  shows "parse_env sv False (length (env_text kvs)) (env_text kvs @ post) s = Some (0, None, env_text kvs @ post, s)"
    and "\<exists>b. parse_env sv True (length (env_text kvs)) (env_text kvs @ post) s =
      map_option (\<lambda>s. (0, None, b, s)) (run_saves sv kvs s)"
proof -
  have start: "start_state b = at_line [] b 0" for b by (simp add: start_state_def at_line_def)
  have fresh: "pvar (at_line a b c) = None" "sets (at_line a b c) = c" "pbuff (at_line a b c) = a @ b" for a b c
    by (simp_all add: at_line_def)
  show "parse_env sv False (length (env_text kvs)) (env_text kvs @ post) s = Some (0, None, env_text kvs @ post, s)"
    using parse_lines_check [OF assms(1), of sv "[]" post 0 s] assms(2)
    by (simp add: parse_env_def start fresh)
  have upd: "(env_text kvs @ post)[length (env_text kvs) := NUL] = env_text kvs @ post[0 := NUL]"
    by (simp add: list_update_append)
  obtain d where "parse_loop sv True (length (env_text kvs)) 0 (at_line [] (env_text kvs @ post[0 := NUL]) 0) s =
     map_option (\<lambda>s. (Some (at_line d (post[0 := NUL]) (length kvs)), s)) (run_saves sv kvs s)"
    using parse_lines_save [OF assms(1), of sv "[]" "post[0 := NUL]" 0 s] by auto
  then show "\<exists>b. parse_env sv True (length (env_text kvs)) (env_text kvs @ post) s =
      map_option (\<lambda>s. (0, None, b, s)) (run_saves sv kvs s)"
    using assms(2) by (intro exI [of _ "d @ post[0 := NUL]"], cases "run_saves sv kvs s")
      (simp_all add: parse_env_def start fresh upd)
qed

lemma run_saves_env:
  "run_saves (save_env hk saveenv) kvs (e, d) = Some s' \<Longrightarrow>
   run_sets (\<lambda>k v. setenv hk k (Some v)) kvs e = Some (fst s')"
  by (induction kvs arbitrary: e d) (auto simp: save_env_def split: option.splits)

lemma run_saves_total:
  "run_sets (\<lambda>k v. setenv hk k (Some v)) kvs e = Some e' \<Longrightarrow>
   \<exists>d'. run_saves (save_env hk saveenv) kvs (e, d) = Some (e', d')"
  by (induction kvs arbitrary: e d) (auto simp: save_env_def split: option.splits)

lemma set_vars_plain:
  "plain_pairs kvs \<Longrightarrow> set_vars kvs m = m ++ map_of (rev kvs)"
proof (induction kvs arbitrary: m)
  case (Cons kv kvs)
  then show ?case
    by (cases kv) (auto simp: plain_pairs_def plain_value_def cstr_id map_add_def fun_eq_iff split: option.split)
qed simp



end
