(* ===== verification/Fb_Tx.thy ===== *)
theory Fb_Tx
  imports UB_Prelude
begin

text \<open>
  The USB side of the fastboot gadget (\<^verbatim>\<open>drivers/usb/gadget/f_fastboot.c\<close>): the request
  structures of \<open>struct f_fastboot\<close>, the linked list of extra IN requests that carries
  multi-part answers, and enabling and disabling the function.

  The list is the one the code builds: nodes in a heap, linked by \<open>next\<close>, with \<open>front\<close> and
  \<open>rear\<close> pointers. An access through a null or freed pointer makes an operation \<open>None\<close>.
\<close>

section \<open>State\<close>

datatype complete_fn =
    Fastboot_complete
  | Compl_do_reset
  | Do_bootm_on_complete
  | Do_exit_on_complete
  | Do_acmd_complete

datatype rx_fn = Rx_handler_command | Rx_handler_dl_image

text \<open>A node; \<open>req_buf\<close> is the buffer of its request, \<open>None\<close> while it has none.\<close>

record usb_req =
  req_buf :: "char list option"
  nxt :: "nat option"

record out_request =
  complete :: rx_fn
  rlength :: u32

text \<open>
  \<open>struct f_fastboot\<close> with the heap of list nodes. \<open>in_req\<close> is the buffer of the standing IN
  request and its completion function, \<open>in_size\<close> the size of that buffer. \<open>sent\<close> are the
  contents handed to \<open>usb_ep_queue\<close> on the IN endpoint so far.
\<close>

record f_fastboot =
  in_req :: "complete_fn option"
  in_size :: nat
  out_req :: "out_request option"
  front :: "nat option"
  rear :: "nat option"
  nodes :: "nat \<rightharpoonup> usb_req"
  out_queued :: bool
  sent :: "char list list"

text \<open>
  What the function gets from outside: the allocator for nodes, whether a request with its buffer
  can be allocated, whether an endpoint can be enabled, and the result of \<open>usb_ep_queue\<close>.
\<close>

record usb_env =
  malloc_node :: "f_fastboot \<Rightarrow> nat option"
  start_ok :: "f_fastboot \<Rightarrow> bool"
  enable_ret :: "f_fastboot \<Rightarrow> int"
  queue_ret :: "f_fastboot \<Rightarrow> int"

definition EP_BUFFER_SIZE :: nat where "EP_BUFFER_SIZE = 4096"
definition EINVAL :: int where "EINVAL = 22"
definition ENOMEM :: int where "ENOMEM = 12"

section \<open>Operations\<close>

text \<open>The loop of \<open>fastboot_disable\<close> that frees the list.\<close>

partial_function (option) free_fifo :: "f_fastboot \<Rightarrow> f_fastboot option" where
  "free_fifo fb =
     (case front fb of
        None \<Rightarrow> Some fb
      | Some req \<Rightarrow>
          (case nodes fb req of
             None \<Rightarrow> None
           | Some nd \<Rightarrow>
               if req_buf nd = None then None
               else free_fifo (fb\<lparr>front := nxt nd, nodes := (nodes fb)(req := None)\<rparr>)))"

declare free_fifo.simps [code]

definition fastboot_disable :: "f_fastboot \<Rightarrow> f_fastboot option" where
  "fastboot_disable fb =
     (let fb = fb\<lparr>out_req := None\<rparr> in
      if in_req fb \<noteq> None then
        map_option (\<lambda>fb. fb\<lparr>rear := None, in_req := None\<rparr>) (free_fifo fb)
      else Some fb)"

definition fastboot_fifo_complete :: "int \<Rightarrow> f_fastboot \<Rightarrow> f_fastboot option" where
  "fastboot_fifo_complete status fb =
     (if status = 0 then
        case front fb of
          Some request \<Rightarrow>
            map_option (\<lambda>nd. fb\<lparr>front := nxt nd, nodes := (nodes fb)(request := None)\<rparr>) (nodes fb request)
        | None \<Rightarrow> Some fb
      else Some fb)"

text \<open>
  \<open>fastboot_set_alt\<close>: both endpoints are enabled and get a request, the list starts empty and
  the OUT request is queued; a failure disables the function again. \<open>things\<close> is
  \<open>CONFIG_ANDROID_THINGS_SUPPORT\<close>, which gives the IN request a larger buffer.
\<close>

definition fastboot_set_alt :: "usb_env \<Rightarrow> bool \<Rightarrow> f_fastboot \<Rightarrow> (int \<times> f_fastboot) option" where
  "fastboot_set_alt ue things fb =
     (let ret = enable_ret ue fb; err = (\<lambda>ret fb. map_option (Pair ret) (fastboot_disable fb)) in
      if ret \<noteq> 0 then Some (ret, fb)
      else if \<not> start_ok ue fb then err (- EINVAL) (fb\<lparr>out_req := None\<rparr>)
      else
        let fb = fb\<lparr>out_req := Some \<lparr>complete = Rx_handler_command, rlength = of_nat EP_BUFFER_SIZE\<rparr>\<rparr>;
            ret = enable_ret ue fb in
        if ret \<noteq> 0 then err ret fb
        else if \<not> start_ok ue fb then err (- EINVAL) (fb\<lparr>in_req := None\<rparr>)
        else
          let fb = fb\<lparr>in_req := Some Fastboot_complete,
                      in_size := (if things then EP_BUFFER_SIZE * 32 else EP_BUFFER_SIZE),
                      front := None, rear := None\<rparr>;
              ret = queue_ret ue fb in
          if ret \<noteq> 0 then err ret fb else Some (0, fb\<lparr>out_queued := True\<rparr>))"

text \<open>
  \<open>fastboot_tx_write_more\<close>: a new node goes to the end of the list, gets its own request and the
  request is queued.
\<close>

definition fifo_link :: "nat \<Rightarrow> f_fastboot \<Rightarrow> f_fastboot option" where
  "fifo_link req fb =
     (let fb = fb\<lparr>nodes := (nodes fb)(req \<mapsto> \<lparr>req_buf = None, nxt = None\<rparr>)\<rparr> in
      if front fb = None \<and> rear fb = None then Some (fb\<lparr>front := Some req, rear := Some req\<rparr>)
      else
        case rear fb of
          None \<Rightarrow> None
        | Some r \<Rightarrow>
            (case nodes fb r of
               None \<Rightarrow> None
             | Some nd \<Rightarrow>
                 Some (fb\<lparr>nodes := (nodes fb)(r \<mapsto> nd\<lparr>nxt := Some req\<rparr>, req \<mapsto> \<lparr>req_buf = None, nxt = None\<rparr>), rear := Some req\<rparr>)))"

definition fastboot_tx_write_more :: "usb_env \<Rightarrow> char list \<Rightarrow> f_fastboot \<Rightarrow> (int \<times> f_fastboot) option" where
  "fastboot_tx_write_more ue buffer fb =
     (case malloc_node ue fb of
        None \<Rightarrow> Some (- ENOMEM, fb)
      | Some req \<Rightarrow>
          (case fifo_link req fb of
             None \<Rightarrow> None
           | Some fb \<Rightarrow>
               if \<not> start_ok ue fb then map_option (Pair (- EINVAL)) (fastboot_disable fb)
               else if EP_BUFFER_SIZE < length (cstr buffer) then None
               else
                 let fb = fb\<lparr>nodes := (nodes fb)(req := map_option (\<lambda>nd. nd\<lparr>req_buf := Some (cstr buffer)\<rparr>) (nodes fb req))\<rparr> in
                 if queue_ret ue fb \<noteq> 0 then Some (- EINVAL, fb)
                 else Some (0, fb\<lparr>sent := sent fb @ [cstr buffer]\<rparr>)))"

text \<open>
  \<open>fastboot_tx_write\<close> copies into the standing IN request, whose buffer it must fit, and queues
  it again; it reports success whatever the queue says.
\<close>

definition fastboot_tx_write :: "usb_env \<Rightarrow> char list \<Rightarrow> f_fastboot \<Rightarrow> (int \<times> f_fastboot) option" where
  "fastboot_tx_write ue buffer fb =
     (if in_req fb = None \<or> in_size fb < length buffer then None
      else if queue_ret ue fb \<noteq> 0 then Some (0, fb)
      else Some (0, fb\<lparr>sent := sent fb @ [buffer]\<rparr>))"

definition fastboot_tx_write_str :: "usb_env \<Rightarrow> char list \<Rightarrow> f_fastboot \<Rightarrow> (int \<times> f_fastboot) option" where
  "fastboot_tx_write_str ue buffer fb = fastboot_tx_write ue (cstr buffer) fb"

section \<open>The list as a queue\<close>

text \<open>Operations repeated, as long as each one succeeds.\<close>

primrec put_all :: "('a \<Rightarrow> 'q \<Rightarrow> 'q option) \<Rightarrow> 'a list \<Rightarrow> 'q \<Rightarrow> 'q option" where
  "put_all enq [] q = Some q"
| "put_all enq (x # xs) q = (case enq x q of None \<Rightarrow> None | Some q \<Rightarrow> put_all enq xs q)"

primrec take_n :: "('q \<Rightarrow> 'q option) \<Rightarrow> nat \<Rightarrow> 'q \<Rightarrow> 'q option" where
  "take_n deq 0 q = Some q"
| "take_n deq (Suc n) q = (case deq q of None \<Rightarrow> None | Some q \<Rightarrow> take_n deq n q)"

text \<open>
  The interface of a queue that is filled and then emptied. \<open>rep q xs\<close> says that the queue holds
  \<open>xs\<close>, \<open>drain q xs\<close> that \<open>xs\<close> is still to be taken out.
\<close>

locale msg_queue =
  fixes rep :: "'q \<Rightarrow> 'a list \<Rightarrow> bool"
    and drain :: "'q \<Rightarrow> 'a list \<Rightarrow> bool"
    and enq :: "'a \<Rightarrow> 'q \<Rightarrow> 'q option"
    and deq :: "'q \<Rightarrow> 'q option"
    and ok :: "'a \<Rightarrow> bool"
  assumes enq_rep: "rep q xs \<Longrightarrow> ok x \<Longrightarrow> \<exists>q'. enq x q = Some q' \<and> rep q' (xs @ [x])"
    and rep_drain: "rep q xs \<Longrightarrow> drain q xs"
    and deq_drain: "drain q (x # xs) \<Longrightarrow> \<exists>q'. deq q = Some q' \<and> drain q' xs"
begin

lemma put_all_rep:
  "rep q xs \<Longrightarrow> list_all ok ys \<Longrightarrow> \<exists>q'. put_all enq ys q = Some q' \<and> rep q' (xs @ ys)"
proof (induction ys arbitrary: q xs)
  case (Cons y ys)
  from Cons.prems obtain q1 where "enq y q = Some q1" "rep q1 (xs @ [y])"
    using enq_rep by fastforce
  with Cons.IH [of q1 "xs @ [y]"] Cons.prems show ?case by simp
qed simp

lemma take_n_drain: "drain q (xs @ ys) \<Longrightarrow> \<exists>q'. take_n deq (length xs) q = Some q' \<and> drain q' ys"
proof (induction xs arbitrary: q)
  case (Cons x xs)
  then obtain q1 where "deq q = Some q1" "drain q1 (xs @ ys)"
    using deq_drain [of q x "xs @ ys"] by auto
  with Cons.IH show ?case by simp
qed simp

text \<open>What was put in can be taken out again, all of it.\<close>

lemma fill_and_drain:
  assumes "rep q []" "list_all ok xs"
  shows "\<exists>q1 q2. put_all enq xs q = Some q1 \<and> rep q1 xs \<and> take_n deq (length xs) q1 = Some q2 \<and> drain q2 []"
proof -
  obtain q1 where "put_all enq xs q = Some q1" "rep q1 xs"
    using put_all_rep [OF assms] by auto
  then show ?thesis using rep_drain take_n_drain [of q1 xs "[]"] by auto
qed

end

subsection \<open>The linked list\<close>

text \<open>The nodes from \<open>p\<close> on are those at \<open>as\<close>, with the buffers \<open>xs\<close>.\<close>

fun linked :: "(nat \<rightharpoonup> usb_req) \<Rightarrow> nat option \<Rightarrow> nat list \<Rightarrow> char list list \<Rightarrow> bool" where
  "linked ns p [] [] \<longleftrightarrow> p = None"
| "linked ns p (a # as) (x # xs) \<longleftrightarrow>
     p = Some a \<and> (\<exists>nd. ns a = Some nd \<and> req_buf nd = Some x \<and> linked ns (nxt nd) as xs)"
| "linked ns p _ _ \<longleftrightarrow> False"

lemma linked_cong: "(\<And>a. a \<in> set as \<Longrightarrow> ns' a = ns a) \<Longrightarrow> linked ns' p as xs = linked ns p as xs"
  by (induction ns p as xs rule: linked.induct) auto

lemma linked_None [simp]: "linked ns None as xs \<longleftrightarrow> as = [] \<and> xs = []"
  by (cases "(ns, None :: nat option, as, xs)" rule: linked.cases) auto

lemma linked_append_node:
  assumes "linked ns p as xs" "as \<noteq> []" "distinct as" "n \<notin> set as" "ns (last as) = Some nd"
  shows "linked (ns(last as \<mapsto> nd\<lparr>nxt := Some n\<rparr>, n \<mapsto> \<lparr>req_buf = Some x, nxt = None\<rparr>)) p (as @ [n]) (xs @ [x])"
  using assms
proof (induction ns p as xs rule: linked.induct)
  case (2 ns p a as y xs)
  let ?ns = "ns(last (a # as) \<mapsto> nd\<lparr>nxt := Some n\<rparr>, n \<mapsto> \<lparr>req_buf = Some x, nxt = None\<rparr>)"
  from "2.prems"(1) obtain nda where nda: "p = Some a" "ns a = Some nda" "req_buf nda = Some y" "linked ns (nxt nda) as xs"
    by auto
  show ?case
  proof (cases "as = []")
    case True
    then have "xs = []" using nda(4) by (cases xs) auto
    with True nda "2.prems" show ?thesis by auto
  next
    case False
    have "linked (ns(last as \<mapsto> nd\<lparr>nxt := Some n\<rparr>, n \<mapsto> \<lparr>req_buf = Some x, nxt = None\<rparr>)) (nxt nda) (as @ [n]) (xs @ [x])"
      by (rule "2.IH" [OF nda(4)]) (use False "2.prems" in auto)
    moreover have "a \<noteq> last as" using False "2.prems"(3) last_in_set by fastforce
    ultimately show ?thesis using nda "2.prems"(4) False by (simp add: fun_upd_def)
  qed
qed auto

text \<open>
  The environment keeps its promises: allocation returns a free node, requests can be allocated and
  queued.
\<close>

definition usb_ok :: "usb_env \<Rightarrow> bool" where
  "usb_ok ue \<longleftrightarrow> (\<forall>fb. start_ok ue fb \<and> queue_ret ue fb = 0
     \<and> (finite (dom (nodes fb)) \<longrightarrow> (\<exists>a. malloc_node ue fb = Some a \<and> nodes fb a = None)))"

text \<open>
  \<open>fifo_drain\<close>: the list from \<open>front\<close> on holds \<open>xs\<close> and the heap is otherwise \<open>h\<close>;
  \<open>fifo_rep\<close>: \<open>rear\<close> is its last node as well.
\<close>

definition fifo_drain :: "(nat \<rightharpoonup> usb_req) \<Rightarrow> f_fastboot \<Rightarrow> char list list \<Rightarrow> bool" where
  "fifo_drain h fb xs \<longleftrightarrow> (\<exists>as. distinct as \<and> linked (nodes fb) (front fb) as xs
     \<and> (\<forall>a \<in> set as. h a = None) \<and> (\<forall>a. a \<notin> set as \<longrightarrow> nodes fb a = h a))"

definition fifo_rep :: "usb_env \<Rightarrow> (nat \<rightharpoonup> usb_req) \<Rightarrow> char list list \<Rightarrow> f_fastboot \<Rightarrow> char list list \<Rightarrow> bool" where
  "fifo_rep ue h out fb xs \<longleftrightarrow> usb_ok ue \<and> finite (dom h) \<and> sent fb = out @ xs \<and> (\<exists>as. distinct as \<and> linked (nodes fb) (front fb) as xs
     \<and> rear fb = (if as = [] then None else Some (last as))
     \<and> (\<forall>a \<in> set as. h a = None) \<and> (\<forall>a. a \<notin> set as \<longrightarrow> nodes fb a = h a))"

definition message_ok :: "char list \<Rightarrow> bool" where
  "message_ok x \<longleftrightarrow> NUL \<notin> set x \<and> length x \<le> EP_BUFFER_SIZE"

lemma fifo_rep_drain: "fifo_rep ue h out fb xs \<Longrightarrow> fifo_drain h fb xs"
  unfolding fifo_rep_def fifo_drain_def by blast

lemma linked_front: "linked ns p as xs \<Longrightarrow> p = None \<longleftrightarrow> as = []"
  by (cases "(ns, p, as, xs)" rule: linked.cases) auto

lemma linked_nodes: "linked ns p as xs \<Longrightarrow> a \<in> set as \<Longrightarrow> ns a \<noteq> None"
  by (induction ns p as xs rule: linked.induct) auto

lemma fifo_rep_finite:
  assumes "fifo_rep ue h out fb xs"
  shows "finite (dom (nodes fb))"
proof -
  obtain as where "\<forall>a. a \<notin> set as \<longrightarrow> nodes fb a = h a" using assms by (auto simp: fifo_rep_def)
  then have "dom (nodes fb) \<subseteq> dom h \<union> set as" by (auto simp: dom_def)
  then show ?thesis using assms finite_subset by (fastforce simp: fifo_rep_def)
qed

lemma fifo_complete_drain:
  assumes "fifo_drain h fb (x # xs)"
  shows "\<exists>fb'. fastboot_fifo_complete 0 fb = Some fb' \<and> fifo_drain h fb' xs"
proof -
  obtain as where as: "distinct as" "linked (nodes fb) (front fb) as (x # xs)" "\<forall>a \<in> set as. h a = None"
    "\<forall>a. a \<notin> set as \<longrightarrow> nodes fb a = h a"
    using assms unfolding fifo_drain_def by blast
  then obtain a as' where a: "as = a # as'" by (cases as) auto
  with as obtain nd where nd: "front fb = Some a" "nodes fb a = Some nd" "linked (nodes fb) (nxt nd) as' xs" by auto
  let ?fb = "fb\<lparr>front := nxt nd, nodes := (nodes fb)(a := None)\<rparr>"
  have "linked (nodes ?fb) (front ?fb) as' xs"
    using nd(3) as(1) by (subst linked_cong [where ns = "nodes fb"]) (auto simp: a)
  then have "fifo_drain h ?fb xs"
    unfolding fifo_drain_def using as by (intro exI [of _ as']) (auto simp: a)
  then show ?thesis using nd by (simp add: fastboot_fifo_complete_def)
qed

lemma fifo_link_rep:
  assumes "fifo_rep ue h out fb xs" "nodes fb n = None"
  shows "\<exists>fb1. fifo_link n fb = Some fb1 \<and> (\<exists>as. distinct as \<and> n \<notin> set as \<and> h n = None
    \<and> linked ((nodes fb1)(n \<mapsto> \<lparr>req_buf = Some x, nxt = None\<rparr>)) (front fb1) (as @ [n]) (xs @ [x])
    \<and> nodes fb1 n = Some \<lparr>req_buf = None, nxt = None\<rparr> \<and> rear fb1 = Some n \<and> sent fb1 = sent fb
    \<and> (\<forall>a \<in> set as. h a = None) \<and> (\<forall>a. a \<notin> set (as @ [n]) \<longrightarrow> nodes fb1 a = h a))"
proof -
  obtain as where as: "distinct as" "linked (nodes fb) (front fb) as xs"
    "rear fb = (if as = [] then None else Some (last as))"
    "\<forall>a \<in> set as. h a = None" "\<forall>a. a \<notin> set as \<longrightarrow> nodes fb a = h a"
    using assms(1) unfolding fifo_rep_def by blast
  have n: "n \<notin> set as" using linked_nodes [OF as(2), of n] assms(2) by auto
  then have hn: "h n = None" using as(5) assms(2) by auto
  show ?thesis
  proof (cases "as = []")
    case True
    then have "xs = []" "front fb = None" using as(2) by (cases xs, auto)+
    with True as n hn show ?thesis
      by (intro exI [of _ "fb\<lparr>nodes := (nodes fb)(n \<mapsto> \<lparr>req_buf = None, nxt = None\<rparr>), front := Some n, rear := Some n\<rparr>"]
          conjI exI [of _ "[]"]) (simp_all add: fifo_link_def)
  next
    case False
    then have l: "last as \<in> set as" by simp
    then obtain nd where nd: "nodes fb (last as) = Some nd" using linked_nodes [OF as(2)] by blast
    have ne: "last as \<noteq> n" using l n by auto
    let ?fb1 = "fb\<lparr>nodes := (nodes fb)(n \<mapsto> \<lparr>req_buf = None, nxt = None\<rparr>,
        last as \<mapsto> nd\<lparr>nxt := Some n\<rparr>, n \<mapsto> \<lparr>req_buf = None, nxt = None\<rparr>), rear := Some n\<rparr>"
    have "fifo_link n fb = Some ?fb1"
      using False ne nd as(3) by (simp add: fifo_link_def)
    moreover have "linked ((nodes ?fb1)(n \<mapsto> \<lparr>req_buf = Some x, nxt = None\<rparr>)) (front ?fb1) (as @ [n]) (xs @ [x])"
      using linked_append_node [OF as(2) False as(1) n nd, of x] ne by (simp add: fun_upd_twist)
    moreover have "\<forall>a. a \<notin> set (as @ [n]) \<longrightarrow> nodes ?fb1 a = h a"
      using as(5) l by auto
    ultimately show ?thesis using as n hn by (intro exI [of _ ?fb1] conjI exI [of _ as]) simp_all
  qed
qed

lemma tx_write_more_rep:
  assumes "fifo_rep ue h out fb xs" "message_ok x"
  shows "\<exists>fb'. fastboot_tx_write_more ue x fb = Some (0, fb') \<and> fifo_rep ue h out fb' (xs @ [x])"
proof -
  have ue: "usb_ok ue" using assms(1) by (simp add: fifo_rep_def)
  then obtain n where n: "malloc_node ue fb = Some n" "nodes fb n = None"
    using fifo_rep_finite [OF assms(1)] by (auto simp: usb_ok_def)
  from fifo_link_rep [OF assms(1) n(2), of x] obtain fb1 as where fb1: "fifo_link n fb = Some fb1"
    "distinct as" "n \<notin> set as" "h n = None"
    "linked ((nodes fb1)(n \<mapsto> \<lparr>req_buf = Some x, nxt = None\<rparr>)) (front fb1) (as @ [n]) (xs @ [x])"
    "nodes fb1 n = Some \<lparr>req_buf = None, nxt = None\<rparr>" "rear fb1 = Some n" "sent fb1 = sent fb"
    "\<forall>a \<in> set as. h a = None" "\<forall>a. a \<notin> set (as @ [n]) \<longrightarrow> nodes fb1 a = h a"
    by blast
  let ?fb' = "fb1\<lparr>nodes := (nodes fb1)(n \<mapsto> \<lparr>req_buf = Some x, nxt = None\<rparr>), sent := sent fb1 @ [x]\<rparr>"
  have "fastboot_tx_write_more ue x fb = Some (0, ?fb')"
    using ue n fb1 assms(2)
    by (simp add: fastboot_tx_write_more_def usb_ok_def message_ok_def cstr_id)
  moreover have "fifo_rep ue h out ?fb' (xs @ [x])"
    unfolding fifo_rep_def using ue fb1 assms(1)
    by (intro conjI exI [of _ "as @ [n]"]) (simp_all add: fifo_rep_def)
  ultimately show ?thesis by blast
qed

interpretation txq: msg_queue "fifo_rep ue h out" "fifo_drain h"
  "\<lambda>x fb. map_option snd (fastboot_tx_write_more ue x fb)" "fastboot_fifo_complete 0" message_ok for ue h out
proof (unfold_locales, goal_cases)
  case (1 q xs x)
  then show ?case using tx_write_more_rep [of ue h out q xs x] by auto
qed (simp_all add: fifo_rep_drain fifo_complete_drain)

section \<open>Multi-part answers\<close>


text \<open>An environment that hands out the lowest free address, and the function after \<open>set_alt\<close>.\<close>

partial_function (option) first_free :: "(nat \<rightharpoonup> usb_req) \<Rightarrow> nat \<Rightarrow> nat option" where
  "first_free ns a = (if ns a = None then Some a else first_free ns (a + 1))"

declare first_free.simps [code]

definition plain_usb :: usb_env where
  "plain_usb = \<lparr>malloc_node = (\<lambda>fb. first_free (nodes fb) 0), start_ok = (\<lambda>_. True),
     enable_ret = (\<lambda>_. 0), queue_ret = (\<lambda>_. 0)\<rparr>"

lemma first_free_ends: "ns (a + n) = None \<Longrightarrow> \<exists>b. first_free ns a = Some b \<and> ns b = None"
proof (induction n arbitrary: a)
  case 0
  then show ?case by (simp add: first_free.simps [of ns a])
next
  case (Suc n)
  then show ?case using Suc.IH [of "a + 1"] by (auto simp: first_free.simps [of ns a])
qed

lemma plain_usb_ok: "usb_ok plain_usb"
proof -
  have "\<exists>a. first_free ns 0 = Some a \<and> ns a = None" if "finite (dom ns)" for ns
    using ex_new_if_finite [OF infinite_UNIV_nat that] first_free_ends [of ns 0] by auto
  then show ?thesis by (simp add: usb_ok_def plain_usb_def)
qed

definition idle_fb :: f_fastboot where
  "idle_fb = \<lparr>in_req = Some Fastboot_complete, in_size = EP_BUFFER_SIZE,
     out_req = Some \<lparr>complete = Rx_handler_command, rlength = of_nat EP_BUFFER_SIZE\<rparr>,
     front = None, rear = None, nodes = Map.empty, out_queued = True, sent = []\<rparr>"


text \<open>
  When all completions of an answer have come in before the next message of the same command is
  written, \<open>rear\<close> points to a freed node and the next write goes through it.
\<close>

lemma tx_after_drain:
  assumes "front fb = None" "rear fb = Some r" "nodes fb r = None" "malloc_node ue fb = Some a" "a \<noteq> r"
  shows "fastboot_tx_write_more ue x fb = None"
  using assms by (simp add: fastboot_tx_write_more_def fifo_link_def)

lemma tx_drained_rear:
  "rear (the (Option.bind (fifo_link 7 idle_fb) (fastboot_fifo_complete 0))) = Some 7
   \<and> front (the (Option.bind (fifo_link 7 idle_fb) (fastboot_fifo_complete 0))) = None"
  by (simp add: fifo_link_def idle_fb_def fastboot_fifo_complete_def)

text \<open>When no request can be allocated for a node, disabling the function reads its missing request.\<close>

lemma tx_no_request:
  assumes "front fb = None" "rear fb = None" "in_req fb \<noteq> None" "malloc_node ue fb = Some a" "\<And>fb. \<not> start_ok ue fb"
  shows "fastboot_tx_write_more ue x fb = None"
  using assms by (simp add: fastboot_tx_write_more_def fifo_link_def fastboot_disable_def free_fifo.simps)

section \<open>Enabling the function\<close>

text \<open>
  After a successful \<open>set_alt\<close> the function listens for commands with an empty list; after a
  failed one it holds no OUT request and no IN request of its own, unless the OUT endpoint could
  not even be enabled, which changes nothing.
\<close>

lemma set_alt_result:
  assumes "front fb = None" "fastboot_set_alt ue things fb = Some (ret, fb')"
  shows "if ret = 0 then out_req fb' = Some \<lparr>complete = Rx_handler_command, rlength = of_nat EP_BUFFER_SIZE\<rparr>
           \<and> in_req fb' = Some Fastboot_complete \<and> front fb' = None \<and> rear fb' = None \<and> out_queued fb'
         else fb' = fb \<or> (out_req fb' = None \<and> in_req fb' = None)"
  using assms
  by (auto simp: fastboot_set_alt_def fastboot_disable_def EINVAL_def free_fifo.simps Let_def split: if_splits)

end
