(* ===== verification/Fb_State.thy ===== *)
theory Fb_State
  imports Fb_Ptable Fb_Sparse Fb_ParseEnv Fb_Tx
begin

text \<open>
  The state of the fastboot gadget and what it stands on, for the handlers of
  \<^verbatim>\<open>drivers/usb/gadget/f_fastboot.c\<close>, in a build for MMC storage, without SATA, firmware
  partitions, AVB and Trusty.

  \<open>machine\<close> is what the commands work on: memory, the environment, the one MMC device with its
  block cache, and the rest of the system (\<open>outer\<close>). \<open>board\<close> holds the configuration and the
  functions the handlers call outside of this file: the command interpreter, card initialisation,
  the partition table reader, the allocator and the USB controller.
\<close>

section \<open>The machine and the board\<close>

record ('c, 'w) machine =
  ram :: mem
  envst :: env_state
  mmcd :: "'c mmcdev"
  outer :: 'w

record ('c, 'w) board =
  cfg_ab :: bool
  cfg_lock :: bool
  cfg_lockstatus :: bool
  cfg_things :: bool
  cpu :: soc
  buf_addr :: u32
  buf_size :: u32
  flash_mmc_dev :: u8
  version :: "char list"
  serial :: "char list option"
  maxpacket :: u32
  hooks :: env_hooks
  early :: "char list \<Rightarrow> char list option"
  usbenv :: usb_env
  memalign :: "u32 \<Rightarrow> addr option"
  run_command :: "char list \<Rightarrow> ('c, 'w) machine \<Rightarrow> (int \<times> ('c, 'w) machine) option"
  board_setup :: "('c, 'w) machine \<Rightarrow> ('c, 'w) machine"
  mmc_found :: "u32 \<Rightarrow> ('c, 'w) machine \<Rightarrow> bool"
  mmc_init :: "u32 \<Rightarrow> ('c, 'w) machine \<Rightarrow> int \<times> ('c, 'w) machine"
  mmc_part_config :: "u32 \<Rightarrow> ('c, 'w) machine \<Rightarrow> u8"
  curr_device :: "('c, 'w) machine \<Rightarrow> u32"
  mmc_getwp :: "('c, 'w) machine \<Rightarrow> int"
  mmc_get_env_dev :: "('c, 'w) machine \<Rightarrow> u32"
  blk_get_dev :: "u32 \<Rightarrow> ('c, 'w) machine \<Rightarrow> bool"
  dev_type_unknown :: "u32 \<Rightarrow> ('c, 'w) machine \<Rightarrow> bool"
  part_get_info :: "u32 \<Rightarrow> ('c, 'w) machine \<Rightarrow> disk_partition option"
  blk_get_device_part_str :: "char list \<Rightarrow> ('c, 'w) machine \<Rightarrow> disk_partition option"
  write_backup_gpt_partitions :: "addr \<Rightarrow> ('c, 'w) machine \<Rightarrow> int \<times> ('c, 'w) machine"
  set_reboot_flag :: "('c, 'w) machine \<Rightarrow> int \<times> ('c, 'w) machine"
  enable_fastboot_command :: "('c, 'w) machine \<Rightarrow> ('c, 'w) machine"
  saveenv :: "('c, 'w) machine \<Rightarrow> ('c, 'w) machine"

section \<open>The gadget\<close>

datatype lock_state = FASTBOOT_UNLOCK | FASTBOOT_LOCK | FASTBOOT_LOCK_ERROR

text \<open>
  The globals of the gadget. \<open>response\<close> is the buffer \<open>fb_response_str\<close> points to, as a string;
  \<open>None\<close> while nothing was written to it.
\<close>

record ('c, 'w) fb_state =
  ptab :: ptable
  fastboot_devinfo :: devinfo
  download_size :: u32
  download_bytes :: u32
  download_bytes_unpadded :: u32
  transfer_buffer :: addr
  transfer_buffer_size :: u32
  g_lockstat :: lock_state
  g_a_cmd_buff :: "char list"
  response :: "char list option"
  usb :: f_fastboot
  mach :: "('c, 'w) machine"

definition FASTBOOT_RESPONSE_LEN :: nat where "FASTBOOT_RESPONSE_LEN = 65"

text \<open>The tag with its zero byte by \<open>strncpy\<close>, then the reason by \<open>strncat\<close> with a limit.\<close>

definition respond :: "char list \<Rightarrow> char list \<Rightarrow> ('c, 'w) fb_state \<Rightarrow> ('c, 'w) fb_state" where
  "respond tag reason st = st\<lparr>response := Some (tag @ take (FASTBOOT_RESPONSE_LEN - 4 - 1) (cstr reason))\<rparr>"

definition fastboot_fail :: "char list \<Rightarrow> ('c, 'w) fb_state \<Rightarrow> ('c, 'w) fb_state" where
  "fastboot_fail reason st = respond ''FAIL'' reason st"

definition fastboot_okay :: "char list \<Rightarrow> ('c, 'w) fb_state \<Rightarrow> ('c, 'w) fb_state" where
  "fastboot_okay reason st = respond ''OKAY'' reason st"

definition IF_TYPE_MMC :: int where "IF_TYPE_MMC = 6"

definition genv :: "('c, 'w) board \<Rightarrow> char list \<Rightarrow> ('c, 'w) fb_state \<Rightarrow> char list option" where
  "genv bd name st = getenv (hooks bd) (early bd) name (envst (mach st))"

text \<open>Sending a string as the standing IN request, and as a further request of its own.\<close>

definition tx_str :: "('c, 'w) board \<Rightarrow> char list \<Rightarrow> ('c, 'w) fb_state \<Rightarrow> ('c, 'w) fb_state option" where
  "tx_str bd s st = map_option (\<lambda>(_, u). st\<lparr>usb := u\<rparr>) (fastboot_tx_write_str (usbenv bd) s (usb st))"

definition tx_more :: "('c, 'w) board \<Rightarrow> char list \<Rightarrow> ('c, 'w) fb_state \<Rightarrow> ('c, 'w) fb_state option" where
  "tx_more bd s st = map_option (\<lambda>(_, u). st\<lparr>usb := u\<rparr>) (fastboot_tx_write_more (usbenv bd) s (usb st))"

definition run_cmd :: "('c, 'w) board \<Rightarrow> char list \<Rightarrow> ('c, 'w) fb_state \<Rightarrow> (int \<times> ('c, 'w) fb_state) option" where
  "run_cmd bd cmd st = map_option (\<lambda>(r, m). (r, st\<lparr>mach := m\<rparr>)) (run_command bd (cstr cmd) (mach st))"

section \<open>Setting up\<close>

text \<open>The device as the partition loader sees it, after the forced initialisation.\<close>

definition target_of :: "('c, 'w) board \<Rightarrow> u32 \<Rightarrow> ('c, 'w) machine \<Rightarrow> mmc_target" where
  "target_of bd dev m =
     \<lparr>usable = blk_get_dev bd dev m \<and> \<not> dev_type_unknown bd dev m, part_config = mmc_part_config bd dev m,
      tblksz = read_bl_len (fst (mmcd m)), tlba = lba (fst (mmcd m)), part_info = (\<lambda>i. part_get_info bd i m)\<rparr>"

definition load_partitions_st :: "('c, 'w) board \<Rightarrow> ('c, 'w) fb_state \<Rightarrow> ('c, 'w) fb_state" where
  "load_partitions_st bd st =
     (let dev = ucast (dev_id (fastboot_devinfo st));
          m = (if dtype (fastboot_devinfo st) = DEV_MMC then snd (mmc_init bd dev (mach st)) else mach st) in
      st\<lparr>mach := m, ptab := load_partitions (cfg_ab bd) (cpu bd) (dtype (fastboot_devinfo st)) (target_of bd dev m) (ptab st)\<rparr>)"

definition parameters_setup :: "('c, 'w) board \<Rightarrow> ('c, 'w) fb_state \<Rightarrow> ('c, 'w) fb_state" where
  "parameters_setup bd st =
     st\<lparr>transfer_buffer := getenv_ulong (hooks bd) (early bd) ''fastboot_buffer'' 16 (buf_addr bd) (envst (mach st)),
        transfer_buffer_size := buf_size bd\<rparr>"

definition fastboot_setup :: "('c, 'w) board \<Rightarrow> ('c, 'w) fb_state \<Rightarrow> ('c, 'w) fb_state" where
  "fastboot_setup bd st =
     (let st = st\<lparr>mach := board_setup bd (mach st)\<rparr>;
          st = (case fastboot_setup_dev (\<lambda>k. genv bd k st) (flash_mmc_dev bd) (fastboot_devinfo st) of
                  None \<Rightarrow> st
                | Some (dv, sw) \<Rightarrow>
                    let st = st\<lparr>fastboot_devinfo := dv\<rparr> in if sw then load_partitions_st bd st else st) in
      parameters_setup bd st)"

end
