(* ===== verification/C_Hex.thy ===== *)
theory C_Hex
  imports C_Printf
begin

text \<open>
  Numbers in hexadecimal as the gadget prints and parses them: \<open>%x\<close> and \<open>%08x\<close> of
  \<^verbatim>\<open>lib/vsprintf.c\<close> against \<open>simple_strtoul\<close> of \<^verbatim>\<open>lib/strto.c\<close>.
\<close>

definition hex :: "u32 \<Rightarrow> char list" where
  "hex n = rev (map (digit_char True) (nat_digits 16 (unat n)))"

lemma number_hex: "number (ucast val) 16 (-1) (-1) (no_flags\<lparr>SMALL := True\<rparr>) = hex val"
  by (simp add: number_unsigned no_flags_def number_tmp_digits unat_ucast_u64 hex_def)

lemma length_hex: "length (hex n) \<le> 8"
  using length_nat_digits [of 16 "unat n" 7] unat_u32_less [of n] by (simp add: hex_def)

lemma hex_Cons: "\<exists>c cs. hex n = c # cs \<and> isxdigit c"
proof -
  let ?ds = "rev (nat_digits 16 (unat n))"
  obtain d ds where ds: "?ds = d # ds" by (cases ?ds) auto
  then have "d \<in> set (nat_digits 16 (unat n))" by (metis list.set_intros(1) set_rev)
  then have "d < 16" using nat_digits_less [of 16 d "unat n"] by simp
  then show ?thesis using digit_char_value [of d True] by (auto simp: hex_def rev_map ds)
qed

lemma hex_NUL: "NUL \<notin> set (hex n)"
proof
  assume "NUL \<in> set (hex n)"
  then obtain d where "digit_char True d = NUL" "d \<in> set (nat_digits 16 (unat n))"
    unfolding hex_def set_rev set_map by (metis imageE)
  moreover from this have "d < 16"
    using nat_digits_less [of 16 d "unat n"] by simp
  ultimately show False
    using digit_char_value [of d True] by (simp add: isxdigit_iff [of NUL])
qed

lemma strtoul_loop_hex:
  assumes "\<not> isxdigit (peek rest)"
  shows "strtoul_loop (hex n @ rest) 16 (0 :: ulong) = (n, rest)"
proof -
  have "\<forall>d \<in> set (rev (nat_digits 16 (unat n))). d < 16" using nat_digits_less [of 16 _ "unat n"] by simp
  from strtoul_loop_digits [where 'a = 32, OF this _ assms, of True 0] show ?thesis
    by (simp add: hex_def rev_map digits_value_rev_nat_digits)
qed

text \<open>A number printed with the prefix \<open>0x\<close> and parsed in base 16.\<close>

lemma strtoul_0x_hex:
  assumes "\<not> isxdigit (peek rest)"
  shows "simple_strtoul (CHR ''0'' # CHR ''x'' # hex n @ rest) 16 = (n, rest)"
  using hex_Cons [of n] strtoul_loop_hex [OF assms, of n]
  by (auto simp: simple_strtoul_def strtoul_prefix_def)

text \<open>A number at the end of a command.\<close>

lemma strtoul_hex_text: "fst (simple_strtoul (hex n @ NUL # t) 16) = n"
  using simple_strtoul_digits [of "rev (nat_digits 16 (unat n))" 16 "NUL # t" True] nat_digits_less [of 16 _ "unat n"]
  by (simp add: hex_def rev_map isxdigit_iff digits_value_rev_nat_digits)

lemmas vsn_x_defs = vsn_directive_def parse_width_def is_digit_def parse_precision_def parse_qualifier_def
  vsn_convert_def va_number_def no_flags_def Let_def

lemma sprintf_mmc_write:
  "sprintf m ''mmc write 0x%x 0x%x 0x%x'' [VInt a, VInt b, VInt c] =
     Some (''mmc write 0x'' @ hex a @ '' 0x'' @ hex b @ '' 0x'' @ hex c @ [NUL])"
proof -
  have "vsn_loop m ''mmc write 0x%x 0x%x 0x%x'' ([], [VInt a, VInt b, VInt c], []) =
      Some (''mmc write 0x'' @ hex a @ '' 0x'' @ hex b @ '' 0x'' @ hex c, [], [])"
    using number_hex by (simp add: vsn_x_defs)
  then show ?thesis
    using length_hex [of a] length_hex [of b] length_hex [of c] by (simp add: sprintf_def vsnprintf_def INT_MAX_def)
qed

lemma sprintf_mmc_dev:
  "sprintf m ''mmc dev %x %x'' [VInt a, VInt b] = Some (''mmc dev '' @ hex a @ '' '' @ hex b @ [NUL])"
proof -
  have "vsn_loop m ''mmc dev %x %x'' ([], [VInt a, VInt b], []) = Some (''mmc dev '' @ hex a @ '' '' @ hex b, [], [])"
    using number_hex by (simp add: vsn_x_defs)
  then show ?thesis
    using length_hex [of a] length_hex [of b] by (simp add: sprintf_def vsnprintf_def INT_MAX_def)
qed

text \<open>Eight digits with leading zeros.\<close>

lemma number_hex8:
  "number (ucast n) 16 8 (-1) (no_flags\<lparr>ZEROPAD := True, SMALL := True\<rparr>) = replicate (8 - length (hex n)) CHR ''0'' @ hex n"
  by (simp add: number_unsigned no_flags_def number_tmp_digits unat_ucast_u64 hex_def Let_def nat_diff_distrib')

lemma sprintf_data:
  "sprintf m ''DATA%08x'' [VInt n] = Some (''DATA'' @ replicate (8 - length (hex n)) CHR ''0'' @ hex n @ [NUL])"
proof -
  have "vsn_loop m ''DATA%08x'' ([], [VInt n], []) = Some (''DATA'' @ replicate (8 - length (hex n)) CHR ''0'' @ hex n, [], [])"
    using number_hex8 [of n] by (simp add: vsn_x_defs)
  then show ?thesis
    using length_hex [of n] by (simp add: sprintf_def vsnprintf_def INT_MAX_def)
qed

end
