(* ===== verification/Fb_Flash.thy ===== *)
theory Fb_Flash
  imports Fb_State C_Hex
begin

text \<open>
  Erasing and flashing partitions of an MMC: \<open>process_erase_mmc\<close>, \<open>process_flash_mmc\<close> and their
  dispatchers (\<^verbatim>\<open>drivers/usb/gadget/f_fastboot.c\<close>), and the commands \<open>mmc read\<close>,
  \<open>mmc write\<close> and \<open>mmc erase\<close> (\<^verbatim>\<open>cmd/mmc.c\<close>) that flashing runs through the command
  interpreter.
\<close>

section \<open>The mmc commands\<close>

definition CMD_RET_SUCCESS :: int where "CMD_RET_SUCCESS = 0"
definition CMD_RET_FAILURE :: int where "CMD_RET_FAILURE = 1"

text \<open>\<open>init_mmc_device\<close> on the current device: whether there is one that initialises.\<close>

definition init_mmc_device :: "('c, 'w) board \<Rightarrow> u32 \<Rightarrow> ('c, 'w) machine \<Rightarrow> bool \<times> ('c, 'w) machine" where
  "init_mmc_device bd dev m =
     (if \<not> mmc_found bd dev m then (False, m)
      else let (err, m) = mmc_init bd dev m in (err = 0, m))"

definition do_mmc_read :: "('c, 'w) board \<Rightarrow> char list list \<Rightarrow> ('c, 'w) machine \<Rightarrow> (int \<times> ('c, 'w) machine) option" where
  "do_mmc_read bd argv m =
     (if length argv \<noteq> 4 then Some (CMD_RET_USAGE, m)
      else
        let addr = fst (simple_strtoul (argv ! 1) 16); blk = fst (simple_strtoul (argv ! 2) 16);
            cnt = fst (simple_strtoul (argv ! 3) 16); dev = curr_device bd m; (ok, m) = init_mmc_device bd dev m in
        if \<not> ok then Some (CMD_RET_FAILURE, m)
        else
          (case blk_dread IF_TYPE_MMC (uint dev) read_bl_len mmc_bread blk cnt (mmcd m) of
             None \<Rightarrow> None
           | Some (n, bytes, d) \<Rightarrow>
               Some (if n = cnt then CMD_RET_SUCCESS else CMD_RET_FAILURE,
                 m\<lparr>mmcd := d, ram := mem_write (ram m) addr bytes\<rparr>)))"

definition do_mmc_write :: "('c, 'w) board \<Rightarrow> char list list \<Rightarrow> ('c, 'w) machine \<Rightarrow> (int \<times> ('c, 'w) machine) option" where
  "do_mmc_write bd argv m =
     (if length argv \<noteq> 4 then Some (CMD_RET_USAGE, m)
      else
        let addr = fst (simple_strtoul (argv ! 1) 16); blk = fst (simple_strtoul (argv ! 2) 16);
            cnt = fst (simple_strtoul (argv ! 3) 16); dev = curr_device bd m; (ok, m) = init_mmc_device bd dev m in
        if \<not> ok then Some (CMD_RET_FAILURE, m)
        else if mmc_getwp bd m = 1 then Some (CMD_RET_FAILURE, m)
        else
          (case blk_dwrite IF_TYPE_MMC (uint dev) mmc_bwrite blk cnt
                  (mem_read (ram m) addr (unat cnt * unat (write_bl_len (fst (mmcd m))))) (mmcd m) of
             None \<Rightarrow> None
           | Some (n, d) \<Rightarrow> Some (if n = cnt then CMD_RET_SUCCESS else CMD_RET_FAILURE, m\<lparr>mmcd := d\<rparr>)))"

definition do_mmc_erase :: "('c, 'w) board \<Rightarrow> char list list \<Rightarrow> ('c, 'w) machine \<Rightarrow> (int \<times> ('c, 'w) machine) option" where
  "do_mmc_erase bd argv m =
     (if length argv \<noteq> 3 then Some (CMD_RET_USAGE, m)
      else
        let blk = fst (simple_strtoul (argv ! 1) 16); cnt = fst (simple_strtoul (argv ! 2) 16);
            dev = curr_device bd m; (ok, m) = init_mmc_device bd dev m in
        if \<not> ok then Some (CMD_RET_FAILURE, m)
        else if mmc_getwp bd m = 1 then Some (CMD_RET_FAILURE, m)
        else
          (case blk_derase IF_TYPE_MMC (uint dev) mmc_berase blk cnt (mmcd m) of
             None \<Rightarrow> None
           | Some (n, d) \<Rightarrow> Some (if n = cnt then CMD_RET_SUCCESS else CMD_RET_FAILURE, m\<lparr>mmcd := d\<rparr>)))"

section \<open>Erasing\<close>

text \<open>
  The region to erase: the partition cut down to whole erase groups, for a group size that is a
  power of two.
\<close>

definition erase_region :: "lbaint \<Rightarrow> lbaint \<Rightarrow> lbaint \<Rightarrow> lbaint \<times> lbaint" where
  "erase_region st sz grp_size =
     (let blks_start = (st + grp_size - 1) AND NOT (grp_size - 1);
          blks_size = (if sz \<ge> grp_size then (sz - (blks_start - st)) AND NOT (grp_size - 1) else 0) in
      (blks_start, blks_size))"

text \<open>
  The code returns without writing a response when the card does not initialise. \<open>block_erase\<close>
  of the descriptor is called directly, past the block cache.
\<close>

definition set_response :: "char list \<Rightarrow> ('c, 'w) fb_state \<Rightarrow> ('c, 'w) fb_state" where
  "set_response s st = st\<lparr>response := Some s\<rparr>"

definition process_erase_mmc ::
  "('c, 'w) board \<Rightarrow> char list \<Rightarrow> ('c, 'w) fb_state \<Rightarrow> ('c, 'w) fb_state option" where
  "process_erase_mmc bd cmdbuf st =
     (case fastboot_flash_find_ptn cmdbuf (ptab st) of
        None \<Rightarrow> Some (set_response ''FAILpartition does not exist or uneraseable'' st)
      | Some ptn \<Rightarrow>
          if pflags ptn AND FLAGS_UNERASEABLE \<noteq> 0 then Some (set_response ''FAILpartition does not exist or uneraseable'' st)
          else
            let mmc_no = ucast (dev_id (fastboot_devinfo st)) in
            if \<not> mmc_found bd mmc_no (mach st) then Some st
            else
              let (err, m) = mmc_init bd mmc_no (mach st); st = st\<lparr>mach := m\<rparr> in
              if err \<noteq> 0 then Some st
              else if \<not> blk_get_dev bd mmc_no m then Some (set_response ''FAILnot valid MMC card'' st)
              else
                (case part_get_info bd (partition_index ptn) m of
                   None \<Rightarrow> Some (set_response ''FAILerasing of MMC card'' st)
                 | Some info \<Rightarrow>
                     let (blks_start, blks_size) =
                           erase_region (istart info) (isize info) (erase_grp_size (fst (mmcd m))) in
                     (case mmc_berase blks_start blks_size (fst (mmcd m)) of
                        None \<Rightarrow> None
                      | Some (blks, mmc) \<Rightarrow>
                          let st = st\<lparr>mach := m\<lparr>mmcd := (mmc, snd (mmcd m))\<rparr>\<rparr> in
                          Some (set_response (if blks \<noteq> blks_size then ''FAILerasing of MMC card'' else ''OKAY'') st))))"

definition rx_process_erase ::
  "('c, 'w) board \<Rightarrow> char list \<Rightarrow> ('c, 'w) fb_state \<Rightarrow> ('c, 'w) fb_state option" where
  "rx_process_erase bd cmdbuf st =
     (case dtype (fastboot_devinfo st) of
        DEV_MMC \<Rightarrow> process_erase_mmc bd cmdbuf st
      | _ \<Rightarrow> Some (set_response ''FAILfailed to flash device'' st))"

section \<open>Flashing\<close>

definition raw_names :: "('c, 'w) board \<Rightarrow> char list list" where
  "raw_names bd =
     (if cfg_ab bd then [''bootloader0'', ''gpt'', ''boot_a'', ''boot_b''] else [''bootloader'', ''boot''])
     @ (if cfg_lock bd then [''fbmisc''] else []) @ [''misc'']"

definition is_raw_partition :: "('c, 'w) board \<Rightarrow> fastboot_ptentry \<Rightarrow> bool" where
  "is_raw_partition bd ptn \<longleftrightarrow> (\<exists>n \<in> set (raw_names bd). strncmp (pname ptn) n (strlen n) = 0)"

definition bootloader_gpt_overlay :: "('c, 'w) board \<Rightarrow> ptable \<Rightarrow> bool" where
  "bootloader_gpt_overlay bd pt \<longleftrightarrow>
     partition_id (g_ptable pt ! PTN_GPT_INDEX) = partition_id (g_ptable pt ! PTN_BOOTLOADER_INDEX)
     \<and> bootloader_mmc_offset (cpu bd) < ANDROID_GPT_END"

definition write_backup_gpt :: "('c, 'w) board \<Rightarrow> ('c, 'w) fb_state \<Rightarrow> int \<times> ('c, 'w) fb_state" where
  "write_backup_gpt bd st =
     (if \<not> mmc_found bd (ucast (dev_id (fastboot_devinfo st))) (mach st) then (-1, st)
      else
        let (err, m) = write_backup_gpt_partitions bd (transfer_buffer st) (mach st) in
        (if err \<noteq> 0 then -1 else 0, st\<lparr>mach := m\<rparr>))"

text \<open>
  The command that selects the device to flash, \<open>None\<close> in the first component when the target of
  the boot loader has no card.
\<close>

definition get_fastboot_target_dev ::
  "('c, 'w) board \<Rightarrow> fastboot_ptentry \<Rightarrow> ('c, 'w) fb_state \<Rightarrow> char list option \<times> ('c, 'w) fb_state" where
  "get_fastboot_target_dev bd ptn st =
     (let bl = FASTBOOT_PARTITION_BOOTLOADER (cfg_ab bd); slot = ucast (dev_id (fastboot_devinfo st)) :: u32 in
      if strncmp (pname ptn) bl (strlen bl + 1) = 0 \<and> genv bd ''target_ubootdev'' st \<noteq> None then
        let dev = fst (simple_strtoul (the (genv bd ''target_ubootdev'' st)) 10) in
        if \<not> mmc_found bd dev (mach st) then (None, st)
        else
          let (err, m) = mmc_init bd dev (mach st); st = st\<lparr>mach := m\<rparr> in
          if err \<noteq> 0 then (None, st)
          else if mmc_part_config bd dev m \<noteq> 0xff then
            (sprintf (ram m) ''mmc dev %x %x'' [VInt dev, VInt MMC_BOOT_PARTITION_ID], st)
          else (sprintf (ram m) ''mmc dev %x'' [VInt dev], st)
      else if partition_id ptn \<noteq> MMC_NONE_PARTITION_ID then
        (sprintf (ram (mach st)) ''mmc dev %x %x'' [VInt slot, VInt (partition_id ptn)], st)
      else (sprintf (ram (mach st)) ''mmc dev %x'' [VInt slot], st))"

definition MMC_SATA_BLOCK_SIZE :: u32 where "MMC_SATA_BLOCK_SIZE = 512"

text \<open>
  The sparse branch; it leaves the response alone when the device or the partition is not there.
  \<open>write_sparse_image\<close> answers once, at its end.
\<close>

definition reply :: "fb_reply \<Rightarrow> ('c, 'w) fb_state \<Rightarrow> ('c, 'w) fb_state" where
  "reply r st = (case r of Fb_fail s \<Rightarrow> fastboot_fail s st | Fb_okay s \<Rightarrow> fastboot_okay s st)"

definition flash_sparse ::
  "('c, 'w) board \<Rightarrow> fastboot_ptentry \<Rightarrow> ('c, 'w) fb_state \<Rightarrow> ('c, 'w) fb_state option" where
  "flash_sparse bd ptn st =
     (let mmc_no = ucast (dev_id (fastboot_devinfo st));
          m = (if mmc_found bd mmc_no (mach st) then snd (mmc_init bd mmc_no (mach st)) else mach st);
          st = st\<lparr>mach := m\<rparr> in
      if \<not> blk_get_dev bd mmc_no m \<or> dev_type_unknown bd mmc_no m then Some st
      else
        let dev = fst (mmcd m);
            info = (if strncmp (pname ptn) ''all'' (strlen ''all'') = 0
                    then Some (read_bl_len dev, 0, lba dev)
                    else map_option (\<lambda>i. (iblksz i, istart i, isize i)) (part_get_info bd (partition_index ptn) m)) in
        case info of
          None \<Rightarrow> Some st
        | Some (bs, ps, sz) \<Rightarrow>
            (case write_sparse_image (memalign bd) (ram m) (mmc_sparse IF_TYPE_MMC (uint mmc_no) bs ps sz)
                    (transfer_buffer st) (mmcd m) of
               None \<Rightarrow> None
             | Some (r, d) \<Rightarrow> Some (reply r (st\<lparr>mach := m\<lparr>mmcd := d\<rparr>\<rparr>))))"

definition block_count :: "u32 \<Rightarrow> u32" where
  "block_count n = (n + MMC_SATA_BLOCK_SIZE - 1) div MMC_SATA_BLOCK_SIZE"

text \<open>The raw branch: select the device, write, and for a partition table write the backup.\<close>

definition flash_image ::
  "('c, 'w) board \<Rightarrow> fastboot_ptentry \<Rightarrow> char list \<Rightarrow> u32 \<Rightarrow> ('c, 'w) fb_state \<Rightarrow> ('c, 'w) fb_state option" where
  "flash_image bd ptn mmc_dev temp st =
     (case sprintf (ram (mach st)) ''mmc write 0x%x 0x%x 0x%x''
             [VInt (transfer_buffer st), VInt (pstart ptn), VInt temp] of
        None \<Rightarrow> None
      | Some mmc_write \<Rightarrow>
          (case run_cmd bd mmc_dev st of
             None \<Rightarrow> None
           | Some (mmcret, st) \<Rightarrow>
               let st = (if mmcret \<noteq> 0 then fastboot_fail ''Init of MMC card failed'' st else fastboot_okay [] st) in
               (case run_cmd bd mmc_write st of
                  None \<Rightarrow> None
                | Some (ret, st) \<Rightarrow>
                    Some (if ret \<noteq> 0 then fastboot_fail ''Write partition failed'' st else fastboot_okay [] st))))"

definition flash_raw ::
  "('c, 'w) board \<Rightarrow> fastboot_ptentry \<Rightarrow> char list \<Rightarrow> ('c, 'w) fb_state \<Rightarrow> ('c, 'w) fb_state option" where
  "flash_raw bd ptn mmc_dev st =
     (let gpt = (strncmp (pname ptn) ''gpt'' 3 = 0) in
      case (if \<not> gpt \<or> \<not> bootloader_gpt_overlay bd (ptab st)
            then flash_image bd ptn mmc_dev (block_count (if gpt then ANDROID_GPT_END else download_bytes st)) st
            else Some st) of
        None \<Rightarrow> None
      | Some st \<Rightarrow>
          if gpt then
            let (err, st) = write_backup_gpt bd st;
                st = (if err \<noteq> 0 then fastboot_fail ''write backup GPT image fail'' st else fastboot_okay [] st) in
            map_option snd (run_cmd bd mmc_dev st)
          else Some st)"

text \<open>
  The environment branch. The text is the transfer buffer with one byte more than
  \<open>download_bytes_unpadded\<close>, and the scanner writes into it.
\<close>

definition flash_env :: "('c, 'w) board \<Rightarrow> ('c, 'w) fb_state \<Rightarrow> ('c, 'w) fb_state option" where
  "flash_env bd st =
     (let n = unat (download_bytes_unpadded st); m = mach st;
          buff = map char_of_byte (mem_read (ram m) (transfer_buffer st) (n + 1)) in
      case saveenv_to_ptn (save_env (hooks bd) (\<lambda>e m. saveenv bd (m\<lparr>envst := e\<rparr>))) n buff (envst m, m) of
        None \<Rightarrow> None
      | Some (ret, err_string, buff, e, m) \<Rightarrow>
          let m = m\<lparr>envst := e, ram := mem_write (ram m) (transfer_buffer st) (map byte_of_char buff)\<rparr>;
              st = st\<lparr>mach := m\<rparr> in
          Some (if ret \<noteq> 0 then fastboot_fail err_string st else fastboot_okay [] st))"

definition process_flash_mmc ::
  "('c, 'w) board \<Rightarrow> char list \<Rightarrow> ('c, 'w) fb_state \<Rightarrow> ('c, 'w) fb_state option" where
  "process_flash_mmc bd cmdbuf st =
     (if download_bytes st = 0 then Some (fastboot_fail ''no image downloaded'' st)
      else
        case fastboot_flash_find_ptn cmdbuf (ptab st) of
          None \<Rightarrow> Some (fastboot_fail ''partition does not exist'' st)
        | Some ptn \<Rightarrow>
            if plength ptn * MMC_SATA_BLOCK_SIZE < download_bytes st \<and> pflags ptn AND FLAGS_WRITE_ENV = 0
            then Some (fastboot_fail ''image too large for partition'' st)
            else if pflags ptn AND FLAGS_WRITE_ENV \<noteq> 0 then flash_env bd st
            else
              (case get_fastboot_target_dev bd ptn st of
                 (None, st) \<Rightarrow> Some st
               | (Some mmc_dev, st) \<Rightarrow>
                   if \<not> is_raw_partition bd ptn \<and> is_sparse_image (ram (mach st)) (transfer_buffer st)
                   then flash_sparse bd ptn st
                   else flash_raw bd ptn mmc_dev st))"

definition rx_process_flash ::
  "('c, 'w) board \<Rightarrow> char list \<Rightarrow> ('c, 'w) fb_state \<Rightarrow> ('c, 'w) fb_state option" where
  "rx_process_flash bd cmdbuf st =
     (case dtype (fastboot_devinfo st) of
        DEV_MMC \<Rightarrow> process_flash_mmc bd cmdbuf st
      | _ \<Rightarrow> Some (fastboot_fail ''failed to flash device'' st))"

section \<open>What is erased\<close>

lemma round_up_bounds: "0 < G \<Longrightarrow> a \<le> (a + G - 1) div G * G \<and> (a + G - 1) div G * G \<le> a + (G - 1)" for a G :: nat
proof -
  assume "0 < G"
  then have "(a + G - 1) mod G < G" by simp
  with div_mult_mod_eq [of "a + G - 1" G] show ?thesis by linarith
qed

lemma erase_region_inside:
  assumes "erase_region st sz (2 ^ k) = (s, n)" "k < 32" "unat st + 2 ^ k \<le> 2 ^ 32"
  shows "2 ^ k dvd unat s" "2 ^ k dvd unat n"
    and "n = 0 \<or> (unat st \<le> unat s \<and> unat s + unat n \<le> unat st + unat sz)"
proof -
  define G :: nat where "G = 2 ^ k"
  have G: "0 < G" by (simp add: G_def)
  have uG: "unat (2 ^ k :: u32) = G"
    using unat_of_nat_u32 [of "2 ^ k"] power_strict_increasing [OF assms(2), of "2 :: nat"] by (simp add: G_def)
  have uA: "unat (st + 2 ^ k - 1) = unat st + G - 1"
  proof -
    have "unat (2 ^ k - 1 :: u32) = G - 1"
      using G uG by (subst u32_minus) simp_all
    then have "unat (st + (2 ^ k - 1)) = unat st + (G - 1)"
      using assms(3) G by (subst u32_plus) (simp_all add: G_def)
    then show ?thesis using G by (simp add: add_diff_eq)
  qed
  have s: "s = (st + 2 ^ k - 1) AND NOT (2 ^ k - 1)"
    and n: "n = (if 2 ^ k \<le> sz then (sz - (s - st)) AND NOT (2 ^ k - 1) else 0)"
    using assms(1) by (auto simp: erase_region_def Let_def)
  have us: "unat s = (unat st + G - 1) div G * G"
    unfolding s unat_align_down uA G_def by simp
  then show "2 ^ k dvd unat s" by (simp add: G_def)
  show "2 ^ k dvd unat n" by (simp add: n unat_align_down)
  note b = round_up_bounds [OF G, of "unat st", folded us]
  show "n = 0 \<or> (unat st \<le> unat s \<and> unat s + unat n \<le> unat st + unat sz)"
  proof (cases "(2 ^ k :: u32) \<le> sz")
    case True
    then have "G \<le> unat sz" by (simp add: word_le_nat_alt uG)
    moreover have d: "unat (s - st) = unat s - unat st" using b by (intro u32_minus) simp
    ultimately have "unat (sz - (s - st)) = unat sz - (unat s - unat st)"
      using b G by (subst u32_minus) (simp_all only: d, linarith)
    then have "unat n \<le> unat sz - (unat s - unat st)"
      using True by (simp add: n unat_align_down)
    with b \<open>G \<le> unat sz\<close> G show ?thesis by linarith
  qed (simp add: n)
qed

text \<open>Erasing the aligned region of a partition touches nothing outside of the partition.\<close>

lemma berase_region:
  assumes "mmc_wf mmc" "erase_grp_size mmc = 2 ^ k" "k < 32" "unat (lba mmc) + 2 ^ k \<le> 2 ^ 32"
    "unat st + unat sz \<le> unat (lba mmc)" "erase_region st sz (2 ^ k) = (s, n)"
  shows "\<exists>r mmc'. mmc_berase s n mmc = Some (r, mmc')
    \<and> (\<forall>p b. p \<noteq> access_part (card mmc) \<or> b < unat st \<or> unat st + unat sz \<le> b
         \<longrightarrow> cells (card mmc') p b = cells (card mmc) p b)"
proof -
  note er = erase_region_inside [OF assms(6,3)]
  have st: "unat st + 2 ^ k \<le> 2 ^ 32" using assms(4,5) by linarith
  show ?thesis
  proof (cases "n = 0")
    case True
    then show ?thesis by (simp add: mmc_berase_def erase_loop.simps [of s 0])
  next
    case False
    with er(3) [OF st] have ins: "unat st \<le> unat s" "unat s + unat n \<le> unat st + unat sz" by auto
    have u: "erase_unit mmc dvd unat s" "erase_unit mmc dvd unat n" "0 < unat (erase_grp_size mmc)"
    proof -
      have "unat (2 ^ k :: u32) = 2 ^ k"
        using unat_of_nat_u32 [of "2 ^ k"] power_strict_increasing [OF assms(3), of "2 :: nat"] by simp
      then show "erase_unit mmc dvd unat s" "erase_unit mmc dvd unat n" "0 < unat (erase_grp_size mmc)"
        using er(1,2) [OF st] assms(2) by (simp_all add: erase_unit_def)
    qed
    from erase_loop_result [OF assms(1) _ u(3,1,2), of 0] ins assms(5)
    obtain r mmc' where "erase_loop s n 0 mmc = Some (r, mmc')" "write_step (unat s) (unat n) mmc mmc'" by auto
    then show ?thesis using ins by (auto simp: mmc_berase_def write_step_def)
  qed
qed

text \<open>Card initialisation, on a card that is in use already, keeps its contents and the memory.\<close>

definition init_keeps :: "('c, 'w) board \<Rightarrow> bool" where
  "init_keeps bd \<longleftrightarrow> (\<forall>dev m. mmcd (snd (mmc_init bd dev m)) = mmcd m \<and> ram (snd (mmc_init bd dev m)) = ram m)"

lemma find_ptn_response: "ptab (set_response r st) = ptab st" "mach (set_response r st) = mach st"
  by (simp_all add: set_response_def)

text \<open>
  C5: The erase command comes to an end, and every block it changes lies in the partition it names,
  a partition that is in the table and not marked as uneraseable; no other hardware partition
  changes. The erase group of the card is a power of two, and the table entry lies on the card.
\<close>

theorem process_erase_inside:
  assumes wf: "mmc_wf (fst (mmcd (mach st)))" and grp: "erase_grp_size (fst (mmcd (mach st))) = 2 ^ k" "k < 32"
    "unat (lba (fst (mmcd (mach st)))) + 2 ^ k \<le> 2 ^ 32"
    and init: "init_keeps bd"
    and parts: "\<forall>i m info. part_get_info bd i m = Some info \<longrightarrow>
      unat (istart info) + unat (isize info) \<le> unat (lba (fst (mmcd (mach st))))"
  shows "\<exists>st'. process_erase_mmc bd name st = Some st' \<and>
    (\<forall>p b. cells (card (fst (mmcd (mach st')))) p b \<noteq> cells (card (fst (mmcd (mach st)))) p b \<longrightarrow>
       p = access_part (card (fst (mmcd (mach st)))) \<and>
       (\<exists>ptn info. fastboot_flash_find_ptn name (ptab st) = Some ptn \<and> pflags ptn AND FLAGS_UNERASEABLE = 0
          \<and> part_get_info bd (partition_index ptn)
              (snd (mmc_init bd (ucast (dev_id (fastboot_devinfo st))) (mach st))) = Some info
          \<and> unat (istart info) \<le> b \<and> b < unat (istart info) + unat (isize info)))"
proof (cases "fastboot_flash_find_ptn name (ptab st)")
  case None
  then show ?thesis by (simp add: process_erase_mmc_def set_response_def)
next
  case (Some ptn)
  obtain err m where m: "mmc_init bd (ucast (dev_id (fastboot_devinfo st))) (mach st) = (err, m)" by force
  then have md: "mmcd m = mmcd (mach st)" using init by (metis init_keeps_def snd_conv)
  show ?thesis
  proof (cases "part_get_info bd (partition_index ptn) m")
    case None
    then show ?thesis using Some m md by (auto simp: process_erase_mmc_def set_response_def Let_def)
  next
    case info: (Some info)
    obtain s n where sn: "erase_region (istart info) (isize info) (2 ^ k) = (s, n)" by force
    from berase_region [OF wf grp(1,2,3) _ sn] parts info obtain r mmc' where
      "mmc_berase s n (fst (mmcd (mach st))) = Some (r, mmc')"
      "\<forall>p b. p \<noteq> access_part (card (fst (mmcd (mach st)))) \<or> b < unat (istart info) \<or> unat (istart info) + unat (isize info) \<le> b
         \<longrightarrow> cells (card mmc') p b = cells (card (fst (mmcd (mach st)))) p b" by blast
    then show ?thesis
      using Some m md sn info grp(1)
      by (auto simp: process_erase_mmc_def set_response_def Let_def not_less [symmetric])
  qed
qed

section \<open>What is flashed\<close>

text \<open>
  The command interpreter splits a line at blanks and calls the handler of the command; here for
  the lines the flashing code makes.
\<close>

definition runs_mmc_write :: "('c, 'w) board \<Rightarrow> bool" where
  "runs_mmc_write bd \<longleftrightarrow> (\<forall>a b c m. run_command bd (''mmc write 0x'' @ hex a @ '' 0x'' @ hex b @ '' 0x'' @ hex c) m =
     do_mmc_write bd [''write'', ''0x'' @ hex a, ''0x'' @ hex b, ''0x'' @ hex c] m)"

lemma block_count_bounds:
  assumes "unat len * 512 < 2 ^ 32" "unat n \<le> unat len * 512"
  shows "unat (block_count n) \<le> unat len" "unat n \<le> unat (block_count n) * 512"
proof -
  have "unat (511 + n) = unat n + 511"
    using assms by (subst u32_plus) simp_all
  then have "unat (block_count n) = (unat n + 511) div 512"
    by (simp add: block_count_def MMC_SATA_BLOCK_SIZE_def unat_div diff_eq_eq)
  then show "unat (block_count n) \<le> unat len" "unat n \<le> unat (block_count n) * 512"
    using assms(2) by simp_all
qed

lemma do_mmc_write_result:
  assumes "init_keeps bd" "mmc_sparse_inv IF_TYPE_MMC (uint (curr_device bd m)) bs st sz (mmcd m)"
    "unat blk + unat cnt \<le> unat st + unat sz"
  shows "\<exists>r m'. do_mmc_write bd [''write'', ''0x'' @ hex a, ''0x'' @ hex blk, ''0x'' @ hex cnt] m = Some (r, m')
    \<and> ram m' = ram m
    \<and> wrote (\<lambda>m. mmc_cells (fst (mmcd m))) (unat blk) (unat blk + unat cnt) m m'
    \<and> (r = 0 \<longrightarrow> mmc_cells (fst (mmcd m')) =
         put_blocks (unat bs) (mmc_cells (fst (mmcd m))) (unat blk) (unat cnt) (mem_read (ram m) a (unat cnt * unat bs)))"
proof -
  obtain ok m1 where m1: "init_mmc_device bd (curr_device bd m) m = (ok, m1)" by force
  then have k: "mmcd m1 = mmcd m" "ram m1 = ram m"
    using assms(1) unfolding init_keeps_def init_mmc_device_def
    by (auto split: if_splits prod.splits) (metis snd_conv)+
  have bs: "bs = write_bl_len (fst (mmcd m))" and lb: "unat st + unat sz \<le> unat (lba (fst (mmcd m)))"
    using assms(2) by (simp_all add: mmc_sparse_inv_def)
  have args: "fst (simple_strtoul (''0x'' @ hex n) 16) = n" for n
    using strtoul_0x_hex [of "[]" n] by (simp add: isxdigit_iff)
  have refl: "wrote (\<lambda>m. mmc_cells (fst (mmcd m))) (unat blk) (unat blk + unat cnt) m m1"
    using k by (simp add: wrote_def)
  show ?thesis
  proof (cases "\<not> ok \<or> mmc_getwp bd m1 = 1")
    case True
    then show ?thesis using m1 k refl
      by (auto simp: do_mmc_write_def CMD_RET_FAILURE_def Let_def)
  next
    case False
    let ?b = "mem_read (ram m) a (unat cnt * unat bs)"
    obtain r d' where d': "blk_dwrite IF_TYPE_MMC (uint (curr_device bd m)) mmc_bwrite blk cnt ?b (mmcd m) = Some (r, d')"
      "r = cnt \<longrightarrow> mmc_cells (fst d') = put_blocks (unat bs) (mmc_cells (fst (mmcd m))) (unat blk) (unat cnt) ?b"
      "wrote (\<lambda>d. mmc_cells (fst d)) (unat blk) (unat blk + unat cnt) (mmcd m) d'"
      using mmc_dwrite_result [OF assms(2), of blk cnt ?b] assms(3) lb by fastforce
    then show ?thesis
      using False m1 k args [of a] args [of blk] args [of cnt]
      by (simp add: do_mmc_write_def CMD_RET_FAILURE_def CMD_RET_SUCCESS_def bs wrote_def)
  qed
qed

lemma process_flash_raw:
  assumes env: "init_keeps bd" "runs_mmc_write bd"
    and ptn: "fastboot_flash_find_ptn name (ptab st) = Some ptn" "pflags ptn AND FLAGS_WRITE_ENV = 0"
      "strncmp (pname ptn) ''gpt'' 3 \<noteq> 0" "is_raw_partition bd ptn \<or> \<not> is_sparse_image (ram (mach st)) (transfer_buffer st)"
    and size: "download_bytes st \<noteq> 0" "unat (plength ptn) * 512 < 2 ^ 32" "unat (download_bytes st) \<le> unat (plength ptn) * 512"
    and dev: "get_fastboot_target_dev bd ptn st = (Some mmc_dev, st)"
      "run_command bd (cstr mmc_dev) (mach st) = Some (r, m)" "ram m = ram (mach st)"
      "mmc_sparse_inv IF_TYPE_MMC (uint (curr_device bd m)) 512 (pstart ptn) (plength ptn) (mmcd m)"
  shows "\<exists>st'. process_flash_mmc bd name st = Some st' \<and> usb st' = usb st
    \<and> response st' \<in> {Some ''OKAY'', Some ''FAILWrite partition failed''}
    \<and> (\<forall>b. b < unat (pstart ptn) \<or> unat (pstart ptn) + unat (plength ptn) \<le> b \<longrightarrow>
         mmc_cells (fst (mmcd (mach st'))) b = mmc_cells (fst (mmcd m)) b)
    \<and> (response st' = Some ''OKAY'' \<longrightarrow>
         take (unat (download_bytes st)) (get_blocks (mmc_cells (fst (mmcd (mach st')))) (unat (pstart ptn)) (unat (block_count (download_bytes st))))
         = mem_read (ram (mach st)) (transfer_buffer st) (unat (download_bytes st)))"
proof -
  let ?n = "block_count (download_bytes st)"
  note bc = block_count_bounds [OF size(2,3)]
  have lim: "\<not> plength ptn * MMC_SATA_BLOCK_SIZE < download_bytes st"
    using size(2,3) by (simp add: MMC_SATA_BLOCK_SIZE_def word_less_nat_alt u32_times)
  obtain r2 m2 where m2: "do_mmc_write bd [''write'', ''0x'' @ hex (transfer_buffer st), ''0x'' @ hex (pstart ptn), ''0x'' @ hex ?n] m = Some (r2, m2)"
    "wrote (\<lambda>m. mmc_cells (fst (mmcd m))) (unat (pstart ptn)) (unat (pstart ptn) + unat ?n) m m2"
    "r2 = 0 \<longrightarrow> mmc_cells (fst (mmcd m2)) = put_blocks (unat (512 :: u32)) (mmc_cells (fst (mmcd m))) (unat (pstart ptn)) (unat ?n)
       (mem_read (ram m) (transfer_buffer st) (unat ?n * unat (512 :: u32)))"
    using do_mmc_write_result [OF env(1) dev(4), of "pstart ptn" ?n "transfer_buffer st"] bc(1) by auto
  let ?cmd = "''mmc write 0x'' @ hex (transfer_buffer st) @ '' 0x'' @ hex (pstart ptn) @ '' 0x'' @ hex ?n"
  have cmd: "cstr (?cmd @ [NUL]) = ?cmd"
    by (rule cstr_append_NUL) (auto simp: hex_NUL)
  have run: "run_command bd ?cmd m = Some (r2, m2)" using env(2) m2(1) by (simp only: runs_mmc_write_def)
  let ?st2 = "st\<lparr>mach := m2, response := Some (if r2 \<noteq> 0 then ''FAILWrite partition failed'' else ''OKAY'')\<rparr>"
  have "flash_image bd ptn mmc_dev ?n st = Some ?st2"
    unfolding flash_image_def sprintf_mmc_write using dev(2) run cmd
    by (simp add: run_cmd_def fastboot_okay_def fastboot_fail_def respond_def FASTBOOT_RESPONSE_LEN_def)
  then have res: "process_flash_mmc bd name st = Some ?st2"
    using ptn size(1) lim dev(1) by (auto simp: process_flash_mmc_def flash_raw_def)
  have "\<forall>b. b < unat (pstart ptn) \<or> unat (pstart ptn) + unat (plength ptn) \<le> b \<longrightarrow>
         mmc_cells (fst (mmcd m2)) b = mmc_cells (fst (mmcd m)) b"
    using m2(2) bc(1) by (auto simp: wrote_def)
  moreover have "take (unat (download_bytes st)) (get_blocks (mmc_cells (fst (mmcd m2))) (unat (pstart ptn)) (unat ?n))
         = mem_read (ram (mach st)) (transfer_buffer st) (unat (download_bytes st))" if "r2 = 0"
    using m2(3) that bc(2) dev(3) by (simp add: get_put_blocks mem_read_def take_map)
  ultimately show ?thesis using res by auto
qed


section \<open>A board\<close>

text \<open>
  For the card of 8 blocks of 512 bytes: a board whose command interpreter knows \<open>mmc write\<close>, and
  a gadget with a partition of three blocks.
\<close>

definition demo_base :: "(unit, unit) board" where
  "demo_base = \<lparr>cfg_ab = False, cfg_lock = False, cfg_lockstatus = False, cfg_things = False, cpu = Imx_other,
     buf_addr = 0x82800000, buf_size = 0x10000000, flash_mmc_dev = 0, version = ''U-Boot 2017.03'', serial = None,
     maxpacket = 512, hooks = no_hooks, early = (\<lambda>_. None), usbenv = plain_usb, memalign = (\<lambda>_. None),
     run_command = (\<lambda>_ m. Some (0, m)), board_setup = id, mmc_found = (\<lambda>_ _. True), mmc_init = (\<lambda>_ m. (0, m)),
     mmc_part_config = (\<lambda>_ _. 0), curr_device = (\<lambda>_. 0), mmc_getwp = (\<lambda>_. 0), mmc_get_env_dev = (\<lambda>_. 0),
     blk_get_dev = (\<lambda>_ _. True), dev_type_unknown = (\<lambda>_ _. False),
     part_get_info = (\<lambda>i _. if i = 1 then Some \<lparr>istart = 3, isize = 3, iblksz = 512, iname = ''boot''\<rparr> else None),
     blk_get_device_part_str = (\<lambda>_ _. None), write_backup_gpt_partitions = (\<lambda>_ m. (0, m)),
     set_reboot_flag = (\<lambda>m. (0, m)), enable_fastboot_command = id, saveenv = id\<rparr>"

definition split_blank :: "char list \<Rightarrow> char list list" where
  "split_blank s = foldr (\<lambda>c ws. if c = CHR '' '' then [] # ws else (c # hd ws) # tl ws) s [[]]"

definition demo_board :: "(unit, unit) board" where
  "demo_board = demo_base\<lparr>run_command := (\<lambda>cmd m. let ws = split_blank cmd in
     if take 2 ws = [''mmc'', ''write''] then do_mmc_write demo_base (tl ws) m else Some (0, m))\<rparr>"

definition demo_ptn :: fastboot_ptentry where
  "demo_ptn = \<lparr>pname = ''boot'', pstart = 3, plength = 3, pflags = 0, partition_id = 0, partition_index = 1, fstype = ''raw''\<rparr>"

definition demo_state :: "(unit, unit) fb_state" where
  "demo_state = \<lparr>ptab = ptable_of [demo_ptn],
     fastboot_devinfo = \<lparr>dtype = DEV_MMC, dev_id = 0\<rparr>, download_size = 0, download_bytes = 700,
     download_bytes_unpadded = 0, transfer_buffer = 0x82800000, transfer_buffer_size = 0x10000000,
     g_lockstat = FASTBOOT_UNLOCK, g_a_cmd_buff = [], response = None, usb = idle_fb,
     mach = \<lparr>ram = (\<lambda>a. ucast a), envst = env5, mmcd = (card512, blkcache_init), outer = ()\<rparr>\<rparr>"

lemma split_blank_simps:
  "split_blank [] = [[]]" "split_blank (CHR '' '' # s) = [] # split_blank s"
  "c \<noteq> CHR '' '' \<Longrightarrow> split_blank (c # s) = (c # hd (split_blank s)) # tl (split_blank s)"
  by (simp_all add: split_blank_def)

lemma split_blank_append: "CHR '' '' \<notin> set w \<Longrightarrow> split_blank (w @ CHR '' '' # s) = w # split_blank s"
  by (induction w) (auto simp: split_blank_simps)

lemma split_blank_word: "CHR '' '' \<notin> set w \<Longrightarrow> split_blank w = [w]"
  by (induction w) (auto simp: split_blank_simps)

lemma hex_no_blank: "CHR '' '' \<notin> set (hex n)"
proof
  assume "CHR '' '' \<in> set (hex n)"
  then obtain d where "digit_char True d = CHR '' ''" "d \<in> set (nat_digits 16 (unat n))"
    unfolding hex_def set_rev set_map by (metis imageE)
  moreover from this have "d < 16" using nat_digits_less [of 16 d "unat n"] by simp
  ultimately show False using digit_char_value [of d True] by (simp add: isxdigit_iff [of "CHR '' ''"])
qed

lemma demo_runs: "runs_mmc_write demo_board" "init_keeps demo_board" "init_keeps demo_base"
proof -
  have "split_blank (''mmc write 0x'' @ hex a @ '' 0x'' @ hex b @ '' 0x'' @ hex c)
      = [''mmc'', ''write'', ''0x'' @ hex a, ''0x'' @ hex b, ''0x'' @ hex c]" for a b c
    using split_blank_append [of "''mmc''" "''write 0x'' @ hex a @ '' 0x'' @ hex b @ '' 0x'' @ hex c"]
      split_blank_append [of "''write''" "''0x'' @ hex a @ '' 0x'' @ hex b @ '' 0x'' @ hex c"]
      split_blank_append [of "''0x'' @ hex a" "''0x'' @ hex b @ '' 0x'' @ hex c"]
      split_blank_append [of "''0x'' @ hex b" "''0x'' @ hex c"] split_blank_word [of "''0x'' @ hex c"]
    by (simp add: hex_no_blank)
  moreover have "do_mmc_write demo_board = do_mmc_write demo_base"
  proof -
    have eqs: "curr_device demo_board = curr_device demo_base" "mmc_found demo_board = mmc_found demo_base"
      "mmc_init demo_board = mmc_init demo_base" "mmc_getwp demo_board = mmc_getwp demo_base"
      by (simp_all add: demo_board_def)
    show ?thesis by (intro ext) (simp only: do_mmc_write_def init_mmc_device_def eqs)
  qed
  ultimately show "runs_mmc_write demo_board"
    by (simp add: runs_mmc_write_def) (simp add: demo_board_def)
  show "init_keeps demo_board" "init_keeps demo_base"
    by (simp_all add: init_keeps_def demo_board_def demo_base_def)
qed

theorem process_erase_inside_witness:
  "\<exists>st'. process_erase_mmc demo_board ''boot'' demo_state = Some st'
    \<and> cells (card (fst (mmcd (mach st')))) 0 2 = replicate 512 0 \<and> cells (card (fst (mmcd (mach st')))) 1 4 = replicate 512 0"
proof -
  have d: "fst (mmcd (mach demo_state)) = card512" by (simp add: demo_state_def)
  have c: "cells (card card512) p b = replicate 512 0" "access_part (card card512) = 0" for p b
    by (simp_all add: card512_def ram_mmc_def)
  have p: "part_get_info demo_board i m = (if i = 1 then Some \<lparr>istart = 3, isize = 3, iblksz = 512, iname = ''boot''\<rparr> else None)" for i m
    by (simp add: demo_board_def demo_base_def)
  have "\<exists>st'. process_erase_mmc demo_board ''boot'' demo_state = Some st' \<and>
    (\<forall>p b. cells (card (fst (mmcd (mach st')))) p b \<noteq> cells (card (fst (mmcd (mach demo_state)))) p b \<longrightarrow>
       p = access_part (card (fst (mmcd (mach demo_state)))) \<and>
       (\<exists>ptn info. fastboot_flash_find_ptn ''boot'' (ptab demo_state) = Some ptn \<and> pflags ptn AND FLAGS_UNERASEABLE = 0
          \<and> part_get_info demo_board (partition_index ptn)
              (snd (mmc_init demo_board (ucast (dev_id (fastboot_devinfo demo_state))) (mach demo_state))) = Some info
          \<and> unat (istart info) \<le> b \<and> b < unat (istart info) + unat (isize info)))"
    by (rule process_erase_inside [where k = 1])
      (simp_all add: d card512_wf demo_runs p, simp_all add: card512_def ram_mmc_def)
  then obtain st' where st': "process_erase_mmc demo_board ''boot'' demo_state = Some st'"
    "\<forall>p b. cells (card (fst (mmcd (mach st')))) p b \<noteq> replicate 512 0 \<longrightarrow> p = 0 \<and> 3 \<le> b"
    unfolding d c p by (fastforce split: if_splits)
  moreover have "cells (card (fst (mmcd (mach st')))) 0 2 = replicate 512 0"
    "cells (card (fst (mmcd (mach st')))) 1 4 = replicate 512 0"
    using st'(2) [rule_format, of 0 2] st'(2) [rule_format, of 1 4] by auto
  ultimately show ?thesis by blast
qed

lemma demo_write: "\<exists>d. blk_dwrite IF_TYPE_MMC 0 mmc_bwrite 3 2 bs (card512, blkcache_init) = Some (2, d)"
proof -
  have "map_option fst (blk_dwrite IF_TYPE_MMC 0 mmc_bwrite 3 2 bs (card512, blkcache_init)) = Some 2"
    by code_simp
  then show ?thesis by auto
qed

lemma demo_find: "fastboot_flash_find_ptn ''boot'' (ptab demo_state) = Some demo_ptn"
  by (simp add: demo_state_def demo_ptn_def) code_simp

lemma demo_dev: "get_fastboot_target_dev demo_board demo_ptn demo_state = (Some (''mmc dev 0 0'' @ [NUL]), demo_state)"
proof -
  have "strncmp ''boot'' ''bootloader'' 11 \<noteq> 0" "hex 0 = ''0''" "strlen ''bootloader'' + 1 = 11" by code_simp+
  then show ?thesis
    by (simp add: get_fastboot_target_dev_def demo_ptn_def demo_board_def demo_base_def FASTBOOT_PARTITION_BOOTLOADER_def
        MMC_NONE_PARTITION_ID_def sprintf_mmc_dev demo_state_def Let_def)
qed

lemma demo_flash_okay:
  "map_option response (process_flash_mmc demo_board ''boot'' demo_state) = Some (Some ''OKAY'')"
proof -
  have cmp: "strncmp ''boot'' ''gpt'' 3 \<noteq> 0" "is_raw_partition demo_board demo_ptn" by code_simp+
  have bc: "block_count 700 = 2" by (simp add: block_count_def MMC_SATA_BLOCK_SIZE_def)
  let ?cmd = "''mmc write 0x'' @ hex 0x82800000 @ '' 0x'' @ hex 3 @ '' 0x'' @ hex 2"
  have cmd: "cstr (?cmd @ [NUL]) = ?cmd" by (rule cstr_append_NUL) (auto simp: hex_NUL)
  have args: "fst (simple_strtoul (''0x'' @ hex n) 16) = n" for n
    using strtoul_0x_hex [of "[]" n] by (simp add: isxdigit_iff)
  obtain d where "blk_dwrite IF_TYPE_MMC 0 mmc_bwrite 3 2 (mem_read (\<lambda>a. ucast a) 0x82800000 1024) (card512, blkcache_init) = Some (2, d)"
    using demo_write by blast
  then have w: "do_mmc_write demo_board [''write'', ''0x'' @ hex 0x82800000, ''0x'' @ hex 3, ''0x'' @ hex 2] (mach demo_state)
      = Some (0, (mach demo_state)\<lparr>mmcd := d\<rparr>)"
    using args [of "0x82800000"] args [of 3] args [of 2]
    by (simp add: do_mmc_write_def init_mmc_device_def demo_board_def demo_base_def demo_state_def CMD_RET_SUCCESS_def)
      (simp add: card512_def CMD_RET_SUCCESS_def)
  have "run_command demo_board ?cmd (mach demo_state) = Some (0, (mach demo_state)\<lparr>mmcd := d\<rparr>)"
    using demo_runs(1) w by (simp only: runs_mmc_write_def)
  moreover have "run_command demo_board (''mmc dev 0 0'') (mach demo_state) = Some (0, mach demo_state)"
    by (simp add: demo_board_def split_blank_def)
  moreover have st: "download_bytes demo_state = 700" "transfer_buffer demo_state = 0x82800000" by (simp_all add: demo_state_def)
  moreover have "flash_image demo_board demo_ptn (''mmc dev 0 0'' @ [NUL]) 2 demo_state = 
     Some (demo_state\<lparr>mach := (mach demo_state)\<lparr>mmcd := d\<rparr>, response := Some ''OKAY''\<rparr>)"
    using calculation cmd unfolding flash_image_def sprintf_mmc_write
    by (simp add: run_cmd_def fastboot_okay_def respond_def demo_ptn_def)
  ultimately show ?thesis
    using demo_find demo_dev cmp bc by (simp add: process_flash_mmc_def flash_raw_def MMC_SATA_BLOCK_SIZE_def) (simp add: demo_ptn_def)
qed


section \<open>Where flashing falls short\<close>

text \<open>The size of a partition in bytes wraps: an image for a partition of 4 GiB is always too large.\<close>

lemma flash_size_wraps:
  assumes "download_bytes st \<noteq> 0" "fastboot_flash_find_ptn name (ptab st) = Some ptn" "plength ptn = 0x800000"
    "pflags ptn AND FLAGS_WRITE_ENV = 0"
  shows "process_flash_mmc bd name st = Some (fastboot_fail ''image too large for partition'' st)"
proof -
  have "(0x800000 :: u32) * MMC_SATA_BLOCK_SIZE = 0" by code_simp
  then show ?thesis using assms by (simp add: process_flash_mmc_def word_gt_0)
qed

text \<open>
  \<open>download_bytes_unpadded\<close> is read but never assigned, so that an environment partition is
  always found empty.
\<close>

lemma flash_env_empty:
  assumes "download_bytes_unpadded st = 0"
  shows "\<exists>st'. flash_env bd st = Some st' \<and> response st' = Some ''FAILNo variables set''"
  using assms
  by (simp add: flash_env_def saveenv_to_ptn_def parse_env_def start_state_def fastboot_fail_def respond_def
      FASTBOOT_RESPONSE_LEN_def Let_def)

text \<open>A failed selection of the device is not reported when the write succeeds.\<close>

lemma flash_image_hides_failure:
  assumes "run_command bd (cstr mmc_dev) (mach st) = Some (1, m)"
    "run_command bd (''mmc write 0x'' @ hex (transfer_buffer st) @ '' 0x'' @ hex (pstart ptn) @ '' 0x'' @ hex n) m = Some (0, m')"
  shows "\<exists>st'. flash_image bd ptn mmc_dev n st = Some st' \<and> response st' = Some ''OKAY''"
proof -
  let ?cmd = "''mmc write 0x'' @ hex (transfer_buffer st) @ '' 0x'' @ hex (pstart ptn) @ '' 0x'' @ hex n"
  have "cstr (?cmd @ [NUL]) = ?cmd" by (rule cstr_append_NUL) (auto simp: hex_NUL)
  then show ?thesis
    using assms unfolding flash_image_def sprintf_mmc_write
    by (simp add: run_cmd_def fastboot_okay_def fastboot_fail_def respond_def FASTBOOT_RESPONSE_LEN_def)
qed

end
