(* ===== verification/Fb_Lock.thy ===== *)
theory Fb_Lock
  imports Fb_Flash
begin

text \<open>
  The lock of the device (\<^verbatim>\<open>drivers/usb/gadget/fastboot_lock_unlock.c\<close>, in a build
  without the encrypted store and without Trusty): the lock state in the first block of the
  partition \<open>fbmisc\<close>, the permission to unlock in the last byte of \<open>presistdata\<close>, and the
  functions of \<^verbatim>\<open>drivers/usb/gadget/f_fastboot.c\<close> that lock and unlock.

  Blocks are read and written through the descriptor of the device, past the block cache. A buffer
  from \<open>memalign\<close> starts with what memory holds at its address; what is left in it when it is freed
  is not kept.
\<close>

section \<open>Operations\<close>

datatype lock_enable = FASTBOOT_UL_DISABLE | FASTBOOT_UL_ENABLE | FASTBOOT_UL_ERROR

definition SECTOR_SIZE :: nat where "SECTOR_SIZE = 0x200"

definition decrypt_lock_store :: "u8 list \<Rightarrow> lock_state" where
  "decrypt_lock_store bdata =
     (let s = map char_of_byte bdata in
      if strncmp s ''locked'' (strlen ''locked'') = 0 then FASTBOOT_LOCK
      else if strncmp s ''unlocked'' (strlen ''unlocked'') = 0 then FASTBOOT_UNLOCK
      else FASTBOOT_LOCK_ERROR)"

text \<open>\<open>None\<close> for a state that is not stored.\<close>

definition encrypt_lock_store :: "lock_state \<Rightarrow> u8 list \<Rightarrow> u8 list option" where
  "encrypt_lock_store lock bdata =
     (let put = (\<lambda>s. map_option (map byte_of_char) (strncpy (map char_of_byte bdata) s (strlen s))) in
      case lock of
        FASTBOOT_LOCK \<Rightarrow> put ''locked''
      | FASTBOOT_UNLOCK \<Rightarrow> put ''unlocked''
      | FASTBOOT_LOCK_ERROR \<Rightarrow> None)"

definition get_mmc_part :: "('c, 'w) board \<Rightarrow> u32 \<Rightarrow> ('c, 'w) machine \<Rightarrow> char list option" where
  "get_mmc_part bd part m = sprintf (ram m) ''%x:%x'' [VInt (mmc_get_env_dev bd m), VInt part]"

text \<open>The partition of a name on the environment device, as all functions below look it up.\<close>

definition fb_part :: "('c, 'w) board \<Rightarrow> char list \<Rightarrow> ('c, 'w) fb_state \<Rightarrow> disk_partition option" where
  "fb_part bd name st =
     (let mmc_id = fastboot_flash_find_index name (ptab st) in
      if mmc_id < 0 then None
      else
        case get_mmc_part bd (of_int mmc_id) (mach st) of
          None \<Rightarrow> None
        | Some s \<Rightarrow> blk_get_device_part_str bd (cstr s) (mach st))"

text \<open>One block through the descriptor: the status and the new state.\<close>

definition set_mmc :: "'c mmc \<Rightarrow> ('c, 'w) fb_state \<Rightarrow> ('c, 'w) fb_state" where
  "set_mmc d st = st\<lparr>mach := (mach st)\<lparr>mmcd := (d, snd (mmcd (mach st)))\<rparr>\<rparr>"

definition write_block :: "lbaint \<Rightarrow> u8 list \<Rightarrow> ('c, 'w) fb_state \<Rightarrow> (bool \<times> ('c, 'w) fb_state) option" where
  "write_block blk bdata st =
     map_option (\<lambda>(n, d). (n \<noteq> 0, set_mmc d st)) (mmc_bwrite blk 1 bdata (fst (mmcd (mach st))))"

definition read_block :: "lbaint \<Rightarrow> addr \<Rightarrow> ('c, 'w) fb_state \<Rightarrow> (u8 list option \<times> ('c, 'w) fb_state) option" where
  "read_block blk a st =
     map_option (\<lambda>(n, bs, d).
         (if n \<noteq> 0 then Some (bs @ drop (length bs) (mem_read (ram (mach st)) a SECTOR_SIZE)) else None, set_mmc d st))
       (mmc_bread blk 1 (fst (mmcd (mach st))))"

definition fastboot_set_lock_stat ::
  "('c, 'w) board \<Rightarrow> lock_state \<Rightarrow> ('c, 'w) fb_state \<Rightarrow> (int \<times> ('c, 'w) fb_state) option" where
  "fastboot_set_lock_stat bd lock st =
     (case memalign bd (of_nat SECTOR_SIZE) of
        None \<Rightarrow> Some (0, st\<lparr>g_lockstat := lock\<rparr>)
      | Some _ \<Rightarrow>
          (case fb_part bd ''fbmisc'' st of
             None \<Rightarrow> Some (-1, st)
           | Some info \<Rightarrow>
               (case encrypt_lock_store lock (replicate SECTOR_SIZE 0) of
                  None \<Rightarrow> Some (-1, st)
                | Some bdata \<Rightarrow>
                    (case write_block (istart info) bdata st of
                       None \<Rightarrow> None
                     | Some (ok, st) \<Rightarrow> Some (if ok then 0 else -1, st)))))"

definition fastboot_get_lock_stat ::
  "('c, 'w) board \<Rightarrow> ('c, 'w) fb_state \<Rightarrow> (lock_state \<times> ('c, 'w) fb_state) option" where
  "fastboot_get_lock_stat bd st =
     (case memalign bd (of_nat SECTOR_SIZE) of
        None \<Rightarrow> Some (g_lockstat st, st)
      | Some a \<Rightarrow>
          (case fb_part bd ''fbmisc'' st of
             None \<Rightarrow> Some (g_lockstat st, st)
           | Some info \<Rightarrow>
               (case read_block (istart info) a st of
                  None \<Rightarrow> None
                | Some (None, st) \<Rightarrow> Some (FASTBOOT_LOCK_ERROR, st)
                | Some (Some bdata, st) \<Rightarrow> Some (decrypt_lock_store bdata, st))))"

definition set_lock_disable_data :: "u8 list \<Rightarrow> u8 list" where
  "set_lock_disable_data bdata = bdata[SECTOR_SIZE - 1 := 0]"

definition lock_enable_parse :: "u8 list \<Rightarrow> lock_enable" where
  "lock_enable_parse bdata =
     (let b = bdata ! (SECTOR_SIZE - 1) in
      if b = 0 then FASTBOOT_UL_DISABLE else if b = 1 then FASTBOOT_UL_ENABLE else FASTBOOT_UL_ERROR)"

text \<open>
  Revoking the permission writes a whole block of which only the last byte was set; the rest is
  what memory holds at the buffer. With \<open>CONFIG_ENABLE_LOCKSTATUS_SUPPORT\<close> nothing is revoked and
  unlocking is always permitted.
\<close>

definition set_fastboot_lock_disable ::
  "('c, 'w) board \<Rightarrow> ('c, 'w) fb_state \<Rightarrow> ('c, 'w) fb_state option" where
  "set_fastboot_lock_disable bd st =
     (if cfg_lockstatus bd then Some st
      else
        case memalign bd (of_nat SECTOR_SIZE) of
          None \<Rightarrow> Some st
        | Some a \<Rightarrow>
            let bdata = set_lock_disable_data (mem_read (ram (mach st)) a SECTOR_SIZE) in
            (case fb_part bd ''presistdata'' st of
               None \<Rightarrow> Some st
             | Some info \<Rightarrow> map_option snd (write_block (istart info + isize info - 1) bdata st)))"

definition fastboot_lock_enable ::
  "('c, 'w) board \<Rightarrow> ('c, 'w) fb_state \<Rightarrow> (lock_enable \<times> ('c, 'w) fb_state) option" where
  "fastboot_lock_enable bd st =
     (if cfg_lockstatus bd then Some (FASTBOOT_UL_ENABLE, st)
      else
        case memalign bd (of_nat SECTOR_SIZE) of
          None \<Rightarrow> Some (FASTBOOT_UL_ERROR, st)
        | Some a \<Rightarrow>
            (case fb_part bd ''presistdata'' st of
               None \<Rightarrow> Some (FASTBOOT_UL_ERROR, st)
             | Some info \<Rightarrow>
                 (case read_block (istart info + isize info - 1) a st of
                    None \<Rightarrow> None
                  | Some (None, st) \<Rightarrow> Some (FASTBOOT_UL_ERROR, st)
                  | Some (Some bdata, st) \<Rightarrow> Some (lock_enable_parse bdata, st))))"

text \<open>The whole partition of a name is erased.\<close>

definition wipe_partition ::
  "('c, 'w) board \<Rightarrow> char list \<Rightarrow> ('c, 'w) fb_state \<Rightarrow> (int \<times> ('c, 'w) fb_state) option" where
  "wipe_partition bd name st =
     (case fb_part bd name st of
        None \<Rightarrow> Some (-1, st)
      | Some info \<Rightarrow>
          (case mmc_berase (istart info) (isize info) (fst (mmcd (mach st))) of
             None \<Rightarrow> None
           | Some (n, d) \<Rightarrow> Some (if n \<noteq> isize info then -1 else 0, set_mmc d st)))"

definition fastboot_wipe_data_partition ::
  "('c, 'w) board \<Rightarrow> ('c, 'w) fb_state \<Rightarrow> (int \<times> ('c, 'w) fb_state) option" where
  "fastboot_wipe_data_partition bd st = wipe_partition bd ''userdata'' st"

definition fastboot_wipe_all :: "('c, 'w) board \<Rightarrow> ('c, 'w) fb_state \<Rightarrow> ('c, 'w) fb_state option" where
  "fastboot_wipe_all bd st = map_option snd (wipe_partition bd ''gpt'' st)"

text \<open>
  The message that unlocking is possible prints the permission, so it is read once more there.
\<close>

definition do_fastboot_unlock ::
  "('c, 'w) board \<Rightarrow> bool \<Rightarrow> ('c, 'w) fb_state \<Rightarrow> (lock_state \<times> ('c, 'w) fb_state) option" where
  "do_fastboot_unlock bd force st =
     (case (if force then set_fastboot_lock_disable bd st else Some st) of
        None \<Rightarrow> None
      | Some st \<Rightarrow>
          (case fastboot_lock_enable bd st of
             None \<Rightarrow> None
           | Some (en, st) \<Rightarrow>
               if en = FASTBOOT_UL_ENABLE \<or> force then
                 (case fastboot_lock_enable bd st of
                    None \<Rightarrow> None
                  | Some (_, st) \<Rightarrow>
                      (case fastboot_get_lock_stat bd st of
                         None \<Rightarrow> None
                       | Some (stat, st) \<Rightarrow>
                           if stat = FASTBOOT_UNLOCK then Some (FASTBOOT_UNLOCK, st)
                           else
                             (case fastboot_set_lock_stat bd FASTBOOT_UNLOCK st of
                                None \<Rightarrow> None
                              | Some (status, st) \<Rightarrow>
                                  if status < 0 then Some (FASTBOOT_LOCK_ERROR, st)
                                  else map_option (\<lambda>(_, st). (FASTBOOT_UNLOCK, st)) (fastboot_wipe_data_partition bd st))))
               else Some (FASTBOOT_LOCK_ERROR, st)))"

definition do_fastboot_lock ::
  "('c, 'w) board \<Rightarrow> ('c, 'w) fb_state \<Rightarrow> (lock_state \<times> ('c, 'w) fb_state) option" where
  "do_fastboot_lock bd st =
     (case fastboot_get_lock_stat bd st of
        None \<Rightarrow> None
      | Some (stat, st) \<Rightarrow>
          if stat = FASTBOOT_LOCK then Some (FASTBOOT_LOCK, st)
          else
            (case fastboot_set_lock_stat bd FASTBOOT_LOCK st of
               None \<Rightarrow> None
             | Some (status, st) \<Rightarrow>
                 if status < 0 then Some (FASTBOOT_LOCK_ERROR, st)
                 else map_option (\<lambda>(_, st). (FASTBOOT_LOCK, st)) (fastboot_wipe_data_partition bd st)))"

section \<open>Blocks through the descriptor\<close>

abbreviation dev_of :: "('c, 'w) fb_state \<Rightarrow> 'c mmc" where
  "dev_of st \<equiv> fst (mmcd (mach st))"

text \<open>A usable card with blocks of one sector.\<close>

definition sector_card :: "'c mmc \<Rightarrow> bool" where
  "sector_card d \<longleftrightarrow> mmc_wf d \<and> unat (write_bl_len d) = SECTOR_SIZE"

lemma sector_card_step: "card_step d d' \<Longrightarrow> sector_card d' = sector_card d"
  using mmc_wf_step [of d d'] card_step_fields [of d d'] by (simp add: sector_card_def)

lemma set_mmc_simps [simp]:
  "dev_of (set_mmc d st) = d" "ptab (set_mmc d st) = ptab st" "g_lockstat (set_mmc d st) = g_lockstat st"
  "usb (set_mmc d st) = usb st" "ram (mach (set_mmc d st)) = ram (mach st)" "set_mmc d (set_mmc d' st) = set_mmc d st"
  "envst (mach (set_mmc d st)) = envst (mach st)"
  by (simp_all add: set_mmc_def)

lemma read_block_result:
  assumes "sector_card (dev_of st)" "unat blk < unat (lba (dev_of st))"
  shows "\<exists>r d. read_block blk a st = Some (r, set_mmc d st) \<and> quiet_step (dev_of st) d
    \<and> (r = None \<or> r = Some (mmc_cells (dev_of st) (unat blk)))"
proof -
  have wf: "mmc_wf (dev_of st)" and len: "length (mmc_cells (dev_of st) b) = SECTOR_SIZE" for b
    using assms(1) by (auto simp: sector_card_def mmc_wf_def mmc_cells_def)
  obtain r bs d where r: "mmc_bread blk 1 (dev_of st) = Some (r, bs, d)" "quiet_step (dev_of st) d" "r = 1 \<or> r = 0"
    "r = 1 \<longrightarrow> bs = get_blocks (mmc_cells (dev_of st)) (unat blk) 1"
    using mmc_bread_result [OF wf, of 1 blk] assms(2) by auto
  have "get_blocks (mmc_cells (dev_of st)) (unat blk) 1 = mmc_cells (dev_of st) (unat blk)"
    by (simp add: get_blocks_def)
  then show ?thesis
    using r len by (auto simp: read_block_def)
qed

lemma write_block_result:
  assumes "sector_card (dev_of st)" "unat blk < unat (lba (dev_of st))" "length bdata = SECTOR_SIZE"
  shows "\<exists>ok d. write_block blk bdata st = Some (ok, set_mmc d st) \<and> write_step (unat blk) 1 (dev_of st) d
    \<and> (ok \<longrightarrow> mmc_cells d (unat blk) = bdata)"
proof -
  have wf: "mmc_wf (dev_of st)" "unat (write_bl_len (dev_of st)) = SECTOR_SIZE"
    using assms(1) by (auto simp: sector_card_def)
  obtain r d where r: "mmc_bwrite blk 1 bdata (dev_of st) = Some (r, d)" "write_step (unat blk) 1 (dev_of st) d" "r = 1 \<or> r = 0"
    "r = 1 \<longrightarrow> mmc_cells d = put_blocks SECTOR_SIZE (mmc_cells (dev_of st)) (unat blk) 1 bdata"
    using mmc_bwrite_result [OF wf(1), of blk 1 bdata] assms(2,3) wf(2) by auto
  have "put_blocks SECTOR_SIZE (mmc_cells (dev_of st)) (unat blk) 1 bdata (unat blk) = bdata"
    using assms(3) by (simp add: put_blocks_def)
  then show ?thesis
    using r by (auto simp: write_block_def)
qed

lemma sprintf_part: "sprintf m ''%x:%x'' [VInt a, VInt b] = Some (hex a @ '':'' @ hex b @ [NUL])"
proof -
  have "vsn_loop m ''%x:%x'' ([], [VInt a, VInt b], []) = Some (hex a @ '':'' @ hex b, [], [])"
    using number_hex by (simp add: vsn_x_defs)
  then show ?thesis
    using length_hex [of a] length_hex [of b] by (simp add: sprintf_def vsnprintf_def INT_MAX_def)
qed

section \<open>Operations that leave the card alone\<close>

text \<open>
  \<open>calm st st'\<close>: no block of the card has changed, nor the table of partitions, and no command was
  scheduled to run when the answer is out.
\<close>

definition calm :: "('c, 'w) fb_state \<Rightarrow> ('c, 'w) fb_state \<Rightarrow> bool" where
  "calm st st' \<longleftrightarrow> quiet_step (dev_of st) (dev_of st') \<and> ptab st' = ptab st
     \<and> (in_req (usb st') = Some Do_acmd_complete \<longrightarrow> in_req (usb st) = Some Do_acmd_complete)"

lemma calm_refl [simp]: "calm st st"
  by (simp add: calm_def)

lemma calm_trans [trans]: "calm st1 st2 \<Longrightarrow> calm st2 st3 \<Longrightarrow> calm st1 st3"
  by (auto simp: calm_def intro: quiet_step_trans)

lemma calm_set_mmc: "quiet_step (dev_of st) d \<Longrightarrow> calm st (set_mmc d st)"
  by (simp add: calm_def)

lemma calm_usb:
  "(in_req u = Some Do_acmd_complete \<Longrightarrow> in_req (usb st) = Some Do_acmd_complete) \<Longrightarrow> calm st (st\<lparr>usb := u\<rparr>)"
  by (simp add: calm_def)

lemma fifo_link_req: "fifo_link n fb = Some fb' \<Longrightarrow> in_req fb' = in_req fb"
  by (auto simp: fifo_link_def Let_def split: if_splits option.splits)

lemma disable_req: "fastboot_disable fb = Some fb' \<Longrightarrow> in_req fb' = None"
  by (auto simp: fastboot_disable_def Let_def split: if_splits)

lemma tx_write_more_req:
  assumes "fastboot_tx_write_more ue s fb = Some (r, fb')"
  shows "in_req fb' = in_req fb \<or> in_req fb' = None"
proof (cases "malloc_node ue fb")
  case (Some n)
  then obtain fb1 where "fifo_link n fb = Some fb1"
    using assms by (auto simp: fastboot_tx_write_more_def split: option.splits)
  with Some assms fifo_link_req [OF this] show ?thesis
    by (auto simp: fastboot_tx_write_more_def Let_def dest: disable_req split: if_splits)
qed (use assms in \<open>simp add: fastboot_tx_write_more_def\<close>)

lemma tx_calm:
  "tx_str bd s st = Some st' \<Longrightarrow> calm st st'" "tx_more bd s st = Some st' \<Longrightarrow> calm st st'"
proof -
  show "calm st st'" if "tx_str bd s st = Some st'"
    using that by (auto simp: tx_str_def fastboot_tx_write_str_def fastboot_tx_write_def intro!: calm_usb split: if_splits)
  show "calm st st'" if tx: "tx_more bd s st = Some st'"
  proof -
    obtain r u where "fastboot_tx_write_more (usbenv bd) s (usb st) = Some (r, u)" "st' = st\<lparr>usb := u\<rparr>"
      using tx by (auto simp: tx_more_def)
    with tx_write_more_req [OF this(1)] show ?thesis by (auto intro!: calm_usb)
  qed
qed

section \<open>The lock state on the card\<close>

lemma encrypt_lock_store_text:
  assumes "s = ''locked'' \<or> s = ''unlocked''"
  shows "map_option (map byte_of_char) (strncpy (map char_of_byte (replicate SECTOR_SIZE 0)) s (strlen s)) =
    Some (map byte_of_char s @ replicate (SECTOR_SIZE - length s) 0)"
proof -
  have "NUL \<notin> set s" "length s \<le> 8" using assms by auto
  then have "strlen s = length s" "cstr s = s" by (auto intro: strlen_literal cstr_id)
  moreover have "byte_of_char (char_of_byte 0) = 0" by (rule byte_of_char_of_byte)
  ultimately show ?thesis
    using \<open>length s \<le> 8\<close> by (simp add: strncpy_long SECTOR_SIZE_def)
qed

lemma decrypt_lock_store_text:
  "decrypt_lock_store (map byte_of_char ''locked'' @ t) = FASTBOOT_LOCK"
  "decrypt_lock_store (map byte_of_char ''unlocked'' @ t) = FASTBOOT_UNLOCK"
  by (simp_all add: decrypt_lock_store_def Let_def)

lemma lock_store:
  assumes "lock \<noteq> FASTBOOT_LOCK_ERROR"
  shows "\<exists>b. encrypt_lock_store lock (replicate SECTOR_SIZE 0) = Some b \<and> length b = SECTOR_SIZE \<and> decrypt_lock_store b = lock"
proof (cases lock)
  case FASTBOOT_UNLOCK
  show ?thesis
    unfolding encrypt_lock_store_def Let_def FASTBOOT_UNLOCK lock_state.case encrypt_lock_store_text [OF disjI2 [OF refl]]
    by (intro exI conjI, rule refl) (simp_all only: decrypt_lock_store_text, simp add: SECTOR_SIZE_def)
next
  case FASTBOOT_LOCK
  show ?thesis
    unfolding encrypt_lock_store_def Let_def FASTBOOT_LOCK lock_state.case encrypt_lock_store_text [OF disjI1 [OF refl]]
    by (intro exI conjI, rule refl) (simp_all only: decrypt_lock_store_text, simp add: SECTOR_SIZE_def)
qed (use assms in simp)

text \<open>What \<open>fastboot_get_lock_stat\<close> answers when the block can be read.\<close>

lemma get_lock_stat_result:
  assumes "sector_card (dev_of st)" "memalign bd (of_nat SECTOR_SIZE) = Some a"
    "fb_part bd ''fbmisc'' st = Some info" "unat (istart info) < unat (lba (dev_of st))"
  shows "\<exists>s d. fastboot_get_lock_stat bd st = Some (s, set_mmc d st) \<and> quiet_step (dev_of st) d
    \<and> (s = FASTBOOT_LOCK_ERROR \<or> s = decrypt_lock_store (mmc_cells (dev_of st) (unat (istart info))))"
  using read_block_result [OF assms(1,4), of a] assms(2,3)
  by (auto simp: fastboot_get_lock_stat_def)


text \<open>A board with the three partitions of the lock, for the examples.\<close>

definition lock_ptn :: "char list \<Rightarrow> u32 \<Rightarrow> fastboot_ptentry" where
  "lock_ptn name i = \<lparr>pname = name, pstart = i, plength = 1, pflags = 0, partition_id = 0, partition_index = i, fstype = ''raw''\<rparr>"

definition lock_board :: "(unit, unit) board" where
  "lock_board = demo_base\<lparr>cfg_lock := True, memalign := (\<lambda>_. Some 0x9E000000),
     blk_get_device_part_str := (\<lambda>s _.
       if s = ''0:5'' then Some \<lparr>istart = 5, isize = 1, iblksz = 512, iname = ''fbmisc''\<rparr>
       else if s = ''0:6'' then Some \<lparr>istart = 6, isize = 1, iblksz = 512, iname = ''presistdata''\<rparr> else None)\<rparr>"

definition lock_demo :: "(unit, unit) fb_state" where
  "lock_demo = demo_state\<lparr>ptab := ptable_of [demo_ptn, lock_ptn ''fbmisc'' 5, lock_ptn ''presistdata'' 6]\<rparr>"

lemma lock_parts:
  assumes "ptab st = ptab lock_demo"
  shows "fb_part lock_board ''fbmisc'' st = Some \<lparr>istart = 5, isize = 1, iblksz = 512, iname = ''fbmisc''\<rparr>"
    "fb_part lock_board ''presistdata'' st = Some \<lparr>istart = 6, isize = 1, iblksz = 512, iname = ''presistdata''\<rparr>"
proof -
  have i: "fastboot_flash_find_index ''fbmisc'' (ptab st) = 5" "fastboot_flash_find_index ''presistdata'' (ptab st) = 6"
    unfolding assms by code_simp+
  have "hex 0 = ''0''" "hex 5 = ''5''" "hex 6 = ''6''" by code_simp+
  then have "get_mmc_part lock_board 5 m = Some (''0:5'' @ [NUL])" "get_mmc_part lock_board 6 m = Some (''0:6'' @ [NUL])" for m
    by (simp_all add: get_mmc_part_def sprintf_part lock_board_def demo_base_def)
  then show "fb_part lock_board ''fbmisc'' st = Some \<lparr>istart = 5, isize = 1, iblksz = 512, iname = ''fbmisc''\<rparr>"
    "fb_part lock_board ''presistdata'' st = Some \<lparr>istart = 6, isize = 1, iblksz = 512, iname = ''presistdata''\<rparr>"
    by (simp_all add: fb_part_def i) (simp_all add: lock_board_def)
qed

lemma lock_demo_card: "dev_of lock_demo = card512" "sector_card card512" "lba card512 = 8"
  using card512_wf by (simp_all add: lock_demo_def demo_state_def sector_card_def SECTOR_SIZE_def)
    (simp_all add: card512_def ram_mmc_def)


section \<open>A locked device\<close>

text \<open>
  What is assumed of the functions that look up partitions: they answer from the contents of the
  card alone.
\<close>

definition lookups_by_flash :: "('c, 'w) board \<Rightarrow> bool" where
  "lookups_by_flash bd \<longleftrightarrow> (\<forall>s m m'. quiet_step (fst (mmcd m)) (fst (mmcd m')) \<longrightarrow>
     blk_get_device_part_str bd s m' = blk_get_device_part_str bd s m \<and> mmc_get_env_dev bd m' = mmc_get_env_dev bd m)"

lemma fb_part_calm:
  assumes "lookups_by_flash bd" "calm st st'"
  shows "fb_part bd name st' = fb_part bd name st"
proof -
  have "blk_get_device_part_str bd s (mach st') = blk_get_device_part_str bd s (mach st)"
    "mmc_get_env_dev bd (mach st') = mmc_get_env_dev bd (mach st)" for s
    using assms unfolding lookups_by_flash_def calm_def by blast+
  then show ?thesis
    using assms(2) by (simp add: fb_part_def Let_def get_mmc_part_def sprintf_part calm_def)
qed

text \<open>Reading single blocks succeeds.\<close>

definition reads_well :: "'c mmc \<Rightarrow> bool" where
  "reads_well d \<longleftrightarrow> (\<forall>d' blk. quiet_step d d' \<longrightarrow> unat blk < unat (lba d) \<longrightarrow> (\<exists>bs d''. mmc_bread blk 1 d' = Some (1, bs, d'')))"

text \<open>
  Locked for good: the card says locked, it does not permit unlocking, and it can be read.
\<close>

definition locked :: "('c, 'w) board \<Rightarrow> ('c, 'w) fb_state \<Rightarrow> bool" where
  "locked bd st \<longleftrightarrow> cfg_lock bd \<and> \<not> cfg_lockstatus bd \<and> memalign bd (of_nat SECTOR_SIZE) \<noteq> None
     \<and> sector_card (dev_of st) \<and> reads_well (dev_of st)
     \<and> (\<exists>info. fb_part bd ''fbmisc'' st = Some info \<and> unat (istart info) < unat (lba (dev_of st))
          \<and> decrypt_lock_store (mmc_cells (dev_of st) (unat (istart info))) = FASTBOOT_LOCK)
     \<and> (\<forall>info. fb_part bd ''presistdata'' st = Some info \<longrightarrow> unat (istart info + isize info - 1) < unat (lba (dev_of st))
          \<and> lock_enable_parse (mmc_cells (dev_of st) (unat (istart info + isize info - 1))) \<noteq> FASTBOOT_UL_ENABLE)
     \<and> in_req (usb st) \<noteq> Some Do_acmd_complete"

lemma locked_calm:
  assumes "lookups_by_flash bd" "locked bd st" "calm st st'"
  shows "locked bd st'"
proof -
  have q: "quiet_step (dev_of st) (dev_of st')" "in_req (usb st') = Some Do_acmd_complete \<longrightarrow> in_req (usb st) = Some Do_acmd_complete"
    using assms(3) by (simp_all add: calm_def)
  have "reads_well (dev_of st')"
    using assms(2) q(1) card_step_fields(12) [OF quiet_card_step [OF q(1)]] quiet_step_trans [OF q(1)]
    unfolding locked_def reads_well_def by metis
  then show ?thesis
    using assms(2) q(2) quiet_step_cells(2) [OF q(1)] card_step_fields(12) [OF quiet_card_step [OF q(1)]]
      sector_card_step [OF quiet_card_step [OF q(1)]]
    unfolding locked_def fb_part_calm [OF assms(1,3)] by simp
qed

lemma read_block_well:
  assumes "sector_card (dev_of st)" "reads_well (dev_of st)" "unat blk < unat (lba (dev_of st))"
  shows "\<exists>d. read_block blk a st = Some (Some (mmc_cells (dev_of st) (unat blk)), set_mmc d st) \<and> quiet_step (dev_of st) d"
proof -
  obtain r d where r: "read_block blk a st = Some (r, set_mmc d st)" "quiet_step (dev_of st) d"
    "r = None \<or> r = Some (mmc_cells (dev_of st) (unat blk))"
    using read_block_result [OF assms(1,3)] by blast
  obtain bs d' where "mmc_bread blk 1 (dev_of st) = Some (1, bs, d')"
    using assms(2,3) card_step_refl(2) unfolding reads_well_def by blast
  then have "r \<noteq> None" using r(1) by (auto simp: read_block_def)
  with r show ?thesis by auto
qed

lemma locked_get:
  assumes "locked bd st"
  shows "\<exists>d. fastboot_get_lock_stat bd st = Some (FASTBOOT_LOCK, set_mmc d st) \<and> quiet_step (dev_of st) d"
proof -
  obtain info a where i: "fb_part bd ''fbmisc'' st = Some info" "unat (istart info) < unat (lba (dev_of st))"
    "decrypt_lock_store (mmc_cells (dev_of st) (unat (istart info))) = FASTBOOT_LOCK" "memalign bd (of_nat SECTOR_SIZE) = Some a"
    using assms unfolding locked_def by blast
  have "sector_card (dev_of st)" "reads_well (dev_of st)" using assms by (simp_all add: locked_def)
  from read_block_well [OF this i(2), of a] i show ?thesis
    by (auto simp: fastboot_get_lock_stat_def)
qed

lemma locked_enable:
  assumes "locked bd st"
  shows "\<exists>en d. fastboot_lock_enable bd st = Some (en, set_mmc d st) \<and> quiet_step (dev_of st) d \<and> en \<noteq> FASTBOOT_UL_ENABLE"
proof -
  obtain a where a: "memalign bd (of_nat SECTOR_SIZE) = Some a" "\<not> cfg_lockstatus bd"
    using assms unfolding locked_def by blast
  show ?thesis
  proof (cases "fb_part bd ''presistdata'' st")
    case None
    then have "fastboot_lock_enable bd st = Some (FASTBOOT_UL_ERROR, set_mmc (dev_of st) st)"
      using a by (simp add: fastboot_lock_enable_def set_mmc_def)
    then show ?thesis by (metis card_step_refl(2) lock_enable.distinct(5))
  next
    case (Some info)
    let ?blk = "istart info + isize info - 1"
    have c: "sector_card (dev_of st)" "reads_well (dev_of st)" "unat ?blk < unat (lba (dev_of st))"
      "lock_enable_parse (mmc_cells (dev_of st) (unat ?blk)) \<noteq> FASTBOOT_UL_ENABLE"
      using assms Some unfolding locked_def by blast+
    from read_block_well [OF c(1-3), of a] a Some c(4) show ?thesis
      by (auto simp: fastboot_lock_enable_def)
  qed
qed

lemma locked_unlock:
  assumes "locked bd st"
  shows "\<exists>st'. do_fastboot_unlock bd False st = Some (FASTBOOT_LOCK_ERROR, st') \<and> calm st st'"
  using locked_enable [OF assms] calm_set_mmc by (auto simp: do_fastboot_unlock_def)

lemma locked_lock:
  assumes "locked bd st"
  shows "\<exists>st'. do_fastboot_lock bd st = Some (FASTBOOT_LOCK, st') \<and> calm st st'"
  using locked_get [OF assms] calm_set_mmc by (auto simp: do_fastboot_lock_def)

end
