(* ===== verification/Fb_Getvar.thy ===== *)
theory Fb_Getvar
  imports Fb_Lock
begin

text \<open>
  Variables (\<^verbatim>\<open>drivers/usb/gadget/f_fastboot.c\<close>): \<open>get_single_var\<close> appends the value of a
  variable to a response, \<open>cb_getvar\<close> answers for one variable or lists all of them. In a build
  without AVB and Trusty, so that every slot variable reads as \<open>no\<close>.

  A response is the text in a buffer of 64 bytes; an operation that stores beyond the buffer is
  \<open>None\<close>.
\<close>

section \<open>Operations\<close>

definition strcmp_l1 :: "char list \<Rightarrow> char list \<Rightarrow> int" where
  "strcmp_l1 s1 s2 = strncmp s1 s2 (strlen s1)"

definition is_slotvar :: "char list \<Rightarrow> bool" where
  "is_slotvar cmd \<longleftrightarrow>
     strcmp_l1 ''has-slot:'' cmd = 0 \<or> strcmp_l1 ''slot-successful:'' cmd = 0 \<or> strcmp_l1 ''slot-count'' cmd = 0
     \<or> strcmp_l1 ''slot-suffixes'' cmd = 0 \<or> strcmp_l1 ''current-slot'' cmd = 0
     \<or> strcmp_l1 ''slot-unbootable:'' cmd = 0 \<or> strcmp_l1 ''slot-retry-count:'' cmd = 0"

definition get_block_size :: "('c, 'w) board \<Rightarrow> ('c, 'w) fb_state \<Rightarrow> u32" where
  "get_block_size bd st =
     (if blk_get_dev bd (ucast (dev_id (fastboot_devinfo st))) (mach st) then read_bl_len (dev_of st) else 0)"

definition RESP_SIZE :: nat where "RESP_SIZE = FASTBOOT_RESPONSE_LEN - 1"

text \<open>
  \<open>strncat(response, s, chars_left)\<close> and \<open>snprintf(response + strlen(response), chars_left, ...)\<close>,
  with \<open>chars_left\<close> as \<open>get_single_var\<close> computes it.
\<close>

definition resp_cat :: "char list \<Rightarrow> char list \<Rightarrow> char list option" where
  "resp_cat r s =
     (let t = r @ take (FASTBOOT_RESPONSE_LEN - length r - 1) (cstr s) in
      if length t < RESP_SIZE then Some t else None)"

definition resp_print :: "mem \<Rightarrow> char list \<Rightarrow> char list \<Rightarrow> varg list \<Rightarrow> char list option" where
  "resp_print m r fmt args =
     map_option (\<lambda>(buf, _, _). r @ cstr buf) (vsnprintf m (FASTBOOT_RESPONSE_LEN - length r - 1) fmt args)"

text \<open>\<open>snprintf\<close> into a buffer of its own.\<close>

definition snprintf :: "mem \<Rightarrow> nat \<Rightarrow> char list \<Rightarrow> varg list \<Rightarrow> char list option" where
  "snprintf m n fmt args = map_option (\<lambda>(buf, _, _). cstr buf) (vsnprintf m n fmt args)"

text \<open>Variables that come from the environment, and the answer for an unknown one.\<close>

definition env_var ::
  "('c, 'w) board \<Rightarrow> char list \<Rightarrow> char list \<Rightarrow> ('c, 'w) fb_state \<Rightarrow> (int \<times> char list) option" where
  "env_var bd cmd r st =
     (case snprintf (ram (mach st)) 31 ''fastboot.%s'' [VStr (Some cmd)] of
        None \<Rightarrow> None
      | Some envstr \<Rightarrow>
          (case genv bd envstr st of
             Some s \<Rightarrow> map_option (Pair 0) (resp_cat r s)
           | None \<Rightarrow>
               let chars_left = FASTBOOT_RESPONSE_LEN - length r - 1 in
               if chars_left = 0 then Some (-1, r)
               else
                 map_option (Pair (-1))
                   (snprintf (ram (mach st)) chars_left ''FAILunknown variable:%s'' [VStr (Some cmd)])))"

text \<open>The variables that need no partition.\<close>

definition plain_var ::
  "('c, 'w) board \<Rightarrow> char list \<Rightarrow> char list \<Rightarrow> ('c, 'w) fb_state \<Rightarrow> (int \<times> char list \<times> ('c, 'w) fb_state) option" where
  "plain_var bd cmd r st =
     (let var = (\<lambda>s. strcmp_l1 s cmd = 0); ok = map_option (\<lambda>r. (0 :: int, r, st)); m = ram (mach st) in
      if var ''version-baseband'' then ok (resp_cat r ''N/A'')
      else if var ''version-bootloader'' \<or> var ''bootloader-version'' then ok (resp_cat r (version bd))
      else if var ''version'' then ok (resp_cat r ''0.4'')
      else if var ''battery-voltage'' then ok (resp_cat r ''0mV'')
      else if var ''battery-soc-ok'' then ok (resp_cat r ''yes'')
      else if var ''variant'' then ok (resp_cat r ''NXP i.MX'')
      else if var ''off-mode-charge'' then ok (resp_cat r ''1'')
      else if var ''downloadsize'' \<or> var ''max-download-size'' then ok (resp_print m r ''0x%x'' [VInt (buf_size bd)])
      else if var ''erase-block-size'' then
        if \<not> mmc_found bd (mmc_get_env_dev bd (mach st)) (mach st) then None
        else ok (resp_print m r ''0x%x'' [VInt (get_block_size bd st * erase_grp_size (dev_of st))])
      else if var ''logical-block-size'' then ok (resp_print m r ''0x%x'' [VInt (get_block_size bd st)])
      else if var ''serialno'' then
        (case serial bd of
           Some s \<Rightarrow> ok (resp_cat r s)
         | None \<Rightarrow> map_option (\<lambda>r. (-1, r, st)) (resp_cat r ''FAILValue not set''))
      else if var ''product'' then ok (resp_cat r ''NXP i.MX'')
      else if var ''secure'' then ok (resp_cat r (if cfg_lock bd then ''yes'' else ''no''))
      else if var ''unlocked'' then
        if cfg_lock bd then
          (case fastboot_get_lock_stat bd st of
             None \<Rightarrow> None
           | Some (status, st) \<Rightarrow>
               map_option (\<lambda>r. (0, r, st)) (resp_cat r (if status = FASTBOOT_UNLOCK then ''yes'' else ''no'')))
        else ok (resp_cat r ''no'')
      else if is_slotvar cmd then ok (resp_cat r ''no'')
      else map_option (\<lambda>(s, r). (s, r, st)) (env_var bd cmd r st))"

definition get_single_var ::
  "('c, 'w) board \<Rightarrow> char list \<Rightarrow> char list \<Rightarrow> ('c, 'w) fb_state \<Rightarrow> (int \<times> char list \<times> ('c, 'w) fb_state) option" where
  "get_single_var bd cmd r st =
     (case strstr cmd ''partition-size:'' of
        Some str \<Rightarrow>
          (case fastboot_flash_find_ptn (drop (strlen ''partition-size:'') str) (ptab st) of
             None \<Rightarrow> map_option (\<lambda>r. (-1, r, st)) (resp_cat r ''Wrong partition name.'')
           | Some ptn \<Rightarrow>
               map_option (\<lambda>r. (0, r, st))
                 (resp_print (ram (mach st)) r ''0x%lx'' [VInt (plength ptn * get_block_size bd st)]))
      | None \<Rightarrow>
          (case strstr cmd ''partition-type:'' of
             Some str \<Rightarrow>
               (case fastboot_flash_find_ptn (drop (strlen ''partition-type:'') str) (ptab st) of
                  None \<Rightarrow> map_option (\<lambda>r. (-1, r, st)) (resp_cat r ''Wrong partition name.'')
                | Some ptn \<Rightarrow> map_option (\<lambda>r. (0, r, st)) (resp_cat r (fstype ptn)))
           | None \<Rightarrow> plain_var bd cmd r st))"

text \<open>The names without their slot suffix; a name that does not fit 16 bytes overruns the buffer.\<close>

definition base_name :: "char list \<Rightarrow> (bool \<times> char list) option" where
  "base_name name =
     (let buffer = cstr name; cut = (\<lambda>p. take (length buffer - length p) buffer) in
      if 16 \<le> length buffer then None
      else
        case strstr buffer ''_a'' of
          Some p \<Rightarrow> Some (True, cut p)
        | None \<Rightarrow>
            (case strstr buffer ''_b'' of
               Some p \<Rightarrow> Some (True, cut p)
             | None \<Rightarrow> Some (False, buffer)))"

definition is_exist :: "char list list \<Rightarrow> char list \<Rightarrow> bool" where
  "is_exist names buffer = list_ex (\<lambda>n. strcmp n buffer = 0) names"

definition get_partition_base_name :: "ptable \<Rightarrow> char list list option" where
  "get_partition_base_name pt =
     put_all (\<lambda>e names.
         (case base_name (pname e) of
            None \<Rightarrow> None
          | Some (slot, b) \<Rightarrow> Some (if slot \<and> is_exist names b then names else names @ [b])))
       (entries_of pt) []"

definition is_slot :: "ptable \<Rightarrow> bool" where
  "is_slot pt = list_ex (\<lambda>e. strstr (pname e) ''_a'' \<noteq> None \<or> strstr (pname e) ''_b'' \<noteq> None) (entries_of pt)"

definition fastboot_common_var :: "char list list" where
  "fastboot_common_var =
     [''version'', ''version-bootloader'', ''version-baseband'', ''product'', ''secure'', ''max-download-size'',
      ''erase-block-size'', ''logical-block-size'', ''unlocked'', ''off-mode-charge'', ''battery-voltage'',
      ''variant'', ''battery-soc-ok'']"

text \<open>One line of the list: the name, its value, and the transmission.\<close>

definition info_line ::
  "('c, 'w) board \<Rightarrow> char list option \<Rightarrow> char list option \<Rightarrow> ('c, 'w) fb_state \<Rightarrow> ('c, 'w) fb_state option" where
  "info_line bd resp var st =
     (case (resp, var) of
        (Some r, Some v) \<Rightarrow>
          (case get_single_var bd v r st of
             None \<Rightarrow> None
           | Some (_, r, st) \<Rightarrow> tx_more bd r st)
      | _ \<Rightarrow> None)"

definition info_named ::
  "('c, 'w) board \<Rightarrow> char list \<Rightarrow> char list \<Rightarrow> char list \<Rightarrow> ('c, 'w) fb_state \<Rightarrow> ('c, 'w) fb_state option" where
  "info_named bd rfmt vfmt name st =
     info_line bd (snprintf (ram (mach st)) RESP_SIZE rfmt [VStr (Some name)])
       (snprintf (ram (mach st)) RESP_SIZE vfmt [VStr (Some name)]) st"

definition slot_lines :: "('c, 'w) board \<Rightarrow> ('c, 'w) fb_state \<Rightarrow> ('c, 'w) fb_state option" where
  "slot_lines bd st =
     (case get_partition_base_name (ptab st) of
        None \<Rightarrow> None
      | Some names \<Rightarrow>
          put_all (\<lambda>f. f)
            (map (\<lambda>n. info_named bd ''INFOhas-slot:%s:'' ''has-slot:%s'' n) names
             @ [info_line bd (Some ''INFOcurrent-slot:'') (Some ''current-slot''),
                info_line bd (Some ''INFOslot-count:'') (Some ''slot-count'')]
             @ map (\<lambda>n. info_named bd ''INFOslot-successful:%s:'' ''slot-successful:%s'' n) [''a'', ''b'']
             @ map (\<lambda>n. info_named bd ''INFOslot-unbootable:%s:'' ''slot-unbootable:%s'' n) [''a'', ''b'']
             @ map (\<lambda>n. info_named bd ''INFOslot-retry-count:%s:'' ''slot-retry-count:%s'' n) [''a'', ''b'']) st)"

definition getvar_all :: "('c, 'w) board \<Rightarrow> ('c, 'w) fb_state \<Rightarrow> ('c, 'w) fb_state option" where
  "getvar_all bd st =
     put_all (\<lambda>f. f)
       (map (\<lambda>v st. info_line bd (snprintf (ram (mach st)) RESP_SIZE ''INFO%s:'' [VStr (Some v)]) (Some v) st) fastboot_common_var
        @ map (\<lambda>e. info_named bd ''INFOpartition-type:%s:'' ''partition-type:%s'' (pname e)) (entries_of (ptab st))
        @ map (\<lambda>e. info_named bd ''INFOpartition-size:%s:'' ''partition-size:%s'' (pname e)) (entries_of (ptab st))
        @ (if is_slot (ptab st) then [slot_lines bd] else [])
        @ [tx_more bd ''OKAYDone!'']) st"

text \<open>A variable that cannot be read is answered by \<open>FAIL\<close> alone.\<close>

definition cb_getvar :: "('c, 'w) board \<Rightarrow> char list \<Rightarrow> ('c, 'w) fb_state \<Rightarrow> ('c, 'w) fb_state option" where
  "cb_getvar bd cmd st =
     (case snd (strsep (Some cmd) '':'') of
        None \<Rightarrow> tx_str bd ''FAILmissing var'' st
      | Some cmd \<Rightarrow>
          if strcmp_l1 ''all'' cmd = 0 then getvar_all bd st
          else
            (case get_single_var bd cmd ''OKAY'' st of
               None \<Rightarrow> None
             | Some (status, r, st) \<Rightarrow> tx_str bd (if status \<noteq> 0 then ''FAIL'' else r) st))"

section \<open>The formats\<close>

definition plain_fmt :: "char list \<Rightarrow> bool" where
  "plain_fmt s \<longleftrightarrow> CHR ''%'' \<notin> set s \<and> NUL \<notin> set s"

lemma vsn_loop_plain: "plain_fmt pre \<Longrightarrow> vsn_loop m (pre @ fmt) (out, args, sts) = vsn_loop m fmt (out @ pre, args, sts)"
  by (induction pre arbitrary: out) (auto simp: plain_fmt_def)

lemma vsn_loop_s:
  "vsn_loop m (CHR ''%'' # CHR ''s'' # fmt) (out, VStr (Some s) # args, sts) = vsn_loop m fmt (out @ cstr s, args, sts)"
proof -
  have "take (strlen s) s = cstr s" by (simp add: strlen_cstr take_cstr [symmetric])
  then have "string_conv (Some s) (-1) (-1) no_flags = cstr s" by (simp add: string_conv_def no_flags_def)
  then show ?thesis by (simp add: vsn_x_defs)
qed

lemma vsnprintf_text:
  assumes "vsn_loop m fmt ([], args, []) = Some (out, a, sts)" "NUL \<notin> set out" "0 < n"
  shows "\<exists>l sts. vsnprintf m n fmt args = Some (take (n - 1) out @ [NUL], l, sts)"
proof (cases "n < Suc (length out)")
  case True
  then show ?thesis using assms by (simp add: vsnprintf_def Let_def)
next
  case False
  then have "take n (out @ [NUL]) = out @ [NUL]" "take (n - 1) out = out" by simp_all
  then show ?thesis using assms False by (simp add: vsnprintf_def Let_def)
qed

lemma snprintf_s:
  assumes "plain_fmt pre" "plain_fmt post" "0 < n"
  shows "snprintf m n (pre @ ''%s'' @ post) [VStr (Some s)] = Some (take (n - 1) (pre @ cstr s @ post))"
proof -
  have loop: "vsn_loop m (pre @ ''%s'' @ post) ([], [VStr (Some s)], []) = Some (pre @ cstr s @ post, [], [])"
    using vsn_loop_plain [OF assms(1), of m "''%s'' @ post"] vsn_loop_plain [OF assms(2), of m "[]"]
    by (simp add: vsn_loop_s del: vsn_loop.simps(2))
  have nul: "NUL \<notin> set (pre @ cstr s @ post)" using assms(1,2) NUL_notin_cstr [of s] by (auto simp: plain_fmt_def)
  then have "cstr (take (n - 1) (pre @ cstr s @ post) @ [NUL]) = take (n - 1) (pre @ cstr s @ post)"
    by (intro cstr_append_NUL) (meson in_set_takeD)
  then show ?thesis
    using vsnprintf_text [OF loop nul assms(3)] by (auto simp: snprintf_def)
qed

lemma resp_print_hex:
  assumes "length r < RESP_SIZE" "fmt = ''0x%x'' \<or> fmt = ''0x%lx''"
  shows "\<exists>v. resp_print m r fmt [VInt x] = Some (r @ v) \<and> length (r @ v) < RESP_SIZE \<and> v = take (RESP_SIZE - 1 - length r) (''0x'' @ hex x)"
proof -
  have loop: "vsn_loop m fmt ([], [VInt x], []) = Some (''0x'' @ hex x, [], [])"
    using assms(2) number_hex [of x] by (auto simp: vsn_x_defs)
  have nul: "NUL \<notin> set (''0x'' @ hex x)" using hex_NUL [of x] by auto
  have n: "0 < FASTBOOT_RESPONSE_LEN - length r - 1" using assms(1) by (simp add: RESP_SIZE_def FASTBOOT_RESPONSE_LEN_def)
  have "cstr (take k (''0x'' @ hex x) @ [NUL]) = take k (''0x'' @ hex x)" for k
    using nul by (intro cstr_append_NUL) (meson in_set_takeD)
  then have "resp_print m r fmt [VInt x] = Some (r @ take (FASTBOOT_RESPONSE_LEN - length r - 1 - 1) (''0x'' @ hex x))"
    using vsnprintf_text [OF loop nul n] by (auto simp: resp_print_def)
  then show ?thesis using assms(1) by (simp add: RESP_SIZE_def)
qed

lemma resp_cat_fits:
  "length r + length (cstr s) < RESP_SIZE \<Longrightarrow> resp_cat r s = Some (r @ cstr s)"
  by (simp add: resp_cat_def RESP_SIZE_def)

section \<open>One variable\<close>

text \<open>
  The board and the environment hold values that fit a response: at most 59 characters after
  \<open>OKAY\<close>. The card of the environment exists, and the lock state is readable where it is asked for.
\<close>

definition short :: "char list \<Rightarrow> bool" where
  "short s \<longleftrightarrow> length (cstr s) < RESP_SIZE - 4"

definition vars_ok :: "('c, 'w) board \<Rightarrow> ('c, 'w) fb_state \<Rightarrow> bool" where
  "vars_ok bd st \<longleftrightarrow> short (version bd) \<and> (\<forall>s. serial bd = Some s \<longrightarrow> short s)
     \<and> (\<forall>e \<in> set (entries_of (ptab st)). short (fstype e)) \<and> (\<forall>k s. NUL \<notin> set k \<longrightarrow> genv bd k st = Some s \<longrightarrow> short s)
     \<and> mmc_found bd (mmc_get_env_dev bd (mach st)) (mach st)
     \<and> (cfg_lock bd \<longrightarrow> sector_card (dev_of st) \<and> memalign bd (of_nat SECTOR_SIZE) \<noteq> None
          \<and> (\<exists>info. fb_part bd ''fbmisc'' st = Some info \<and> unat (istart info) < unat (lba (dev_of st))))"

definition var_answer ::
  "char list \<Rightarrow> ('c, 'w) fb_state \<Rightarrow> (int \<times> char list \<times> ('c, 'w) fb_state) option \<Rightarrow> bool" where
  "var_answer r0 st res \<longleftrightarrow> (\<exists>s r d. res = Some (s, r, set_mmc d st) \<and> quiet_step (dev_of st) d
     \<and> (s = -1 \<or> (s = 0 \<and> (\<exists>v. r = r0 @ v \<and> length r < RESP_SIZE))))"

lemma set_mmc_same [simp]: "set_mmc (dev_of st) st = st"
  by (simp add: set_mmc_def)

lemma answer_if: "(c \<Longrightarrow> var_answer r st x) \<Longrightarrow> (\<not> c \<Longrightarrow> var_answer r st y) \<Longrightarrow> var_answer r st (if c then x else y)"
  by simp

lemma answer_case:
  "(x = None \<Longrightarrow> var_answer r st n) \<Longrightarrow> (\<And>y. x = Some y \<Longrightarrow> var_answer r st (s y)) \<Longrightarrow>
   var_answer r st (case x of None \<Rightarrow> n | Some y \<Rightarrow> s y)"
  by (cases x) simp_all

lemma answer_value: "resp = Some (r @ v) \<Longrightarrow> length (r @ v) < RESP_SIZE \<Longrightarrow> var_answer r st (map_option (\<lambda>r. (0, r, st)) resp)"
  unfolding var_answer_def by (intro exI [of _ 0] exI [of _ "r @ v"] exI [of _ "dev_of st"]) auto

lemma answer_fail: "resp \<noteq> None \<Longrightarrow> var_answer r st (map_option (\<lambda>r. (-1, r, st)) resp)"
  unfolding var_answer_def by (auto intro!: exI [of _ "dev_of st"])

lemma answer_cat:
  "length r = 4 \<Longrightarrow> short s \<Longrightarrow> var_answer r st (map_option (\<lambda>r. (0, r, st)) (resp_cat r s))"
  by (rule answer_value, rule resp_cat_fits) (simp_all add: short_def RESP_SIZE_def FASTBOOT_RESPONSE_LEN_def)

lemma answer_cat_fail:
  "length r = 4 \<Longrightarrow> short s \<Longrightarrow> var_answer r st (map_option (\<lambda>r. (-1, r, st)) (resp_cat r s))"
  by (rule answer_fail) (simp add: resp_cat_fits short_def RESP_SIZE_def FASTBOOT_RESPONSE_LEN_def)

lemma answer_hex:
  assumes "length r = 4" "fmt = ''0x%x'' \<or> fmt = ''0x%lx''"
  shows "var_answer r st (map_option (\<lambda>r. (0, r, st)) (resp_print m r fmt [VInt x]))"
proof -
  have "length r < RESP_SIZE" using assms(1) by (simp add: RESP_SIZE_def FASTBOOT_RESPONSE_LEN_def)
  from resp_print_hex [OF this assms(2), of m x] show ?thesis
    using answer_value by blast
qed

lemma answer_env:
  assumes "length r = 4" "\<forall>k s. NUL \<notin> set k \<longrightarrow> genv bd k st = Some s \<longrightarrow> short s"
  shows "var_answer r st (map_option (\<lambda>(s, r). (s, r, st)) (env_var bd cmd r st))"
proof -
  have p: "plain_fmt ''fastboot.''" "plain_fmt []" "plain_fmt ''FAILunknown variable:''" by (simp_all add: plain_fmt_def)
  obtain envstr where e: "snprintf (ram (mach st)) 31 ''fastboot.%s'' [VStr (Some cmd)] = Some envstr" "NUL \<notin> set envstr"
    using snprintf_s [OF p(1,2), of 31] in_set_takeD [of NUL 21 "cstr cmd"] NUL_notin_cstr [of cmd] by auto
  show ?thesis
  proof (cases "genv bd envstr st")
    case None
    obtain t where "snprintf (ram (mach st)) 60 ''FAILunknown variable:%s'' [VStr (Some cmd)] = Some t"
      using snprintf_s [OF p(3,2), of 60] by simp
    then have "env_var bd cmd r st = Some (-1, t)"
      using None e assms(1) by (simp add: env_var_def FASTBOOT_RESPONSE_LEN_def)
    then show ?thesis using answer_fail [of "Some t" r st] by simp
  next
    case (Some s)
    then have "map_option (\<lambda>(s, r). (s, r, st)) (env_var bd cmd r st) = map_option (\<lambda>r. (0, r, st)) (resp_cat r s)"
      using e by (simp add: env_var_def option.map_comp comp_def)
    then show ?thesis using answer_cat [OF assms(1)] assms(2) Some e(2) by auto
  qed
qed

lemma answer_lock:
  assumes "length r = 4" "vars_ok bd st" "cfg_lock bd"
  shows "var_answer r st (case fastboot_get_lock_stat bd st of None \<Rightarrow> None
    | Some (status, st) \<Rightarrow> map_option (\<lambda>r. (0, r, st)) (resp_cat r (if status = FASTBOOT_UNLOCK then ''yes'' else ''no'')))"
proof -
  obtain info a where "sector_card (dev_of st)" "memalign bd (of_nat SECTOR_SIZE) = Some a"
    "fb_part bd ''fbmisc'' st = Some info" "unat (istart info) < unat (lba (dev_of st))"
    using assms(2,3) by (auto simp: vars_ok_def)
  then obtain s d where s: "fastboot_get_lock_stat bd st = Some (s, set_mmc d st)" "quiet_step (dev_of st) d"
    using get_lock_stat_result by blast
  have "resp_cat r (if s = FASTBOOT_UNLOCK then ''yes'' else ''no'') = Some (r @ (if s = FASTBOOT_UNLOCK then ''yes'' else ''no''))"
    using assms(1) by (simp add: resp_cat_fits RESP_SIZE_def FASTBOOT_RESPONSE_LEN_def)
  then show ?thesis
    using s assms(1) by (auto simp: var_answer_def RESP_SIZE_def FASTBOOT_RESPONSE_LEN_def)
qed

lemma short_literal [simp]: "length s < 60 \<Longrightarrow> short s"
  using length_cstr_le [of s] by (simp add: short_def RESP_SIZE_def FASTBOOT_RESPONSE_LEN_def)

lemma plain_var_answer:
  assumes "length r = 4" "vars_ok bd st"
  shows "var_answer r st (plain_var bd cmd r st)"
proof -
  have s: "short (version bd)" "\<And>s. serial bd = Some s \<Longrightarrow> short s" "mmc_found bd (mmc_get_env_dev bd (mach st)) (mach st)"
    "\<forall>k s. NUL \<notin> set k \<longrightarrow> genv bd k st = Some s \<longrightarrow> short s"
    using assms(2) by (auto simp: vars_ok_def)
  have ser: "var_answer r st (case serial bd of Some s \<Rightarrow> map_option (\<lambda>r. (0, r, st)) (resp_cat r s)
      | None \<Rightarrow> map_option (\<lambda>r. (-1, r, st)) (resp_cat r ''FAILValue not set''))"
    by (intro answer_case answer_cat answer_cat_fail) (use assms(1) s(2) in auto)
  show ?thesis
    unfolding plain_var_def Let_def
    by (intro answer_if answer_cat [OF assms(1)] answer_hex [OF assms(1)] ser answer_lock [OF assms]
        answer_env [OF assms(1) s(4)]) (use s in auto)
qed

lemma get_single_var_answer:
  assumes "length r = 4" "vars_ok bd st" "ptable_ok (ptab st)"
  shows "var_answer r st (get_single_var bd cmd r st)"
proof -
  have "short (fstype e)" if "fastboot_flash_find_ptn name (ptab st) = Some e" for name e
    using that assms(2) unfolding find_ptn_eq [OF assms(3)] vars_ok_def by (auto simp: find_Some_iff)
  then show ?thesis
    unfolding get_single_var_def
    by (intro answer_case answer_cat_fail [OF assms(1)] answer_cat [OF assms(1)] answer_hex [OF assms(1)]
        plain_var_answer [OF assms(1,2)]) auto
qed

text \<open>The transmit side works: there is an IN request with its buffer, and the queue takes it.\<close>

definition tx_ready :: "('c, 'w) board \<Rightarrow> ('c, 'w) fb_state \<Rightarrow> bool" where
  "tx_ready bd st \<longleftrightarrow> in_req (usb st) \<noteq> None \<and> EP_BUFFER_SIZE \<le> in_size (usb st) \<and> usb_ok (usbenv bd)"

lemma tx_str_sends:
  assumes "tx_ready bd st" "length (cstr s) \<le> EP_BUFFER_SIZE"
  shows "tx_str bd s st = Some (st\<lparr>usb := (usb st)\<lparr>sent := sent (usb st) @ [cstr s]\<rparr>\<rparr>)"
  using assms by (auto simp: tx_str_def fastboot_tx_write_str_def fastboot_tx_write_def tx_ready_def usb_ok_def)



text \<open>The limit passed to \<open>strncat\<close> leaves no room for the terminator.\<close>

lemma getvar_overflow: "length (cstr s) = 60 \<Longrightarrow> resp_cat ''OKAY'' s = None"
  by (simp add: resp_cat_def RESP_SIZE_def FASTBOOT_RESPONSE_LEN_def)

section \<open>Variables of a locked device\<close>

text \<open>Operations in a row, each of which keeps calm.\<close>

lemma put_all_calm:
  assumes step: "\<And>f st st'. f \<in> set fs \<Longrightarrow> P st \<Longrightarrow> f st = Some st' \<Longrightarrow> calm st st'"
    and keep: "\<And>st st'. P st \<Longrightarrow> calm st st' \<Longrightarrow> P st'"
  shows "P st \<Longrightarrow> put_all (\<lambda>f. f) fs st = Some st' \<Longrightarrow> calm st st'"
  using step
proof (induction fs arbitrary: st)
  case (Cons f fs)
  then obtain st1 where st1: "f st = Some st1" "put_all (\<lambda>f. f) fs st1 = Some st'" by (auto split: option.splits)
  have c: "calm st st1" by (rule Cons.prems(3) [of f]) (simp_all add: Cons.prems(1) st1(1))
  moreover have "calm st1 st'"
  proof (rule Cons.IH [OF keep [OF Cons.prems(1) c] st1(2)])
    show "calm s s'" if "g \<in> set fs" "P s" "g s = Some s'" for g s s'
      by (rule Cons.prems(3) [of g]) (use that in simp_all)
  qed
  ultimately show ?case by (rule calm_trans)
qed simp

lemma plain_var_calm:
  assumes "locked bd st" "plain_var bd cmd r st = Some (s, r', st')"
  shows "calm st st'"
proof -
  obtain d where d: "fastboot_get_lock_stat bd st = Some (FASTBOOT_LOCK, set_mmc d st)" "quiet_step (dev_of st) d"
    using locked_get [OF assms(1)] by blast
  have "st' = st \<or> st' = set_mmc d st"
    using assms(2) unfolding plain_var_def Let_def
    by (simp add: d(1) split: if_splits option.splits prod.splits)
  then show ?thesis using calm_set_mmc [OF d(2)] by auto
qed

lemma get_single_var_calm:
  assumes "locked bd st" "get_single_var bd cmd r st = Some (s, r', st')"
  shows "calm st st'"
  using assms(2) plain_var_calm [OF assms(1)] unfolding get_single_var_def
  by (auto split: option.splits)

lemma info_line_calm:
  assumes "locked bd st" "info_line bd r v st = Some st'"
  shows "calm st st'"
proof -
  obtain r1 v1 where rv: "r = Some r1" "v = Some v1"
    using assms(2) by (auto simp: info_line_def split: option.splits)
  then obtain s r2 st1 where g: "get_single_var bd v1 r1 st = Some (s, r2, st1)" "tx_more bd r2 st1 = Some st'"
    using assms(2) by (auto simp: info_line_def split: option.splits)
  show ?thesis
    using calm_trans [OF get_single_var_calm [OF assms(1) g(1)] tx_calm(2) [OF g(2)]] .
qed

lemma getvar_all_calm:
  assumes bd: "lookups_by_flash bd" and "locked bd st" "getvar_all bd st = Some st'"
  shows "calm st st'"
proof -
  note keep = locked_calm [OF bd]
  have named: "calm s s'" if "locked bd s" "info_named bd a b c s = Some s'" for a b c s s'
    using that info_line_calm by (auto simp: info_named_def)
  have slots: "calm s s'" if s: "locked bd s" "slot_lines bd s = Some s'" for s s'
  proof -
    obtain names where "get_partition_base_name (ptab s) = Some names"
      using s(2) by (auto simp: slot_lines_def split: option.splits)
    note l = s(2) [unfolded slot_lines_def this option.case]
    show ?thesis
      by (rule put_all_calm [where P = "locked bd", OF _ keep s(1) l]) (auto intro: named info_line_calm)
  qed
  show ?thesis
    by (rule put_all_calm [where P = "locked bd", OF _ keep assms(2) assms(3) [unfolded getvar_all_def]])
      (auto intro: named info_line_calm slots tx_calm split: if_splits)
qed

lemma cb_getvar_calm:
  assumes "lookups_by_flash bd" "locked bd st" "cb_getvar bd cmd st = Some st'"
  shows "calm st st'"
proof (cases "snd (strsep (Some cmd) '':'')")
  case None
  then show ?thesis using assms(3) tx_calm(1) by (auto simp: cb_getvar_def)
next
  case (Some v)
  show ?thesis
  proof (cases "strcmp_l1 ''all'' v = 0")
    case True
    then show ?thesis using assms Some getvar_all_calm by (auto simp: cb_getvar_def)
  next
    case False
    then obtain s r st1 where g: "get_single_var bd v ''OKAY'' st = Some (s, r, st1)"
      "tx_str bd (if s \<noteq> 0 then ''FAIL'' else r) st1 = Some st'"
      using assms(3) Some by (auto simp: cb_getvar_def split: option.splits)
    show ?thesis using calm_trans [OF get_single_var_calm [OF assms(2) g(1)] tx_calm(1) [OF g(2)]] .
  qed
qed

end
