(* ===== verification/Fb_Download.thy ===== *)
theory Fb_Download
  imports Fb_Flash
begin

text \<open>
  Downloading (\<^verbatim>\<open>drivers/usb/gadget/f_fastboot.c\<close>): \<open>cb_download\<close> announces the size and
  hands the OUT request to \<open>rx_handler_dl_image\<close>, which collects the data in memory until all of
  it has arrived; \<open>cb_upload\<close> sends it back.
\<close>

section \<open>Operations\<close>

text \<open>
  The length to ask for next: the rest, at most the buffer size, rounded up to whole packets. A
  packet size of 0 divides by zero.
\<close>

definition rx_bytes_expected :: "('c, 'w) board \<Rightarrow> ('c, 'w) fb_state \<Rightarrow> u32 option" where
  "rx_bytes_expected bd st =
     (let rx_remain = download_size st - download_bytes st in
      if sint rx_remain \<le> 0 then Some 0
      else if sint rx_remain > int EP_BUFFER_SIZE then Some (of_nat EP_BUFFER_SIZE)
      else if maxpacket bd = 0 then None
      else
        let rem = rx_remain mod maxpacket bd in
        Some (if rem > 0 then rx_remain + (maxpacket bd - rem) else rx_remain))"

text \<open>The OUT request gets a completion function and a length.\<close>

definition set_out :: "rx_fn \<Rightarrow> u32 \<Rightarrow> ('c, 'w) fb_state \<Rightarrow> ('c, 'w) fb_state" where
  "set_out fn n st = st\<lparr>usb := (usb st)\<lparr>out_req := Some \<lparr>complete = fn, rlength = n\<rparr>\<rparr>\<rparr>"

definition cb_download :: "('c, 'w) board \<Rightarrow> char list \<Rightarrow> ('c, 'w) fb_state \<Rightarrow> ('c, 'w) fb_state option" where
  "cb_download bd cmd st =
     (case snd (strsep (Some cmd) '':'') of
        None \<Rightarrow> None
      | Some cmd \<Rightarrow>
          let st = st\<lparr>download_size := fst (simple_strtoul cmd 16), download_bytes := 0\<rparr> in
          if download_size st = 0 then tx_str bd ''FAILdata invalid size'' st
          else if download_size st > buf_size bd then tx_str bd ''FAILdata too large'' (st\<lparr>download_size := 0\<rparr>)
          else
            (case sprintf (ram (mach st)) ''DATA%08x'' [VInt (download_size st)] of
               None \<Rightarrow> None
             | Some resp \<Rightarrow>
                 (case rx_bytes_expected bd st of
                    None \<Rightarrow> None
                  | Some n \<Rightarrow> tx_str bd resp (set_out Rx_handler_dl_image n st))))"

definition dl_base :: "('c, 'w) board \<Rightarrow> env_state \<Rightarrow> addr" where
  "dl_base bd e = getenv_ulong (hooks bd) (early bd) ''fastboot_buffer'' 16 (buf_addr bd) e"

definition set_env_hex :: "('c, 'w) board \<Rightarrow> char list \<Rightarrow> u32 \<Rightarrow> ('c, 'w) fb_state \<Rightarrow> ('c, 'w) fb_state option" where
  "set_env_hex bd name val st =
     map_option (\<lambda>(_, e). st\<lparr>mach := (mach st)\<lparr>envst := e\<rparr>\<rparr>) (setenv_hex (hooks bd) name val (envst (mach st)))"

text \<open>
  A packet of the download: \<open>status\<close> and \<open>pkt\<close> are those of the request. The last component of
  the result tells whether the request was queued again.
\<close>

definition rx_handler_dl_image ::
  "('c, 'w) board \<Rightarrow> int \<Rightarrow> u8 list \<Rightarrow> ('c, 'w) fb_state \<Rightarrow> (('c, 'w) fb_state \<times> bool) option" where
  "rx_handler_dl_image bd status pkt st =
     (let transfer_size = download_size st - download_bytes st;
          buffer_size = of_nat (length pkt) :: u32;
          base_addr = dl_base bd (envst (mach st)) in
      case set_env_hex bd ''fastboot_buffer'' base_addr st of
        None \<Rightarrow> None
      | Some st \<Rightarrow>
          if status \<noteq> 0 then Some (st, False)
          else
            let transfer_size = (if buffer_size < transfer_size then buffer_size else transfer_size);
                m = mach st;
                st = st\<lparr>mach := m\<lparr>ram := mem_write (ram m) (base_addr + download_bytes st) (take (unat transfer_size) pkt)\<rparr>,
                        download_bytes := download_bytes st + transfer_size\<rparr> in
            if download_bytes st \<ge> download_size st then
              (case tx_str bd ''OKAY'' (set_out Rx_handler_command (of_nat EP_BUFFER_SIZE) (st\<lparr>download_size := 0\<rparr>)) of
                 None \<Rightarrow> None
               | Some st \<Rightarrow> map_option (\<lambda>st. (st, True)) (set_env_hex bd ''fastboot_bytes'' (download_bytes st) st))
            else
              (case rx_bytes_expected bd st of
                 None \<Rightarrow> None
               | Some n \<Rightarrow> Some (set_out Rx_handler_dl_image n st, True)))"

text \<open>
  \<open>cb_upload\<close> sends the size, the data from the transfer buffer in one request, and \<open>OKAY\<close>.
\<close>

definition cb_upload :: "('c, 'w) board \<Rightarrow> ('c, 'w) fb_state \<Rightarrow> ('c, 'w) fb_state option" where
  "cb_upload bd st =
     (if download_bytes st = 0 \<or> unat (download_bytes st) > EP_BUFFER_SIZE * 32 then tx_str bd ''FAIL'' st
      else
        case sprintf (ram (mach st)) ''DATA%08x'' [VInt (download_bytes st)] of
          None \<Rightarrow> None
        | Some resp \<Rightarrow>
            (case tx_more bd resp st of
               None \<Rightarrow> None
             | Some st \<Rightarrow>
                 (case fastboot_tx_write (usbenv bd)
                         (map char_of_byte (mem_read (ram (mach st)) (transfer_buffer st) (unat (download_bytes st)))) (usb st) of
                    None \<Rightarrow> None
                  | Some (_, u) \<Rightarrow> tx_more bd ''OKAY'' (st\<lparr>usb := u\<rparr>))))"

section \<open>The environment during a download\<close>

text \<open>
  There is room for the two variables a download sets, and nothing refuses them.
\<close>

definition dl_env :: "('c, 'w) board \<Rightarrow> env_state \<Rightarrow> bool" where
  "dl_env bd e \<longleftrightarrow> permissive (hooks bd) \<and> env_inv e
     \<and> Finite_Set.card ({''fastboot_buffer'', ''fastboot_bytes''} - dom (env_vars e)) \<le> env_room e"

lemma dl_names: "env_name ''fastboot_buffer''" "env_name ''fastboot_bytes''"
  by code_simp+

lemma dl_env_room:
  assumes "dl_env bd e" "k \<in> {''fastboot_buffer'', ''fastboot_bytes''}"
  shows "0 < env_room e \<or> k \<in> dom (env_vars e)"
proof (rule ccontr)
  assume "\<not> ?thesis"
  then have "k \<in> {''fastboot_buffer'', ''fastboot_bytes''} - dom (env_vars e)" "env_room e = 0" using assms(2) by auto
  then have "0 < Finite_Set.card ({''fastboot_buffer'', ''fastboot_bytes''} - dom (env_vars e))"
    by (metis card_gt_0_iff empty_iff finite.emptyI finite_Diff finite_insert)
  with assms(1) \<open>env_room e = 0\<close> show False by (simp add: dl_env_def)
qed

lemma setenv_hex_dl:
  assumes "dl_env bd e" "k \<in> {''fastboot_buffer'', ''fastboot_bytes''}"
  shows "\<exists>rc e'. setenv_hex (hooks bd) k val e = Some (rc, e') \<and> dl_env bd e' \<and> env_vars e' = (env_vars e)(k \<mapsto> hex val)"
proof -
  let ?v = "hex val @ [NUL]"
  have hk: "permissive (hooks bd)" "env_inv e" and k: "env_name k" using assms dl_names by (auto simp: dl_env_def)
  have v: "cstr ?v = hex val" "hex val \<noteq> []"
    using cstr_append_NUL [OF hex_NUL] hex_Cons [of val] by auto
  have eq: "setenv_hex (hooks bd) k val e = setenv (hooks bd) k (Some ?v) e"
    by (simp add: setenv_hex_def sprintf_lx hex_def)
  note room = dl_env_room [OF assms]
  show ?thesis
  proof (cases "k \<in> dom (env_vars e)")
    case True
    then obtain rc e' where e': "setenv (hooks bd) k (Some ?v) e = Some (rc, e')" "env_inv e'" "env_room e \<le> env_room e'"
      using setenv_present [OF hk(2) k True, of ?v "hooks bd"] v by auto
    have vars: "env_vars e' = (env_vars e)(k \<mapsto> hex val)"
      using setenv_open [OF hk k room e'(1)] v by simp
    moreover have "dl_env bd e'"
      using assms e' vars True by (simp add: dl_env_def insert_absorb)
    ultimately show ?thesis using e'(1) eq by auto
  next
    case False
    with room have "0 < env_room e" by blast
    then obtain rc e' where e': "setenv (hooks bd) k (Some ?v) e = Some (rc, e')" "env_inv e'" "env_room e \<le> env_room e' + 1"
      using setenv_result [OF hk(2) k, of "hooks bd" ?v] by blast
    have vars: "env_vars e' = (env_vars e)(k \<mapsto> hex val)"
      using setenv_open [OF hk k room e'(1)] v by simp
    let ?miss = "{''fastboot_buffer'', ''fastboot_bytes''} - dom (env_vars e)"
    have "Finite_Set.card (?miss - {k}) < Finite_Set.card ?miss"
      using assms(2) False by (intro psubset_card_mono) auto
    moreover have "{''fastboot_buffer'', ''fastboot_bytes''} - dom (env_vars e') = ?miss - {k}"
      using vars by auto
    ultimately have "dl_env bd e'"
      using assms(1) e' by (simp add: dl_env_def)
    then show ?thesis using e'(1) eq vars by auto
  qed
qed

lemma dl_base_hex:
  assumes "env_inv e" "env_vars e ''fastboot_buffer'' = Some (hex a)"
  shows "dl_base bd e = a"
proof -
  have "getenv (hooks bd) (early bd) ''fastboot_buffer'' e = Some (hex a)"
    using getenv_habs [OF assms(1) dl_names(1)] assms(2) by (simp add: env_vars_def)
  then show ?thesis
    using strtoul_hex_digits [of a] by (simp add: dl_base_def getenv_ulong_def hex_def)
qed

lemma dl_base_other:
  assumes "env_inv e" "env_inv e'" "env_vars e' ''fastboot_buffer'' = env_vars e ''fastboot_buffer''"
  shows "dl_base bd e' = dl_base bd e"
  using getenv_habs [OF assms(1) dl_names(1)] getenv_habs [OF assms(2) dl_names(1)] assms(3)
  by (simp add: dl_base_def getenv_ulong_def env_vars_def)

section \<open>One packet\<close>

text \<open>
  What a download needs: the environment has room, the IN request is there and its queue works,
  the packet size is not zero and the buffer is smaller than 2 GiB.
\<close>

definition dl_ready :: "('c, 'w) board \<Rightarrow> ('c, 'w) fb_state \<Rightarrow> bool" where
  "dl_ready bd st \<longleftrightarrow> dl_env bd (envst (mach st)) \<and> in_req (usb st) \<noteq> None \<and> EP_BUFFER_SIZE \<le> in_size (usb st)
     \<and> usb_ok (usbenv bd) \<and> maxpacket bd \<noteq> 0 \<and> unat (buf_size bd) < 2 ^ 31"

text \<open>A download of \<open>n\<close> bytes of which \<open>k\<close> have arrived.\<close>

definition downloading :: "('c, 'w) board \<Rightarrow> nat \<Rightarrow> nat \<Rightarrow> ('c, 'w) fb_state \<Rightarrow> bool" where
  "downloading bd n k st \<longleftrightarrow> dl_ready bd st \<and> k < n \<and> n \<le> unat (buf_size bd)
     \<and> unat (download_size st) = n \<and> unat (download_bytes st) = k
     \<and> map_option complete (out_req (usb st)) = Some Rx_handler_dl_image"

lemma tx_str_ready:
  assumes "dl_ready bd st" "length (cstr s) \<le> EP_BUFFER_SIZE"
  shows "tx_str bd s st = Some (st\<lparr>usb := (usb st)\<lparr>sent := sent (usb st) @ [cstr s]\<rparr>\<rparr>)"
  using assms by (auto simp: tx_str_def fastboot_tx_write_str_def fastboot_tx_write_def dl_ready_def usb_ok_def)

lemma set_env_hex_ready:
  assumes "dl_ready bd st" "k \<in> {''fastboot_buffer'', ''fastboot_bytes''}"
  shows "\<exists>e. set_env_hex bd k val st = Some (st\<lparr>mach := (mach st)\<lparr>envst := e\<rparr>\<rparr>) \<and> dl_env bd e
    \<and> env_vars e = (env_vars (envst (mach st)))(k \<mapsto> hex val)"
  using setenv_hex_dl [of bd "envst (mach st)" k val] assms by (auto simp: set_env_hex_def dl_ready_def)

lemma expected_some:
  assumes "maxpacket bd \<noteq> 0"
  shows "\<exists>n. rx_bytes_expected bd st = Some n"
  using assms by (auto simp: rx_bytes_expected_def Let_def)

lemma packet_result:
  assumes dl: "downloading bd n k st" and len: "length pkt \<le> EP_BUFFER_SIZE"
  defines "base \<equiv> dl_base bd (envst (mach st))"
  shows "\<exists>st'. rx_handler_dl_image bd 0 pkt st = Some (st', True) \<and> dl_ready bd st'
    \<and> dl_base bd (envst (mach st')) = base
    \<and> ram (mach st') = mem_write (ram (mach st)) (base + of_nat k) (take (n - k) pkt)
    \<and> (if k + length pkt < n
       then downloading bd n (k + length pkt) st' \<and> sent (usb st') = sent (usb st)
       else download_size st' = 0 \<and> unat (download_bytes st') = n
         \<and> out_req (usb st') = Some \<lparr>complete = Rx_handler_command, rlength = of_nat EP_BUFFER_SIZE\<rparr>
         \<and> sent (usb st') = sent (usb st) @ [''OKAY'']
         \<and> env_vars (envst (mach st')) ''fastboot_bytes'' = Some (hex (of_nat n)))"
proof -
  have rdy: "dl_ready bd st" and k: "k < n" and n: "n \<le> unat (buf_size bd)" "unat (buf_size bd) < 2 ^ 31"
    and ds: "unat (download_size st) = n" and db: "unat (download_bytes st) = k"
    using dl by (simp_all add: downloading_def dl_ready_def)
  obtain e where e: "set_env_hex bd ''fastboot_buffer'' base st = Some (st\<lparr>mach := (mach st)\<lparr>envst := e\<rparr>\<rparr>)" "dl_env bd e"
    "env_vars e = (env_vars (envst (mach st)))(''fastboot_buffer'' \<mapsto> hex base)"
    using set_env_hex_ready [OF rdy] by blast
  have eb: "dl_base bd e = base" using e(2,3) by (intro dl_base_hex) (simp_all add: dl_env_def)
  have kk: "download_bytes st = of_nat k" using db by (metis of_nat_unat ucast_id)
  have ts: "unat (download_size st - download_bytes st) = n - k" using ds db k by (simp add: u32_minus)
  have lp: "unat (of_nat (length pkt) :: u32) = length pkt" using len by (intro unat_of_nat_u32) (simp add: EP_BUFFER_SIZE_def)
  define ts' where "ts' = (if of_nat (length pkt) < download_size st - download_bytes st
      then of_nat (length pkt) else download_size st - download_bytes st)"
  have ts': "unat ts' = min (length pkt) (n - k)"
    using lp ts by (simp add: ts'_def word_less_nat_alt min_def)
  have db': "unat (download_bytes st + ts') = k + min (length pkt) (n - k)"
    using n k by (subst u32_plus) (simp_all add: ts' db)
  have tk: "take (unat ts') pkt = take (n - k) pkt" by (simp add: ts' min_def)
  let ?m = "(mach st)\<lparr>envst := e, ram := mem_write (ram (mach st)) (base + download_bytes st) (take (n - k) pkt)\<rparr>"
  let ?st1 = "st\<lparr>mach := ?m, download_bytes := download_bytes st + ts'\<rparr>"
  show ?thesis
  proof (cases "k + length pkt < n")
    case True
    then have nd: "\<not> download_size st \<le> download_bytes st + ts'"
      by (simp add: word_le_nat_alt db' ds)
    obtain x where x: "rx_bytes_expected bd ?st1 = Some x"
      using expected_some rdy by (auto simp: dl_ready_def)
    have "rx_handler_dl_image bd 0 pkt st = Some (set_out Rx_handler_dl_image x ?st1, True)"
      using e(1) nd x tk unfolding rx_handler_dl_image_def Let_def base_def [symmetric] ts'_def [symmetric] by simp
    moreover have "downloading bd n (k + length pkt) (set_out Rx_handler_dl_image x ?st1)"
      using True rdy n ds db' e(2) by (simp add: downloading_def dl_ready_def set_out_def)
    ultimately show ?thesis
      using True eb kk by (auto simp: set_out_def downloading_def)
  next
    case False
    then have all: "unat (download_bytes st + ts') = n" using db' k by simp
    then have nd: "download_size st \<le> download_bytes st + ts'"
      by (simp add: word_le_nat_alt ds)
    let ?st2 = "set_out Rx_handler_command (of_nat EP_BUFFER_SIZE) (?st1\<lparr>download_size := 0\<rparr>)"
    let ?st3 = "?st2\<lparr>usb := (usb ?st2)\<lparr>sent := sent (usb ?st2) @ [''OKAY'']\<rparr>\<rparr>"
    have r2: "dl_ready bd ?st2" "dl_ready bd ?st3" using rdy e(2) by (simp_all add: dl_ready_def set_out_def)
    have tx: "tx_str bd ''OKAY'' ?st2 = Some ?st3"
      using tx_str_ready [OF r2(1), of "''OKAY''"] by (simp add: EP_BUFFER_SIZE_def)
    obtain e3 where e3: "set_env_hex bd ''fastboot_bytes'' (download_bytes ?st3) ?st3 = Some (?st3\<lparr>mach := (mach ?st3)\<lparr>envst := e3\<rparr>\<rparr>)"
      "dl_env bd e3" "env_vars e3 = (env_vars (envst (mach ?st3)))(''fastboot_bytes'' \<mapsto> hex (download_bytes ?st3))"
      using set_env_hex_ready [OF r2(2)] by blast
    have "dl_base bd e3 = base"
      using e3(2,3) e(2,3) by (intro dl_base_hex) (simp_all add: dl_env_def set_out_def)
    moreover have "rx_handler_dl_image bd 0 pkt st = Some (?st3\<lparr>mach := (mach ?st3)\<lparr>envst := e3\<rparr>\<rparr>, True)"
      using e(1) nd tx tk e3(1) unfolding rx_handler_dl_image_def Let_def base_def [symmetric] ts'_def [symmetric] by simp
    moreover have "download_bytes st + ts' = of_nat n" using all by (metis of_nat_unat ucast_id)
    ultimately show ?thesis
      using False e3(2,3) rdy all kk by (auto simp: set_out_def dl_ready_def)
  qed
qed

section \<open>A whole download\<close>

lemma cb_download_result:
  assumes "dl_ready bd st" "0 < n" "n \<le> buf_size bd"
  shows "\<exists>st'. cb_download bd (''download:'' @ hex n @ NUL # t) st = Some st' \<and> downloading bd (unat n) 0 st' \<and> mach st' = mach st
    \<and> sent (usb st') = sent (usb st) @ [''DATA'' @ replicate (8 - length (hex n)) CHR ''0'' @ hex n]"
proof -
  let ?st1 = "st\<lparr>download_size := n, download_bytes := 0\<rparr>"
  let ?r = "''DATA'' @ replicate (8 - length (hex n)) CHR ''0'' @ hex n"
  have args: "snd (strsep (Some (''download:'' @ hex n @ NUL # t)) '':'') = Some (hex n @ NUL # t)"
    "fst (simple_strtoul (hex n @ NUL # t) 16) = n"
    using strtoul_hex_text [of n t] by (simp_all add: strsep_def)
  obtain x where x: "rx_bytes_expected bd ?st1 = Some x" using expected_some assms(1) by (auto simp: dl_ready_def)
  have resp: "cstr (?r @ [NUL]) = ?r" "length ?r \<le> 12"
    using length_hex [of n] by (intro cstr_append_NUL; auto simp: hex_NUL) (use length_hex [of n] in simp)
  have rdy: "dl_ready bd (set_out Rx_handler_dl_image x ?st1)" using assms(1) by (simp add: dl_ready_def set_out_def)
  have "tx_str bd (?r @ [NUL]) (set_out Rx_handler_dl_image x ?st1) =
      Some ((set_out Rx_handler_dl_image x ?st1)\<lparr>usb := (usb (set_out Rx_handler_dl_image x ?st1))\<lparr>sent := sent (usb st) @ [?r]\<rparr>\<rparr>)"
    using tx_str_ready [OF rdy, of "?r @ [NUL]"] resp by (simp add: EP_BUFFER_SIZE_def set_out_def)
  then have "cb_download bd (''download:'' @ hex n @ NUL # t) st =
      Some ((set_out Rx_handler_dl_image x ?st1)\<lparr>usb := (usb (set_out Rx_handler_dl_image x ?st1))\<lparr>sent := sent (usb st) @ [?r]\<rparr>\<rparr>)"
    using args x assms(2,3) unfolding cb_download_def
    by (simp add: Let_def sprintf_data word_gt_0 not_less [symmetric])
  then show ?thesis
    using assms by (simp add: downloading_def dl_ready_def set_out_def word_le_nat_alt word_less_nat_alt)
qed

text \<open>The packets of a download, one after the other.\<close>

primrec feed :: "('c, 'w) board \<Rightarrow> u8 list list \<Rightarrow> ('c, 'w) fb_state \<Rightarrow> ('c, 'w) fb_state option" where
  "feed bd [] st = Some st"
| "feed bd (p # ps) st = (case rx_handler_dl_image bd 0 p st of None \<Rightarrow> None | Some (st, _) \<Rightarrow> feed bd ps st)"

lemma feed_result:
  assumes "downloading bd n k st" "list_all (\<lambda>p. length p \<le> EP_BUFFER_SIZE) (ps @ [p])"
    "k + length (concat ps) < n" "n \<le> k + length (concat (ps @ [p]))"
  shows "\<exists>st'. feed bd (ps @ [p]) st = Some st' \<and> download_size st' = 0 \<and> unat (download_bytes st') = n
    \<and> out_req (usb st') = Some \<lparr>complete = Rx_handler_command, rlength = of_nat EP_BUFFER_SIZE\<rparr> \<and> dl_ready bd st'
    \<and> sent (usb st') = sent (usb st) @ [''OKAY'']
    \<and> env_vars (envst (mach st')) ''fastboot_bytes'' = Some (hex (of_nat n))
    \<and> ram (mach st') = mem_write (ram (mach st)) (dl_base bd (envst (mach st)) + of_nat k) (take (n - k) (concat (ps @ [p])))"
  using assms
proof (induction ps arbitrary: k st)
  case Nil
  then show ?case using packet_result [of bd n k st p] by auto
next
  case (Cons q ps)
  have q: "length q \<le> EP_BUFFER_SIZE" "k + length q < n" using Cons.prems(2,3) by auto
  then obtain st1 where st1: "rx_handler_dl_image bd 0 q st = Some (st1, True)" "downloading bd n (k + length q) st1"
    "dl_base bd (envst (mach st1)) = dl_base bd (envst (mach st))" "sent (usb st1) = sent (usb st)"
    "ram (mach st1) = mem_write (ram (mach st)) (dl_base bd (envst (mach st)) + of_nat k) (take (n - k) q)"
    using packet_result [OF Cons.prems(1) q(1)] by auto
  have n: "n < 2 ^ 32" using Cons.prems(1) unat_u32_less [of "buf_size bd"] by (auto simp: downloading_def)
  let ?rest = "take (n - (k + length q)) (concat (ps @ [p]))"
  have "mem_write (mem_write m a (take (n - k) q)) (a + of_nat (length q)) ?rest = mem_write m a (take (n - k) (concat ((q # ps) @ [p])))" for m a
  proof -
    have "take (n - k) q = q" using q by simp
    moreover have "take (n - k) (concat ((q # ps) @ [p])) = q @ ?rest" using q by (simp add: take_append)
    moreover have "length q + length ?rest \<le> 2 ^ 32" using n q by simp
    ultimately show ?thesis using mem_write_append [of q ?rest m a] by simp
  qed
  from this [of "ram (mach st)" "dl_base bd (envst (mach st)) + of_nat k"]
  have mem: "mem_write (ram (mach st1)) (dl_base bd (envst (mach st1)) + of_nat (k + length q)) ?rest =
      mem_write (ram (mach st)) (dl_base bd (envst (mach st)) + of_nat k) (take (n - k) (concat ((q # ps) @ [p])))"
    using st1(3,5) by (simp add: add.assoc)
  have "\<exists>st'. feed bd (ps @ [p]) st1 = Some st' \<and> download_size st' = 0 \<and> unat (download_bytes st') = n
    \<and> out_req (usb st') = Some \<lparr>complete = Rx_handler_command, rlength = of_nat EP_BUFFER_SIZE\<rparr> \<and> dl_ready bd st'
    \<and> sent (usb st') = sent (usb st1) @ [''OKAY'']
    \<and> env_vars (envst (mach st')) ''fastboot_bytes'' = Some (hex (of_nat n))
    \<and> ram (mach st') = mem_write (ram (mach st1)) (dl_base bd (envst (mach st1)) + of_nat (k + length q)) ?rest"
    by (rule Cons.IH [OF st1(2)]) (use Cons.prems in simp_all)
  then show ?case
    using st1(1,4) unfolding mem by simp
qed


lemma demo_ready: "dl_ready demo_board demo_state"
proof -
  have "Finite_Set.card ({''fastboot_buffer'', ''fastboot_bytes''} - dom (env_vars env5)) \<le> 2"
    using card_mono [of "{''fastboot_buffer'', ''fastboot_bytes''}" "{''fastboot_buffer'', ''fastboot_bytes''} - dom (env_vars env5)"]
    by simp
  moreover have "2 \<le> env_room env5" by code_simp
  ultimately show ?thesis
    using plain_usb_ok env5_ok permissive_no_hooks by (simp add: dl_ready_def dl_env_def demo_board_def demo_base_def demo_state_def idle_fb_def EP_BUFFER_SIZE_def)
qed


end
