(* ===== verification/Fb_Command.thy ===== *)
theory Fb_Command
  imports Fb_Getvar Fb_Download
begin

text \<open>
  The commands of the gadget and its event loop (\<^verbatim>\<open>drivers/usb/gadget/f_fastboot.c\<close>): the
  callbacks, the dispatch table, \<open>rx_handler_command\<close>, and the completions of the IN requests.

  A packet comes with the whole request buffer, of which the first \<open>actual\<close> bytes are new. What
  the buffer holds after them is left over from earlier packets and is not tracked, so every
  buffer is possible.
\<close>

section \<open>Callbacks\<close>

text \<open>The completion function of the standing IN request, which must exist.\<close>

definition set_complete :: "complete_fn \<Rightarrow> ('c, 'w) fb_state \<Rightarrow> ('c, 'w) fb_state option" where
  "set_complete fn st =
     (if in_req (usb st) = None then None else Some (st\<lparr>usb := (usb st)\<lparr>in_req := Some fn\<rparr>\<rparr>))"

definition okay_then :: "('c, 'w) board \<Rightarrow> complete_fn \<Rightarrow> ('c, 'w) fb_state \<Rightarrow> ('c, 'w) fb_state option" where
  "okay_then bd fn st = (case set_complete fn st of None \<Rightarrow> None | Some st \<Rightarrow> tx_str bd ''OKAY'' st)"

definition cb_reboot :: "('c, 'w) board \<Rightarrow> char list \<Rightarrow> ('c, 'w) fb_state \<Rightarrow> ('c, 'w) fb_state option" where
  "cb_reboot bd cmd st =
     (if strcmp_l1 ''reboot-bootloader'' cmd = 0 then
        let (err, m) = set_reboot_flag bd (mach st); st = st\<lparr>mach := m\<rparr> in
        if err \<noteq> 0 then tx_str bd ''FAILCannot set reboot flag'' st else okay_then bd Compl_do_reset st
      else okay_then bd Compl_do_reset st)"

definition cb_boot :: "('c, 'w) board \<Rightarrow> ('c, 'w) fb_state \<Rightarrow> ('c, 'w) fb_state option" where
  "cb_boot bd st = okay_then bd Do_bootm_on_complete st"

definition cb_continue :: "('c, 'w) board \<Rightarrow> ('c, 'w) fb_state \<Rightarrow> ('c, 'w) fb_state option" where
  "cb_continue bd st = okay_then bd Do_exit_on_complete st"

definition endswith :: "char list \<Rightarrow> char list \<Rightarrow> bool" where
  "endswith s subs \<longleftrightarrow>
     (let len = strlen s; sublen = strlen subs in
      sublen \<le> len \<and> strncmp (drop (len - sublen) s) subs sublen = 0)"

text \<open>
  \<open>cb_flashing\<close>, without AVB and Trusty. The suffix \<open>lock_critical\<close> is tested first and covers
  \<open>unlock_critical\<close>.
\<close>

definition cb_flashing :: "('c, 'w) board \<Rightarrow> char list \<Rightarrow> ('c, 'w) fb_state \<Rightarrow> ('c, 'w) fb_state option" where
  "cb_flashing bd cmd st =
     (if endswith cmd ''lock_critical'' then tx_more bd ''OKAY'' st
      else if cfg_things bd \<and> endswith cmd ''fuse at-bootloader-vboot-key'' then tx_more bd ''OKAY'' st
      else if endswith cmd ''unlock_critical'' then tx_more bd ''OKAY'' st
      else if endswith cmd ''unlock'' then
        (case do_fastboot_unlock bd False st of
           None \<Rightarrow> None
         | Some (status, st) \<Rightarrow>
             tx_more bd (if status \<noteq> FASTBOOT_LOCK_ERROR then ''OKAY'' else ''FAILunlock device failed.'') st)
      else if endswith cmd ''lock'' then
        (case do_fastboot_lock bd st of
           None \<Rightarrow> None
         | Some (status, st) \<Rightarrow>
             tx_more bd (if status \<noteq> FASTBOOT_LOCK_ERROR then ''OKAY'' else ''FAILlock device failed.'') st)
      else if endswith cmd ''get_unlock_ability'' then
        (case fastboot_lock_enable bd st of
           None \<Rightarrow> None
         | Some (FASTBOOT_UL_ENABLE, st) \<Rightarrow> put_all (tx_more bd) [''INFO1'', ''OKAY''] st
         | Some (FASTBOOT_UL_DISABLE, st) \<Rightarrow> put_all (tx_more bd) [''INFO0'', ''OKAY''] st
         | Some (FASTBOOT_UL_ERROR, st) \<Rightarrow> tx_more bd ''FAILget unlock ability failed.'' st)
      else tx_more bd ''FAILcommand not defined'' st)"

definition partition_table_valid :: "('c, 'w) board \<Rightarrow> ('c, 'w) fb_state \<Rightarrow> bool" where
  "partition_table_valid bd st \<longleftrightarrow>
     blk_get_dev bd (ucast (dev_id (fastboot_devinfo st))) (mach st) \<and> part_get_info bd 1 (mach st) \<noteq> None"

text \<open>Sending the response buffer, which must have been written.\<close>

definition tx_response :: "('c, 'w) board \<Rightarrow> ('c, 'w) fb_state \<Rightarrow> ('c, 'w) fb_state option" where
  "tx_response bd st = (case response st of None \<Rightarrow> None | Some r \<Rightarrow> tx_str bd r st)"

text \<open>
  The guard of \<open>cb_flash\<close> and \<open>cb_erase\<close>: on a locked device they answer, and an unreadable lock
  state is replaced by locked. \<open>Inl\<close> is the early return.
\<close>

definition lock_guard ::
  "('c, 'w) board \<Rightarrow> ('c, 'w) fb_state \<Rightarrow> (('c, 'w) fb_state + ('c, 'w) fb_state) option" where
  "lock_guard bd st =
     (if \<not> cfg_lock bd then Some (Inr st)
      else
        case fastboot_get_lock_stat bd st of
          None \<Rightarrow> None
        | Some (FASTBOOT_UNLOCK, st) \<Rightarrow> Some (Inr st)
        | Some (FASTBOOT_LOCK, st) \<Rightarrow> map_option Inl (tx_str bd ''FAILdevice is locked.'' st)
        | Some (FASTBOOT_LOCK_ERROR, st) \<Rightarrow>
            (case fastboot_set_lock_stat bd FASTBOOT_LOCK st of
               None \<Rightarrow> None
             | Some (_, st) \<Rightarrow> map_option Inl (tx_str bd ''FAILdevice is locked.'' st)))"

text \<open>After a partition table has been flashed it is loaded and the device unlocked.\<close>

definition after_gpt :: "('c, 'w) board \<Rightarrow> char list \<Rightarrow> ('c, 'w) fb_state \<Rightarrow> ('c, 'w) fb_state option" where
  "after_gpt bd cmd st =
     (if cfg_lock bd \<and> strncmp cmd ''gpt'' 3 = 0 \<and> partition_table_valid bd st then
        map_option snd (do_fastboot_unlock bd True (load_partitions_st bd st))
      else Some st)"

definition cb_flash :: "('c, 'w) board \<Rightarrow> char list \<Rightarrow> ('c, 'w) fb_state \<Rightarrow> ('c, 'w) fb_state option" where
  "cb_flash bd cmd st =
     (case snd (strsep (Some cmd) '':'') of
        None \<Rightarrow> tx_str bd ''FAILmissing partition name'' st
      | Some cmd \<Rightarrow>
          (case lock_guard bd (st\<lparr>response := None\<rparr>) of
             None \<Rightarrow> None
           | Some (Inl st) \<Rightarrow> Some st
           | Some (Inr st) \<Rightarrow>
               (case rx_process_flash bd cmd (fastboot_fail ''no flash device defined'' st) of
                  None \<Rightarrow> None
                | Some st \<Rightarrow>
                    (case after_gpt bd cmd st of
                       None \<Rightarrow> None
                     | Some st \<Rightarrow> tx_response bd st))))"

definition cb_erase :: "('c, 'w) board \<Rightarrow> char list \<Rightarrow> ('c, 'w) fb_state \<Rightarrow> ('c, 'w) fb_state option" where
  "cb_erase bd cmd st =
     (case snd (strsep (Some cmd) '':'') of
        None \<Rightarrow> tx_str bd ''FAILmissing partition name'' st
      | Some cmd \<Rightarrow>
          (case lock_guard bd (st\<lparr>response := None\<rparr>) of
             None \<Rightarrow> None
           | Some (Inl st) \<Rightarrow> Some st
           | Some (Inr st) \<Rightarrow>
               (case rx_process_erase bd cmd st of
                  None \<Rightarrow> None
                | Some st \<Rightarrow> tx_response bd st)))"

definition cb_run_uboot_cmd :: "('c, 'w) board \<Rightarrow> char list \<Rightarrow> ('c, 'w) fb_state \<Rightarrow> ('c, 'w) fb_state option" where
  "cb_run_uboot_cmd bd cmd st =
     (case snd (strsep (Some cmd) '':'') of
        None \<Rightarrow> tx_str bd ''FAILmissing command'' st
      | Some cmd \<Rightarrow>
          (case run_cmd bd cmd st of
             None \<Rightarrow> None
           | Some (ret, st) \<Rightarrow>
               if ret \<noteq> 0 then tx_str bd ''FAIL'' st
               else map_option (fastboot_setup bd) (tx_str bd ''OKAY'' st)))"

text \<open>\<open>g_a_cmd_buff\<close> has 64 bytes; a longer command overruns it.\<close>

definition A_CMD_SIZE :: nat where "A_CMD_SIZE = 64"

definition cb_run_uboot_acmd :: "('c, 'w) board \<Rightarrow> char list \<Rightarrow> ('c, 'w) fb_state \<Rightarrow> ('c, 'w) fb_state option" where
  "cb_run_uboot_acmd bd cmd st =
     (case snd (strsep (Some cmd) '':'') of
        None \<Rightarrow> tx_str bd ''FAILmissing command'' st
      | Some cmd \<Rightarrow>
          if A_CMD_SIZE \<le> strlen cmd then None
          else okay_then bd Do_acmd_complete (st\<lparr>g_a_cmd_buff := cstr cmd\<rparr>))"

definition do_acmd_complete :: "('c, 'w) board \<Rightarrow> int \<Rightarrow> ('c, 'w) fb_state \<Rightarrow> ('c, 'w) fb_state option" where
  "do_acmd_complete bd status st =
     (if status = 0 then map_option snd (run_cmd bd (g_a_cmd_buff st) st) else Some st)"

definition cb_reboot_bootloader :: "('c, 'w) board \<Rightarrow> ('c, 'w) fb_state \<Rightarrow> ('c, 'w) fb_state option" where
  "cb_reboot_bootloader bd st =
     okay_then bd Compl_do_reset (st\<lparr>mach := enable_fastboot_command bd (mach st)\<rparr>)"

section \<open>Dispatch\<close>

datatype fb_cb =
    Cb_reboot_bootloader | Cb_reboot | Cb_getvar | Cb_upload | Cb_download | Cb_boot | Cb_continue
  | Cb_flashing | Cb_flash | Cb_erase | Cb_run_uboot_cmd | Cb_run_uboot_acmd

definition cmd_dispatch_info :: "('c, 'w) board \<Rightarrow> (char list \<times> fb_cb) list" where
  "cmd_dispatch_info bd =
     [(''reboot-bootloader'', Cb_reboot_bootloader), (''reboot'', Cb_reboot), (''getvar:'', Cb_getvar),
      (''upload'', Cb_upload), (''get_staged'', Cb_upload), (''download:'', Cb_download), (''boot'', Cb_boot),
      (''continue'', Cb_continue)]
     @ (if cfg_lock bd then [(''flashing'', Cb_flashing)] else [])
     @ [(''flash'', Cb_flash), (''erase'', Cb_erase)]
     @ (if cfg_lock bd then [(''oem'', Cb_flashing)] else [])
     @ [(''UCmd:'', Cb_run_uboot_cmd), (''ACmd:'', Cb_run_uboot_acmd)]"

definition find_cb :: "('c, 'w) board \<Rightarrow> char list \<Rightarrow> fb_cb option" where
  "find_cb bd buf = map_option snd (find (\<lambda>(c, _). strcmp_l1 c buf = 0) (cmd_dispatch_info bd))"

fun func_cb :: "('c, 'w) board \<Rightarrow> fb_cb \<Rightarrow> char list \<Rightarrow> ('c, 'w) fb_state \<Rightarrow> ('c, 'w) fb_state option" where
  "func_cb bd Cb_reboot_bootloader cmd st = cb_reboot_bootloader bd st"
| "func_cb bd Cb_reboot cmd st = cb_reboot bd cmd st"
| "func_cb bd Cb_getvar cmd st = cb_getvar bd cmd st"
| "func_cb bd Cb_upload cmd st = cb_upload bd st"
| "func_cb bd Cb_download cmd st = cb_download bd cmd st"
| "func_cb bd Cb_boot cmd st = cb_boot bd st"
| "func_cb bd Cb_continue cmd st = cb_continue bd st"
| "func_cb bd Cb_flashing cmd st = cb_flashing bd cmd st"
| "func_cb bd Cb_flash cmd st = cb_flash bd cmd st"
| "func_cb bd Cb_erase cmd st = cb_erase bd cmd st"
| "func_cb bd Cb_run_uboot_cmd cmd st = cb_run_uboot_cmd bd cmd st"
| "func_cb bd Cb_run_uboot_acmd cmd st = cb_run_uboot_acmd bd cmd st"

text \<open>
  A command packet. The table is searched before the text is terminated at \<open>actual\<close>.
\<close>

definition rx_handler_command ::
  "('c, 'w) board \<Rightarrow> int \<Rightarrow> nat \<Rightarrow> char list \<Rightarrow> ('c, 'w) fb_state \<Rightarrow> ('c, 'w) fb_state option" where
  "rx_handler_command bd status actual buf st =
     (case out_req (usb st) of
        None \<Rightarrow> None
      | Some req \<Rightarrow>
          let st = st\<lparr>usb := (usb st)\<lparr>front := None, rear := None\<rparr>\<rparr> in
          if status \<noteq> 0 \<or> rlength req = 0 then Some st
          else
            case find_cb bd buf of
              None \<Rightarrow> tx_str bd ''FAILunknown command'' st
            | Some cb \<Rightarrow>
                if actual < unat (rlength req) then func_cb bd cb (buf[actual := NUL]) st
                else tx_str bd ''FAILbuffer overflow'' st)"

section \<open>Events\<close>

text \<open>
  A packet arrived for the handler that waits for it, the standing IN request was sent, or the
  first request of the list was. After a reset, a boot or a detach nothing follows.
\<close>

datatype event =
    Ev_command int nat "char list"
  | Ev_data int "u8 list"
  | Ev_sent int
  | Ev_fifo int

definition gadget_event :: "('c, 'w) board \<Rightarrow> event \<Rightarrow> ('c, 'w) fb_state \<Rightarrow> ('c, 'w) fb_state option" where
  "gadget_event bd ev st =
     (case ev of
        Ev_command status actual buf \<Rightarrow>
          if map_option complete (out_req (usb st)) = Some Rx_handler_command
          then rx_handler_command bd status actual buf st else None
      | Ev_data status pkt \<Rightarrow>
          if map_option complete (out_req (usb st)) = Some Rx_handler_dl_image
          then map_option fst (rx_handler_dl_image bd status pkt st) else None
      | Ev_sent status \<Rightarrow>
          (case in_req (usb st) of
             Some Fastboot_complete \<Rightarrow> Some st
           | Some Do_acmd_complete \<Rightarrow> do_acmd_complete bd status st
           | _ \<Rightarrow> None)
      | Ev_fifo status \<Rightarrow> map_option (\<lambda>u. st\<lparr>usb := u\<rparr>) (fastboot_fifo_complete status (usb st)))"

inductive gadget_run :: "('c, 'w) board \<Rightarrow> event list \<Rightarrow> ('c, 'w) fb_state \<Rightarrow> ('c, 'w) fb_state \<Rightarrow> bool" for bd where
  run_nil: "gadget_run bd [] st st"
| run_step: "gadget_event bd ev st = Some st1 \<Longrightarrow> gadget_run bd evs st1 st2 \<Longrightarrow> gadget_run bd (ev # evs) st st2"

inductive_cases gadget_run_nilE: "gadget_run bd [] st st'"
inductive_cases gadget_run_consE: "gadget_run bd (ev # evs) st st'"

text \<open>
  The contract of an invariant: admissible events keep it. Then runs of admissible events do.
\<close>

locale gadget_invariant =
  fixes bd :: "('c, 'w) board"
    and adm :: "event \<Rightarrow> bool"
    and inv :: "('c, 'w) fb_state \<Rightarrow> bool"
  assumes event_inv: "inv st \<Longrightarrow> adm ev \<Longrightarrow> gadget_event bd ev st = Some st' \<Longrightarrow> inv st'"
begin

lemma run_inv: "gadget_run bd evs st st' \<Longrightarrow> list_all adm evs \<Longrightarrow> inv st \<Longrightarrow> inv st'"
  by (induction rule: gadget_run.induct) (auto intro: event_inv)

end

section \<open>A locked device keeps its flash\<close>

lemma okay_then_calm: "fn \<noteq> Do_acmd_complete \<Longrightarrow> okay_then bd fn st = Some st' \<Longrightarrow> calm st st'"
  by (auto simp: okay_then_def set_complete_def calm_def dest!: tx_calm(1) split: if_splits)

text \<open>Terminating the text at \<open>actual\<close> makes no longer word match.\<close>

lemma cstr_terminated: "cstr (buf[i := NUL]) = take i (cstr buf)"
  by (induction buf arbitrary: i) (auto split: nat.splits)

lemma strcmp_l1_terminated: "strcmp_l1 s (buf[i := NUL]) = 0 \<Longrightarrow> strcmp_l1 s buf = 0"
  unfolding strcmp_l1_def strncmp_prefix cstr_terminated
  using take_is_prefix prefix_order.trans by blast

lemma cb_reboot_calm:
  assumes "strcmp_l1 ''reboot-bootloader'' cmd \<noteq> 0" "cb_reboot bd cmd st = Some st'"
  shows "calm st st'"
  using assms okay_then_calm by (auto simp: cb_reboot_def)

lemma calm_fields:
  "calm st (st\<lparr>download_size := n\<rparr>)" "calm st (st\<lparr>download_bytes := n\<rparr>)" "calm st (st\<lparr>response := r\<rparr>)"
  "calm st (set_out fn k st)" "calm st (st\<lparr>mach := (mach st)\<lparr>envst := e\<rparr>\<rparr>)" "calm st (st\<lparr>mach := (mach st)\<lparr>ram := m\<rparr>\<rparr>)"
  by (simp_all add: calm_def set_out_def)

lemma cb_upload_calm:
  assumes "cb_upload bd st = Some st'"
  shows "calm st st'"
proof (cases "download_bytes st = 0 \<or> unat (download_bytes st) > EP_BUFFER_SIZE * 32")
  case True
  then show ?thesis using assms tx_calm(1) by (auto simp: cb_upload_def)
next
  case False
  then obtain r st1 w u where st1: "tx_more bd r st = Some st1"
    and u: "fastboot_tx_write (usbenv bd) w (usb st1) = Some u" "tx_more bd ''OKAY'' (st1\<lparr>usb := snd u\<rparr>) = Some st'"
    using assms by (simp add: cb_upload_def sprintf_data split: option.splits prod.splits)
  have "calm st1 (st1\<lparr>usb := snd u\<rparr>)"
    using u(1) by (auto simp: fastboot_tx_write_def intro!: calm_usb split: if_splits)
  then show ?thesis using tx_calm(2) [OF st1] tx_calm(2) [OF u(2)] calm_trans by blast
qed

lemma cb_download_calm:
  assumes "cb_download bd cmd st = Some st'"
  shows "calm st st'"
proof -
  obtain r st1 where "tx_str bd r st1 = Some st'" "dev_of st1 = dev_of st" "ptab st1 = ptab st" "in_req (usb st1) = in_req (usb st)"
    using assms by (auto simp: cb_download_def Let_def set_out_def split: option.splits if_splits)
  then show ?thesis using tx_calm(1) [of bd r st1 st'] by (auto simp: calm_def)
qed

lemma set_env_hex_calm: "set_env_hex bd k v st = Some st' \<Longrightarrow> calm st st'"
  by (auto simp: set_env_hex_def calm_def)

lemma dl_image_calm:
  assumes "rx_handler_dl_image bd status pkt st = Some (st', q)"
  shows "calm st st'"
proof -
  obtain st1 where st1: "set_env_hex bd ''fastboot_buffer'' (dl_base bd (envst (mach st))) st = Some st1"
    using assms by (auto simp: rx_handler_dl_image_def Let_def split: option.splits)
  define ts where "ts = (if of_nat (length pkt) < download_size st - download_bytes st then of_nat (length pkt)
    else download_size st - download_bytes st)"
  define st2 where "st2 = st1\<lparr>mach := (mach st1)\<lparr>ram := mem_write (ram (mach st1))
      (dl_base bd (envst (mach st)) + download_bytes st1) (take (unat ts) pkt)\<rparr>, download_bytes := download_bytes st1 + ts\<rparr>"
  note res = assms [unfolded rx_handler_dl_image_def Let_def st1 option.case, folded ts_def, folded st2_def]
  have c1: "calm st st1" by (rule set_env_hex_calm [OF st1])
  have c2: "calm st st2" using c1 by (simp add: calm_def st2_def)
  show ?thesis
  proof (cases "status = 0")
    case True
    show ?thesis
    proof (cases "download_size st2 \<le> download_bytes st2")
      case True
      let ?st3 = "set_out Rx_handler_command (of_nat EP_BUFFER_SIZE) (st2\<lparr>download_size := 0\<rparr>)"
      obtain st4 where st4: "tx_str bd ''OKAY'' ?st3 = Some st4" "set_env_hex bd ''fastboot_bytes'' (download_bytes st4) st4 = Some st'"
        using res True \<open>status = 0\<close> by (auto split: option.splits)
      have "calm st ?st3" using c2 by (simp add: calm_def set_out_def)
      then show ?thesis using tx_calm(1) [OF st4(1)] set_env_hex_calm [OF st4(2)] calm_trans by blast
    next
      case False
      then show ?thesis using res \<open>status = 0\<close> c2 by (auto simp: calm_def set_out_def split: option.splits)
    qed
  qed (use res c1 in auto)
qed

lemma lock_guard_locked:
  assumes "locked bd st" "lock_guard bd st = Some x"
  shows "\<exists>st' st1. x = Inl st' \<and> calm st st1 \<and> tx_str bd ''FAILdevice is locked.'' st1 = Some st'"
proof -
  obtain d where d: "fastboot_get_lock_stat bd st = Some (FASTBOOT_LOCK, set_mmc d st)" "quiet_step (dev_of st) d"
    using locked_get [OF assms(1)] by blast
  have "cfg_lock bd" using assms(1) by (simp add: locked_def)
  then show ?thesis using assms(2) d calm_set_mmc [OF d(2)] by (auto simp: lock_guard_def)
qed

lemma cb_flashing_calm:
  assumes bd: "lookups_by_flash bd" and lk: "locked bd st" and res: "cb_flashing bd cmd st = Some st'"
  shows "calm st st'"
proof -
  obtain s1 s2 en d where s: "do_fastboot_unlock bd False st = Some (FASTBOOT_LOCK_ERROR, s1)" "calm st s1"
    "do_fastboot_lock bd st = Some (FASTBOOT_LOCK, s2)" "calm st s2"
    "fastboot_lock_enable bd st = Some (en, set_mmc d st)" "calm st (set_mmc d st)"
    using locked_unlock [OF lk] locked_lock [OF lk] locked_enable [OF lk] calm_set_mmc by blast
  have "\<exists>s r. calm st s \<and> (tx_more bd r s = Some st' \<or> (\<exists>s3. tx_more bd r s = Some s3 \<and> tx_more bd ''OKAY'' s3 = Some st'))"
    using res s unfolding cb_flashing_def
    by (auto split: if_splits option.splits lock_enable.splits intro: calm_refl)
  then show ?thesis using tx_calm(2) calm_trans by blast
qed

lemma guarded_calm:
  assumes "locked bd st" "cb_flash bd cmd st = Some st' \<or> cb_erase bd cmd st = Some st'"
  shows "calm st st'"
proof (cases "snd (strsep (Some cmd) '':'')")
  case None
  then show ?thesis using assms(2) tx_calm(1) by (auto simp: cb_flash_def cb_erase_def)
next
  case (Some v)
  have "fb_part bd n (st\<lparr>response := None\<rparr>) = fb_part bd n st" for n
    by (simp add: fb_part_def Let_def cong: option.case_cong)
  then have lk: "locked bd (st\<lparr>response := None\<rparr>)" using assms(1) by (simp add: locked_def)
  from assms(2) Some obtain x where x: "lock_guard bd (st\<lparr>response := None\<rparr>) = Some x"
    by (auto simp: cb_flash_def cb_erase_def split: option.splits)
  from lock_guard_locked [OF lk x] obtain st1 st2 where x2: "x = Inl st2"
    "calm (st\<lparr>response := None\<rparr>) st1" "tx_str bd ''FAILdevice is locked.'' st1 = Some st2" by blast
  then have "st' = st2" using assms(2) Some x by (auto simp: cb_flash_def cb_erase_def)
  moreover have "calm st st1" using x2(2) by (simp add: calm_def)
  ultimately show ?thesis using tx_calm(1) [OF x2(3)] calm_trans by blast
qed

text \<open>
  Events that run no command of the interpreter and do not mark the boot loader: everything but the
  commands \<open>UCmd:\<close>, \<open>ACmd:\<close> and \<open>reboot-bootloader\<close>.
\<close>

definition harmless :: "('c, 'w) board \<Rightarrow> event \<Rightarrow> bool" where
  "harmless bd ev \<longleftrightarrow>
     (case ev of
        Ev_command _ _ buf \<Rightarrow> find_cb bd buf \<notin> {Some Cb_run_uboot_cmd, Some Cb_run_uboot_acmd, Some Cb_reboot_bootloader}
      | _ \<Rightarrow> True)"

lemma find_cb_reboot: "find_cb bd buf \<noteq> Some Cb_reboot_bootloader \<Longrightarrow> strcmp_l1 ''reboot-bootloader'' buf \<noteq> 0"
  by (auto simp: find_cb_def cmd_dispatch_info_def)

lemma func_cb_calm:
  assumes "lookups_by_flash bd" "locked bd st" "func_cb bd cb cmd st = Some st'" "strcmp_l1 ''reboot-bootloader'' cmd \<noteq> 0"
    "cb \<notin> {Cb_run_uboot_cmd, Cb_run_uboot_acmd, Cb_reboot_bootloader}"
  shows "calm st st'"
proof -
  have "calm st st'" if "cb_boot bd st = Some st' \<or> cb_continue bd st = Some st'"
    using that okay_then_calm [of Do_bootm_on_complete bd st st'] okay_then_calm [of Do_exit_on_complete bd st st']
    by (auto simp: cb_boot_def cb_continue_def)
  moreover have "calm st st'" if "cb_flash bd cmd st = Some st' \<or> cb_erase bd cmd st = Some st'"
    using that by (rule guarded_calm [OF assms(2)])
  ultimately show ?thesis
    using assms(3,5) cb_reboot_calm [OF assms(4), of bd st st'] cb_getvar_calm [OF assms(1,2), of cmd st']
      cb_upload_calm [of bd st st'] cb_download_calm [of bd cmd st st'] cb_flashing_calm [OF assms(1,2), of cmd st']
    by (cases cb) simp_all
qed

lemma rx_handler_command_calm:
  assumes "lookups_by_flash bd" "locked bd st" "rx_handler_command bd status actual buf st = Some st'"
    "harmless bd (Ev_command status actual buf)"
  shows "calm st st'"
proof -
  let ?st0 = "st\<lparr>usb := (usb st)\<lparr>front := None, rear := None\<rparr>\<rparr>"
  have c0: "calm st ?st0" by (rule calm_usb) simp
  note lk = locked_calm [OF assms(1,2) c0]
  obtain req where req: "out_req (usb st) = Some req"
    using assms(3) by (auto simp: rx_handler_command_def split: option.splits)
  show ?thesis
  proof (cases "status \<noteq> 0 \<or> rlength req = 0")
    case True
    then show ?thesis using assms(3) req c0 by (auto simp: rx_handler_command_def)
  next
    case False
    show ?thesis
    proof (cases "find_cb bd buf")
      case None
      then show ?thesis
        using assms(3) req False tx_calm(1) [of bd _ ?st0 st'] calm_trans [OF c0, of st'] by (auto simp: rx_handler_command_def)
    next
      case (Some cb)
      have "strcmp_l1 ''reboot-bootloader'' (buf[actual := NUL]) \<noteq> 0"
        using find_cb_reboot strcmp_l1_terminated assms(4) by (fastforce simp: harmless_def)
      then have "func_cb bd cb (buf[actual := NUL]) ?st0 = Some st' \<Longrightarrow> calm ?st0 st'"
        using func_cb_calm [OF assms(1) lk] assms(4) Some by (auto simp: harmless_def)
      then show ?thesis
        using assms(3) req False Some tx_calm(1) [of bd _ ?st0 st'] calm_trans [OF c0, of st']
        by (auto simp: rx_handler_command_def Let_def split: if_splits)
    qed
  qed
qed

lemma gadget_event_calm:
  assumes "lookups_by_flash bd" "locked bd st" "gadget_event bd ev st = Some st'" "harmless bd ev"
  shows "calm st st'"
proof (cases ev)
  case (Ev_command status actual buf)
  then show ?thesis
    using assms rx_handler_command_calm [OF assms(1,2)] by (auto simp: gadget_event_def split: if_splits)
next
  case (Ev_data status pkt)
  then show ?thesis using assms(3) dl_image_calm by (auto simp: gadget_event_def split: if_splits)
next
  case (Ev_sent status)
  moreover have "in_req (usb st) \<noteq> Some Do_acmd_complete" using assms(2) by (simp add: locked_def)
  ultimately show ?thesis using assms(3) by (auto simp: gadget_event_def split: option.splits complete_fn.splits)
next
  case (Ev_fifo status)
  then obtain u where u: "fastboot_fifo_complete status (usb st) = Some u" "st' = st\<lparr>usb := u\<rparr>"
    using assms(3) by (auto simp: gadget_event_def)
  have "in_req u = in_req (usb st)"
    using u(1) by (auto simp: fastboot_fifo_complete_def split: if_splits option.splits)
  then show ?thesis using u(2) by (auto intro!: calm_usb)
qed

text \<open>Locked, with the blocks of the card as they were at the start.\<close>

definition locked_since :: "('c, 'w) board \<Rightarrow> ('c, 'w) fb_state \<Rightarrow> ('c, 'w) fb_state \<Rightarrow> bool" where
  "locked_since bd st0 st \<longleftrightarrow> lookups_by_flash bd \<and> locked bd st \<and> calm st0 st"

interpretation lockinv: gadget_invariant bd "harmless bd" "locked_since bd st0" for bd st0
proof (unfold_locales, goal_cases)
  case (1 st ev st')
  then have l: "lookups_by_flash bd" "locked bd st" "calm st0 st" by (simp_all add: locked_since_def)
  have "calm st st'" by (rule gadget_event_calm [OF l(1,2) 1(3,2)])
  with l show ?case using locked_calm calm_trans unfolding locked_since_def by blast
qed

text \<open>
  C2: A locked device keeps its flash. Starting from a device that is locked and does not permit
  unlocking, no sequence of packets and completions, as long as none of them is one of the commands
  \<open>UCmd:\<close>, \<open>ACmd:\<close> and \<open>reboot-bootloader\<close>, changes a single block of the card, and the device is
  locked in the end as well.
\<close>

theorem locked_keeps_flash:
  assumes "lookups_by_flash bd" "locked bd st" "gadget_run bd evs st st'" "list_all (harmless bd) evs"
  shows "cells (card (dev_of st')) = cells (card (dev_of st)) \<and> locked bd st'"
proof -
  have "locked_since bd st st'"
    by (rule lockinv.run_inv [OF assms(3,4)]) (simp add: locked_since_def assms(1,2))
  then show ?thesis using quiet_step_cells(1) by (auto simp: locked_since_def calm_def)
qed

definition locked_card :: "unit mmc" where
  "locked_card = card512\<lparr>card := (card card512)\<lparr>cells := (\<lambda>p b.
     if b = 5 then map byte_of_char ''locked'' @ replicate 506 0 else replicate 512 0)\<rparr>\<rparr>"

definition locked_demo :: "(unit, unit) fb_state" where
  "locked_demo = set_mmc locked_card lock_demo"

lemma locked_card_ok: "sector_card locked_card" "lba locked_card = 8" "mmc_cells locked_card 5 = map byte_of_char ''locked'' @ replicate 506 0"
  "mmc_cells locked_card 6 = replicate 512 0"
proof -
  have "card_step card512 locked_card"
    by (auto simp: card_step_def locked_card_def card512_def ram_mmc_def)
  then show "sector_card locked_card" using sector_card_step lock_demo_card(2) by blast
qed (simp_all add: locked_card_def card512_def ram_mmc_def mmc_cells_def)

lemma locked_card_reads: "reads_well locked_card"
proof -
  have send: "\<exists>rd c'. mmc_send_cmd cmd x (locked_card\<lparr>card := c\<rparr>) = (0, 0x900, rd, locked_card\<lparr>card := c'\<rparr>)" for cmd x c
    by (simp add: mmc_send_cmd_def locked_card_def card512_def ram_mmc_def ram_send_def)
  have "\<exists>bs d. mmc_bread blk 1 (locked_card\<lparr>card := c\<rparr>) = Some (1, bs, d)" if "unat blk < 8" for blk c
  proof -
    have geo: "b_max (locked_card\<lparr>card := c\<rparr>) = 3" "ddr_mode (locked_card\<lparr>card := c\<rparr>) = False" "lba (locked_card\<lparr>card := c\<rparr>) = 8"
      "high_capacity (locked_card\<lparr>card := c\<rparr>)" for c
      by (simp_all add: locked_card_def card512_def ram_mmc_def)
    have "unat (blk + 1) = unat blk + 1" using that by (subst u32_plus) simp_all
    then have rng: "\<not> blk + 1 > 8" using that by (simp add: word_less_nat_alt)
    obtain c1 where c1: "mmc_set_blocklen (read_bl_len locked_card) (locked_card\<lparr>card := c\<rparr>) = (0, locked_card\<lparr>card := c1\<rparr>)"
      using send [of "\<lparr>cmdidx = MMC_CMD_SET_BLOCKLEN, resp_type = MMC_RSP_R1, cmdarg = read_bl_len locked_card\<rparr>" No_data c]
      by (auto simp: mmc_set_blocklen_def geo eval_nat_numeral)
    obtain bs c2 where c2: "mmc_read_blocks blk 1 (locked_card\<lparr>card := c1\<rparr>) = (1, bs, locked_card\<lparr>card := c2\<rparr>)"
      using send [of "\<lparr>cmdidx = MMC_CMD_READ_SINGLE_BLOCK, resp_type = MMC_RSP_R1, cmdarg = blk\<rparr>"
          "Data_read 1 (read_bl_len (locked_card\<lparr>card := c1\<rparr>))" c1] geo(4)
      by (auto simp: mmc_read_blocks_def Let_def)
    have "read_loop blk 1 [] (locked_card\<lparr>card := c1\<rparr>) = Some (True, bs, locked_card\<lparr>card := c2\<rparr>)"
      by (subst read_loop.simps) (simp add: geo c2)
    then show ?thesis by (simp add: mmc_bread_def geo rng c1)
  qed
  then show ?thesis
    by (auto simp: reads_well_def quiet_step_def locked_card_ok)
qed

lemma locked_demo_locked: "locked lock_board locked_demo" "lookups_by_flash lock_board"
proof -
  have p: "ptab locked_demo = ptab lock_demo" "dev_of locked_demo = locked_card" by (simp_all add: locked_demo_def)
  have dec: "decrypt_lock_store (map byte_of_char ''locked'' @ replicate 506 0) = FASTBOOT_LOCK"
    by (rule decrypt_lock_store_text)
  have par: "lock_enable_parse (replicate 512 0) = FASTBOOT_UL_DISABLE"
    by (simp add: lock_enable_parse_def SECTOR_SIZE_def)
  have "memalign lock_board x \<noteq> None" "cfg_lock lock_board" "\<not> cfg_lockstatus lock_board" for x
    by (simp_all add: lock_board_def demo_base_def)
  moreover have "in_req (usb locked_demo) \<noteq> Some Do_acmd_complete"
    by (simp add: locked_demo_def lock_demo_def demo_state_def idle_fb_def)
  ultimately show "locked lock_board locked_demo"
    unfolding locked_def using lock_parts [OF p(1)] locked_card_ok locked_card_reads dec par by (simp add: p(2))
  show "lookups_by_flash lock_board" by (simp add: lookups_by_flash_def lock_board_def demo_base_def)
qed

theorem locked_keeps_flash_witness:
  "\<exists>st'. gadget_run lock_board [Ev_command 0 10 (''flash:boot'' @ [NUL])] locked_demo st'
    \<and> sent (usb st') = [''FAILdevice is locked.''] \<and> cells (card (dev_of st')) 0 3 = replicate 512 0 \<and> locked lock_board st'"
proof -
  let ?buf = "''flash:boot'' @ [NUL]"
  have cb: "find_cb lock_board ?buf = Some Cb_flash" "snd (strsep (Some (?buf[10 := NUL])) '':'') = Some (''boot'' @ [NUL])"
    by code_simp+
  let ?st0 = "(locked_demo\<lparr>usb := (usb locked_demo)\<lparr>front := None, rear := None\<rparr>\<rparr>)\<lparr>response := None\<rparr>"
  have "calm locked_demo ?st0" by (simp add: calm_def)
  from locked_get [OF locked_calm [OF locked_demo_locked(2,1) this]]
  obtain d where d: "fastboot_get_lock_stat lock_board ?st0 = Some (FASTBOOT_LOCK, set_mmc d ?st0)" by blast
  have u: "usb locked_demo = idle_fb" "cfg_lock lock_board" by (simp_all add: locked_demo_def lock_demo_def demo_state_def lock_board_def)
  have "tx_ready lock_board (set_mmc d ?st0)"
    using plain_usb_ok by (simp add: tx_ready_def u idle_fb_def) (simp add: lock_board_def demo_base_def)
  from tx_str_sends [OF this, of "''FAILdevice is locked.''"]
  obtain st' where st': "tx_str lock_board ''FAILdevice is locked.'' (set_mmc d ?st0) = Some st'" "sent (usb st') = [''FAILdevice is locked.'']"
    by (simp add: EP_BUFFER_SIZE_def u idle_fb_def)
  have "cb_flash lock_board (?buf[10 := NUL]) (locked_demo\<lparr>usb := (usb locked_demo)\<lparr>front := None, rear := None\<rparr>\<rparr>) = Some st'"
    unfolding cb_flash_def cb(2) option.case lock_guard_def using u(2) d st'(1) by simp
  then have "gadget_event lock_board (Ev_command 0 10 ?buf) locked_demo = Some st'"
    using cb(1) by (simp add: gadget_event_def rx_handler_command_def u idle_fb_def EP_BUFFER_SIZE_def)
  then have run: "gadget_run lock_board [Ev_command 0 10 ?buf] locked_demo st'"
    by (rule run_step) (rule run_nil)
  have "cells (card (dev_of st')) = cells (card (dev_of locked_demo)) \<and> locked lock_board st'"
    by (rule locked_keeps_flash [OF locked_demo_locked(2,1) run]) (use cb(1) in \<open>simp add: harmless_def\<close>)
  then show ?thesis
    using run st'(2) by (intro exI [of _ st']) (simp add: locked_demo_def locked_card_def)
qed

section \<open>Commands that are refused\<close>

lemma missing_argument: "CHR '':'' \<notin> set (cstr cmd) \<Longrightarrow> snd (strsep (Some cmd) '':'') = None"
  by (simp add: strsep_def strpbrk_None_iff)

text \<open>What is wrong with a command, and the text of the answer.\<close>

definition refused :: "('c, 'w) board \<Rightarrow> nat \<Rightarrow> nat \<Rightarrow> char list \<Rightarrow> char list option" where
  "refused bd limit actual buf =
     (case find_cb bd buf of
        None \<Rightarrow> Some ''unknown command''
      | Some cb \<Rightarrow>
          if limit \<le> actual then Some ''buffer overflow''
          else if CHR '':'' \<in> set (cstr (buf[actual := NUL])) then None
          else if cb \<in> {Cb_flash, Cb_erase} then Some ''missing partition name''
          else if cb \<in> {Cb_run_uboot_cmd, Cb_run_uboot_acmd} then Some ''missing command''
          else if cb = Cb_getvar then Some ''missing var''
          else None)"



section \<open>Where the commands fall short\<close>

text \<open>The table is searched past the end of the packet: one letter selects a command left in the buffer.\<close>

lemma dispatch_stale:
  "find_cb bd (''reboot'' @ [NUL]) = Some Cb_reboot" "cstr ((''reboot'' @ [NUL])[1 := NUL]) = ''r''"
  by (simp_all add: find_cb_def cmd_dispatch_info_def strcmp_l1_def)

text \<open>The completion of \<open>ACmd:\<close> stays in place, so the command runs again after every later answer.\<close>

lemma acmd_stays: "do_acmd_complete bd status st = Some st' \<Longrightarrow> in_req (usb st') = in_req (usb st) \<and> g_a_cmd_buff st' = g_a_cmd_buff st"
  by (auto simp: do_acmd_complete_def run_cmd_def split: if_splits)

text \<open>\<open>endswith\<close> is the suffix relation, so \<open>unlock_critical\<close> never reaches its own branch.\<close>

lemma cstr_drop: "k \<le> length (cstr s) \<Longrightarrow> cstr (drop k s) = drop k (cstr s)"
  by (induction s arbitrary: k) (auto simp: drop_Cons split: nat.splits if_splits)

lemma endswith_suffix:
  assumes "NUL \<notin> set t"
  shows "endswith s t \<longleftrightarrow> suffix t (cstr s)"
proof -
  have t: "cstr t = t" "strlen t = length t" using assms by (auto intro: cstr_id strlen_literal)
  have "take (length t) (cstr (drop (length (cstr s) - length t) s)) = drop (length (cstr s) - length t) (cstr s)"
    if "length t \<le> length (cstr s)" using that by (simp add: cstr_drop)
  then show ?thesis
    by (auto simp: endswith_def Let_def strncmp_eq_0_iff t strlen_cstr suffix_def) (metis append_take_drop_id)
qed

lemma unlock_critical_dead: "endswith s ''unlock_critical'' \<Longrightarrow> endswith s ''lock_critical''"
proof -
  have "suffix ''lock_critical'' ''unlock_critical''" by code_simp
  then show "endswith s ''unlock_critical'' \<Longrightarrow> endswith s ''lock_critical''"
    using suffix_order.trans by (simp add: endswith_suffix)
qed

end
