(* ===== verification/Fb_Types.thy ===== *)
theory Fb_Types
  imports Fb_Command
begin

text \<open>
  The globals of the gadget stay well formed whatever is sent to it: every operation of
  \<^verbatim>\<open>drivers/usb/gadget/f_fastboot.c\<close> leaves the table of partitions and the delayed command
  alone, or keeps them within their bounds.
\<close>

section \<open>Well-formed globals\<close>

text \<open>
  The table of partitions has its fixed length and a count within it, and the delayed command fits
  its buffer.
\<close>

definition globals_ok :: "('c, 'w) fb_state \<Rightarrow> bool" where
  "globals_ok st \<longleftrightarrow> ptable_ok (ptab st) \<and> length (g_a_cmd_buff st) < A_CMD_SIZE"

definition same_globals :: "('c, 'w) fb_state \<Rightarrow> ('c, 'w) fb_state \<Rightarrow> bool" where
  "same_globals st st' \<longleftrightarrow> ptab st' = ptab st \<and> g_a_cmd_buff st' = g_a_cmd_buff st"

lemma sg_refl [simp]: "same_globals st st"
  by (simp add: same_globals_def)

lemma sg_trans [trans]: "same_globals st1 st2 \<Longrightarrow> same_globals st2 st3 \<Longrightarrow> same_globals st1 st3"
  by (simp add: same_globals_def)

lemma sg_simps [simp]:
  "same_globals st (st'\<lparr>usb := u\<rparr>) = same_globals st st'" "same_globals st (st'\<lparr>mach := m\<rparr>) = same_globals st st'"
  "same_globals st (st'\<lparr>response := r\<rparr>) = same_globals st st'" "same_globals st (st'\<lparr>g_lockstat := l\<rparr>) = same_globals st st'"
  "same_globals st (st'\<lparr>download_size := n\<rparr>) = same_globals st st'" "same_globals st (st'\<lparr>download_bytes := n\<rparr>) = same_globals st st'"
  "same_globals st (set_mmc d st') = same_globals st st'" "same_globals st (set_out fn n st') = same_globals st st'"
  "same_globals st (fastboot_fail t st') = same_globals st st'" "same_globals st (fastboot_okay t st') = same_globals st st'"
  "same_globals st (set_response t st') = same_globals st st'" "same_globals st (reply x st') = same_globals st st'"
  by (simp_all add: same_globals_def set_mmc_def set_out_def fastboot_fail_def fastboot_okay_def respond_def set_response_def
      reply_def split: fb_reply.splits)

lemma sg_simps_left [simp]:
  "same_globals (fastboot_fail t st) st' = same_globals st st'" "same_globals (fastboot_okay t st) st' = same_globals st st'"
  "same_globals (st\<lparr>response := r\<rparr>) st' = same_globals st st'" "same_globals (st\<lparr>usb := u\<rparr>) st' = same_globals st st'"
  "same_globals (st\<lparr>mach := m\<rparr>) st' = same_globals st st'" "same_globals (set_out fn n st) st' = same_globals st st'"
  "same_globals (st\<lparr>download_size := n\<rparr>) st' = same_globals st st'" "same_globals (st\<lparr>download_bytes := n\<rparr>) st' = same_globals st st'"
  by (simp_all add: same_globals_def fastboot_fail_def fastboot_okay_def respond_def set_out_def)

lemma sg_tx: "tx_str bd s st = Some st' \<Longrightarrow> same_globals st st'" "tx_more bd s st = Some st' \<Longrightarrow> same_globals st st'"
  by (auto simp: tx_str_def tx_more_def)

lemma sg_block:
  "write_block blk b st = Some (ok, st') \<Longrightarrow> same_globals st st'"
  "read_block blk a st = Some (r, st') \<Longrightarrow> same_globals st st'"
  by (auto simp: write_block_def read_block_def)

lemma sg_lock:
  "fastboot_set_lock_stat bd l st = Some (r, st') \<Longrightarrow> same_globals st st'"
  "fastboot_get_lock_stat bd st = Some (s, st') \<Longrightarrow> same_globals st st'"
  "set_fastboot_lock_disable bd st = Some st' \<Longrightarrow> same_globals st st'"
  "fastboot_lock_enable bd st = Some (e, st') \<Longrightarrow> same_globals st st'"
  "fastboot_wipe_data_partition bd st = Some (r, st') \<Longrightarrow> same_globals st st'"
  by (auto simp: fastboot_set_lock_stat_def fastboot_get_lock_stat_def set_fastboot_lock_disable_def fastboot_lock_enable_def
      fastboot_wipe_data_partition_def wipe_partition_def Let_def dest: sg_block split: option.splits if_splits prod.splits)

lemma sg_do_lock: "do_fastboot_lock bd st = Some (s, st') \<Longrightarrow> same_globals st st'"
  by (auto simp: do_fastboot_lock_def dest!: sg_lock split: option.splits if_splits prod.splits; simp add: same_globals_def)

lemma sg_do_unlock:
  assumes "do_fastboot_unlock bd force st = Some (s, st')"
  shows "same_globals st st'"
proof -
  obtain st1 where st1: "(if force then set_fastboot_lock_disable bd st else Some st) = Some st1" "same_globals st st1"
    using assms sg_lock(3) [of bd st] by (fastforce simp: do_fastboot_unlock_def split: option.splits if_splits)
  have "same_globals st1 st'"
    using assms unfolding do_fastboot_unlock_def st1(1) option.case
    by (auto dest!: sg_lock split: option.splits if_splits prod.splits; simp add: same_globals_def)
  with st1(2) show ?thesis by (rule sg_trans)
qed

lemma sg_getvar: "get_single_var bd v r st = Some (s, r', st') \<Longrightarrow> same_globals st st'"
  by (auto simp: get_single_var_def plain_var_def Let_def dest: sg_lock split: option.splits if_splits prod.splits)

lemma sg_run: "run_cmd bd cmd st = Some (r, st') \<Longrightarrow> same_globals st st'"
  by (auto simp: run_cmd_def)

lemma sg_target: "get_fastboot_target_dev bd ptn st = (c, st') \<Longrightarrow> same_globals st st'"
  by (auto simp: get_fastboot_target_dev_def Let_def split: if_splits prod.splits)

lemma sg_backup: "write_backup_gpt bd st = (r, st') \<Longrightarrow> same_globals st st'"
  by (auto simp: write_backup_gpt_def Let_def split: if_splits prod.splits)

lemma sg_erase: "rx_process_erase bd cmd st = Some st' \<Longrightarrow> same_globals st st'"
  by (auto simp: rx_process_erase_def process_erase_mmc_def Let_def split: option.splits if_splits prod.splits dev_type.splits)

lemma sg_sparse: "flash_sparse bd ptn st = Some st' \<Longrightarrow> same_globals st st'"
  by (auto simp: flash_sparse_def Let_def split: option.splits if_splits prod.splits)

lemma sg_image: "flash_image bd ptn dev n st = Some st' \<Longrightarrow> same_globals st st'"
  by (auto simp: flash_image_def Let_def dest!: sg_run split: option.splits if_splits prod.splits; simp add: same_globals_def)

lemma sg_raw:
  assumes "flash_raw bd ptn dev st = Some st'"
  shows "same_globals st st'"
proof -
  let ?n = "block_count (if strncmp (pname ptn) ''gpt'' 3 = 0 then ANDROID_GPT_END else download_bytes st)"
  obtain st1 where st1: "flash_image bd ptn dev ?n st = Some st1 \<or> st1 = st"
    "(if strncmp (pname ptn) ''gpt'' 3 = 0 then
        let (err, st) = write_backup_gpt bd st1;
            st = (if err \<noteq> 0 then fastboot_fail ''write backup GPT image fail'' st else fastboot_okay [] st) in
        map_option snd (run_cmd bd dev st)
      else Some st1) = Some st'"
    using assms by (auto simp: flash_raw_def Let_def split: option.splits if_splits)
  have "same_globals st1 st'"
    using st1(2) by (auto simp: Let_def dest!: sg_run sg_backup split: if_splits prod.splits; simp add: same_globals_def)
  then show ?thesis using st1(1) sg_image sg_trans by blast
qed

lemma sg_env: "flash_env bd st = Some st' \<Longrightarrow> same_globals st st'"
  by (auto simp: flash_env_def Let_def split: option.splits if_splits prod.splits)

lemma sg_flash: "rx_process_flash bd cmd st = Some st' \<Longrightarrow> same_globals st st'"
  by (auto simp: rx_process_flash_def process_flash_mmc_def
      dest!: sg_target sg_env sg_raw sg_sparse split: dev_type.splits option.splits if_splits prod.splits; 
      simp add: same_globals_def)

text \<open>The table stays well formed when partitions are loaded.\<close>

lemma fold_add_ptn_ok: "ptable_ok pt \<Longrightarrow> ptable_ok (fold fastboot_flash_add_ptn es pt)"
  by (induction es arbitrary: pt) (simp_all add: add_ptn_ok(1))

lemma load_ptable_ok: "ptable_ok pt \<Longrightarrow> ptable_ok (load_partitions ab c ty t pt)"
  by (auto simp: load_partitions_def parts_load_from_ptable_def Let_def ptable_ok_def [of "pt\<lparr>g_pcount := 0\<rparr>"] ptable_ok_def [of pt]
      intro!: fold_add_ptn_ok split: prod.splits)

lemma globals_same: "globals_ok st \<Longrightarrow> same_globals st st' \<Longrightarrow> globals_ok st'"
  by (simp add: globals_ok_def same_globals_def)

lemma globals_load: "globals_ok st \<Longrightarrow> globals_ok (load_partitions_st bd st)"
  by (auto simp: globals_ok_def load_partitions_st_def Let_def load_ptable_ok)

lemma globals_setup: "globals_ok st \<Longrightarrow> globals_ok (fastboot_setup bd st)"
proof -
  have eq: "globals_ok (parameters_setup bd s) = globals_ok s" "globals_ok (s\<lparr>mach := m\<rparr>) = globals_ok s"
    "globals_ok (s\<lparr>fastboot_devinfo := dv\<rparr>) = globals_ok s" for s m dv
    by (simp_all add: globals_ok_def parameters_setup_def)
  show "globals_ok st \<Longrightarrow> globals_ok (fastboot_setup bd st)"
    by (auto simp: fastboot_setup_def Let_def eq intro!: globals_load split: option.splits prod.splits)
qed

lemma sg_put_all:
  assumes "\<And>f st st'. f \<in> set fs \<Longrightarrow> f st = Some st' \<Longrightarrow> same_globals st st'"
  shows "put_all (\<lambda>f. f) fs st = Some st' \<Longrightarrow> same_globals st st'"
  using assms
proof (induction fs arbitrary: st)
  case (Cons f fs)
  then obtain st1 where st1: "f st = Some st1" "put_all (\<lambda>f. f) fs st1 = Some st'" by (auto split: option.splits)
  have "same_globals st st1" by (rule Cons.prems(2) [of f]) (simp_all add: st1(1))
  moreover have "same_globals st1 st'"
  proof (rule Cons.IH [OF st1(2)])
    show "same_globals s s'" if "g \<in> set fs" "g s = Some s'" for g s s'
      by (rule Cons.prems(2) [of g]) (use that in simp_all)
  qed
  ultimately show ?case by (rule sg_trans)
qed simp

lemma sg_info: "info_line bd r v st = Some st' \<Longrightarrow> same_globals st st'"
  by (auto simp: info_line_def dest!: sg_getvar sg_tx split: option.splits prod.splits; simp add: same_globals_def)

lemma sg_all: "getvar_all bd st = Some st' \<Longrightarrow> same_globals st st'"
proof -
  have slots: "same_globals s s'" if s: "slot_lines bd s = Some s'" for s s'
  proof -
    obtain names where "get_partition_base_name (ptab s) = Some names"
      using s by (auto simp: slot_lines_def split: option.splits)
    note l = s [unfolded slot_lines_def this option.case]
    show ?thesis by (rule sg_put_all [OF _ l]) (auto simp: info_named_def dest: sg_info)
  qed
  assume "getvar_all bd st = Some st'"
  note l = this [unfolded getvar_all_def]
  show ?thesis
    by (rule sg_put_all [OF _ l]) (auto simp: info_named_def dest: sg_info slots sg_tx split: if_splits)
qed

lemma sg_cb_getvar: "cb_getvar bd cmd st = Some st' \<Longrightarrow> same_globals st st'"
  by (auto simp: cb_getvar_def dest!: sg_tx sg_all sg_getvar split: option.splits if_splits prod.splits; simp add: same_globals_def)

section \<open>Commands and events\<close>

lemma sg_okay_then: "okay_then bd fn st = Some st' \<Longrightarrow> same_globals st st'"
  by (auto simp: okay_then_def set_complete_def dest!: sg_tx split: if_splits)

lemma sg_upload: "cb_upload bd st = Some st' \<Longrightarrow> same_globals st st'"
  by (auto simp: cb_upload_def dest!: sg_tx split: if_splits option.splits prod.splits; simp add: same_globals_def)

lemma sg_download: "cb_download bd cmd st = Some st' \<Longrightarrow> same_globals st st'"
  by (auto simp: cb_download_def Let_def dest!: sg_tx split: if_splits option.splits)

lemma sg_set_env: "set_env_hex bd k v st = Some st' \<Longrightarrow> same_globals st st'"
  by (auto simp: set_env_hex_def)

lemma sg_dl: "rx_handler_dl_image bd status pkt st = Some (st', q) \<Longrightarrow> same_globals st st'"
  by (auto simp: rx_handler_dl_image_def Let_def dest!: sg_set_env sg_tx split: if_splits option.splits;
      simp add: same_globals_def)

lemma sg_flashing: "cb_flashing bd cmd st = Some st' \<Longrightarrow> same_globals st st'"
  by (auto simp: cb_flashing_def dest!: sg_tx sg_do_lock sg_do_unlock sg_lock
      split: if_splits option.splits lock_enable.splits; simp add: same_globals_def)

lemma sg_guard: "lock_guard bd st = Some (Inl st') \<Longrightarrow> same_globals st st'" "lock_guard bd st = Some (Inr st') \<Longrightarrow> same_globals st st'"
  by (auto simp: lock_guard_def dest!: sg_tx sg_lock split: if_splits option.splits lock_state.splits; simp add: same_globals_def)+

lemma globals_flash:
  assumes "cb_flash bd cmd st = Some st'" "globals_ok st"
  shows "globals_ok st'"
proof (cases "snd (strsep (Some cmd) '':'')")
  case None
  then show ?thesis using assms(1) by (auto simp: cb_flash_def dest!: sg_tx(1) intro: globals_same [OF assms(2)])
next
  case (Some v)
  then obtain x where x: "lock_guard bd (st\<lparr>response := None\<rparr>) = Some x"
    using assms(1) by (auto simp: cb_flash_def split: option.splits)
  show ?thesis
  proof (cases x)
    case (Inl st1)
    then have "same_globals st st1" using sg_guard(1) [of bd "st\<lparr>response := None\<rparr>" st1] x by simp
    then show ?thesis using assms(1) Some x Inl by (auto simp: cb_flash_def intro: globals_same [OF assms(2)])
  next
    case (Inr st1)
    then obtain st2 st3 where st2: "rx_process_flash bd v (fastboot_fail ''no flash device defined'' st1) = Some st2"
      and st3: "after_gpt bd v st2 = Some st3" "tx_response bd st3 = Some st'"
      using assms(1) Some x by (auto simp: cb_flash_def split: option.splits)
    have "same_globals st st2"
      using sg_guard(2) [of bd "st\<lparr>response := None\<rparr>" st1] x Inr sg_flash [OF st2] sg_trans by auto
    then have ok2: "globals_ok st2" using assms(2) globals_same by blast
    have "globals_ok st3"
      using st3(1) ok2 by (auto simp: after_gpt_def dest!: sg_do_unlock intro: globals_same [OF globals_load [OF ok2, of bd]] split: if_splits)
    from globals_same [OF this] show ?thesis
      using st3(2) by (auto simp: tx_response_def dest!: sg_tx(1) split: option.splits)
  qed
qed

lemma globals_erase:
  assumes "cb_erase bd cmd st = Some st'"
  shows "same_globals st st'"
  using assms
  by (auto simp: cb_erase_def tx_response_def dest!: sg_tx sg_guard sg_erase split: option.splits sum.splits;
      simp add: same_globals_def)

lemma globals_ucmd:
  assumes "cb_run_uboot_cmd bd cmd st = Some st'" "globals_ok st"
  shows "globals_ok st'"
proof -
  have "\<exists>s. same_globals st s \<and> (st' = s \<or> st' = fastboot_setup bd s)"
  proof (cases "snd (strsep (Some cmd) '':'')")
    case None
    then show ?thesis using assms(1) by (auto simp: cb_run_uboot_cmd_def dest: sg_tx(1))
  next
    case (Some c)
    then obtain r st1 st2 m where st1: "run_cmd bd c st = Some (r, st1)" "tx_str bd m st1 = Some st2" "st' = st2 \<or> st' = fastboot_setup bd st2"
      using assms(1) by (auto simp: cb_run_uboot_cmd_def split: option.splits if_splits)
    then show ?thesis using sg_trans [OF sg_run [OF st1(1)] sg_tx(1) [OF st1(2)]] by blast
  qed
  then show ?thesis using globals_setup globals_same assms(2) by blast
qed

lemma globals_acmd:
  assumes "cb_run_uboot_acmd bd cmd st = Some st'" "globals_ok st"
  shows "globals_ok st'"
proof -
  have "same_globals st st' \<or> (\<exists>c. strlen c < A_CMD_SIZE \<and> same_globals (st\<lparr>g_a_cmd_buff := cstr c\<rparr>) st')"
    using assms(1) by (auto simp: cb_run_uboot_acmd_def dest!: sg_tx sg_okay_then split: option.splits if_splits)
  then show ?thesis
    using assms(2) by (auto simp: globals_ok_def same_globals_def strlen_cstr)
qed

lemma globals_cb:
  assumes "func_cb bd cb cmd st = Some st'" "globals_ok st"
  shows "globals_ok st'"
proof -
  note same = globals_same [OF assms(2)]
  have rb: "same_globals st st'" if "cb_reboot bd cmd st = Some st'"
    using that by (auto simp: cb_reboot_def Let_def dest!: sg_tx sg_okay_then split: if_splits prod.splits)
  show ?thesis
    using assms(1) rb sg_okay_then [of bd _ st st'] sg_okay_then [of bd _ "st\<lparr>mach := enable_fastboot_command bd (mach st)\<rparr>" st']
      sg_cb_getvar [of bd cmd st st'] sg_upload [of bd st st'] sg_download [of bd cmd st st'] sg_flashing [of bd cmd st st']
      globals_flash [of bd cmd st st', OF _ assms(2)] globals_erase [of bd cmd st st']
      globals_ucmd [of bd cmd st st', OF _ assms(2)] globals_acmd [of bd cmd st st', OF _ assms(2)]
    by (cases cb) (auto simp: cb_boot_def cb_continue_def cb_reboot_bootloader_def intro: same)
qed

lemma globals_event:
  assumes "gadget_event bd ev st = Some st'" "globals_ok st"
  shows "globals_ok st'"
proof (cases ev)
  case (Ev_command status actual buf)
  let ?st0 = "st\<lparr>usb := (usb st)\<lparr>front := None, rear := None\<rparr>\<rparr>"
  have ok: "globals_ok ?st0" using assms(2) by (simp add: globals_ok_def)
  have "st' = ?st0 \<or> (\<exists>s. tx_str bd s ?st0 = Some st') \<or> (\<exists>cb cmd. func_cb bd cb cmd ?st0 = Some st')"
    using assms(1) Ev_command
    by (auto simp: gadget_event_def rx_handler_command_def Let_def split: if_splits option.splits)
  then show ?thesis using ok globals_cb [OF _ ok] globals_same [OF ok] sg_tx(1) by blast
next
  case (Ev_data status pkt)
  then show ?thesis using assms(1) by (auto simp: gadget_event_def dest!: sg_dl intro: globals_same [OF assms(2)] split: if_splits)
next
  case (Ev_sent status)
  then have "st' = st \<or> do_acmd_complete bd status st = Some st'"
    using assms(1) by (auto simp: gadget_event_def split: option.splits complete_fn.splits)
  then show ?thesis using assms(2) by (auto simp: do_acmd_complete_def dest!: sg_run intro: globals_same [OF assms(2)] split: if_splits)
next
  case (Ev_fifo status)
  then show ?thesis using assms by (auto simp: gadget_event_def globals_ok_def)
qed

interpretation globalsinv: gadget_invariant bd "\<lambda>_. True" globals_ok for bd
  by unfold_locales (rule globals_event)



end
