(* ===== verification/Fb_Session.thy ===== *)
theory Fb_Session
  imports Fb_Types
begin

text \<open>
  A session of the host: an image is downloaded and then flashed. The theorem composes the packet
  handler, the dispatch of commands, the flashing code, the \<open>mmc write\<close> command, the block cache
  and the driver of the card.
\<close>

section \<open>What a download leaves alone\<close>

definition dl_frame :: "('c, 'w) fb_state \<Rightarrow> ('c, 'w) fb_state \<Rightarrow> bool" where
  "dl_frame st st' \<longleftrightarrow> ptab st' = ptab st \<and> fastboot_devinfo st' = fastboot_devinfo st
     \<and> transfer_buffer st' = transfer_buffer st \<and> mmcd (mach st') = mmcd (mach st)"

lemma dl_frame_refl [simp]: "dl_frame st st"
  by (simp add: dl_frame_def)

lemma dl_frame_trans: "dl_frame st1 st2 \<Longrightarrow> dl_frame st2 st3 \<Longrightarrow> dl_frame st1 st3"
  by (simp add: dl_frame_def)

lemma dl_frame_tx: "tx_str bd s st = Some st' \<Longrightarrow> dl_frame st st'"
  by (auto simp: tx_str_def dl_frame_def)

lemma dl_frame_env: "set_env_hex bd k v st = Some st' \<Longrightarrow> dl_frame st st'"
  by (auto simp: set_env_hex_def dl_frame_def)

lemma dl_frame_download: "cb_download bd cmd st = Some st' \<Longrightarrow> dl_frame st st'"
  by (auto simp: cb_download_def Let_def set_out_def dest!: dl_frame_tx split: if_splits option.splits)
    (simp_all add: dl_frame_def)

lemma dl_frame_packet: "rx_handler_dl_image bd status pkt st = Some (st', q) \<Longrightarrow> dl_frame st st'"
  by (auto simp: rx_handler_dl_image_def Let_def set_out_def dest!: dl_frame_env dl_frame_tx split: if_splits option.splits;
      simp add: dl_frame_def)

lemma dl_frame_feed: "feed bd ps st = Some st' \<Longrightarrow> dl_frame st st'"
proof (induction ps arbitrary: st)
  case (Cons p ps)
  then obtain st1 q where "rx_handler_dl_image bd 0 p st = Some (st1, q)" "feed bd ps st1 = Some st'"
    by (auto split: option.splits)
  with Cons.IH dl_frame_packet dl_frame_trans show ?case by blast
qed simp

section \<open>Download and flash\<close>

text \<open>
  Selecting the card of the gadget by \<open>mmc dev\<close> keeps memory and makes \<open>d\<close> the device, wherever
  the rest of the machine stands.
\<close>

definition selects :: "('c, 'w) board \<Rightarrow> char list \<Rightarrow> 'c mmcdev \<Rightarrow> u32 \<Rightarrow> 'c mmcdev \<Rightarrow> bool" where
  "selects bd cmd d0 dev d \<longleftrightarrow> (\<forall>m. mmcd m = d0 \<longrightarrow>
     (\<exists>r m'. run_command bd cmd m = Some (r, m') \<and> ram m' = ram m \<and> mmcd m' = d \<and> curr_device bd m' = dev))"

text \<open>The packets of a download as events.\<close>

lemma feed_run:
  assumes "downloading bd n k st" "list_all (\<lambda>p. length p \<le> EP_BUFFER_SIZE) (ps @ [p])" "k + length (concat ps) < n"
    "feed bd (ps @ [p]) st = Some st'"
  shows "gadget_run bd (map (Ev_data 0) (ps @ [p])) st st'"
  using assms
proof (induction ps arbitrary: k st)
  case Nil
  then have "gadget_event bd (Ev_data 0 p) st = Some st'"
    by (auto simp: gadget_event_def downloading_def split: option.splits)
  then show ?case by (auto intro: run_step run_nil)
next
  case (Cons q ps)
  have q: "length q \<le> EP_BUFFER_SIZE" "k + length q < n" using Cons.prems(2,3) by auto
  obtain st1 where st1: "rx_handler_dl_image bd 0 q st = Some (st1, True)" "downloading bd n (k + length q) st1"
    using packet_result [OF Cons.prems(1) q(1)] q(2) by auto
  have "gadget_event bd (Ev_data 0 q) st = Some st1"
    using Cons.prems(1) st1(1) by (auto simp: gadget_event_def downloading_def)
  moreover have "gadget_run bd (map (Ev_data 0) (ps @ [p])) st1 st'"
    by (rule Cons.IH [OF st1(2)]) (use Cons.prems st1(1) in simp_all)
  ultimately show ?case by (auto intro: run_step)
qed

lemma gadget_run_append: "gadget_run bd e1 st st1 \<Longrightarrow> gadget_run bd e2 st1 st2 \<Longrightarrow> gadget_run bd (e1 @ e2) st st2"
  by (induction rule: gadget_run.induct) (auto intro: run_step)

text \<open>A packet with the command \<open>c\<close>; behind it the buffer holds \<open>z # t\<close>.\<close>

definition cmd_packet :: "char list \<Rightarrow> char \<Rightarrow> char list \<Rightarrow> event" where
  "cmd_packet c z t = Ev_command 0 (length c) (c @ z # t)"

definition front_clear :: "('c, 'w) fb_state \<Rightarrow> ('c, 'w) fb_state" where
  "front_clear st = st\<lparr>usb := (usb st)\<lparr>front := None, rear := None\<rparr>\<rparr>"

lemma command_event:
  assumes "out_req (usb st) = Some \<lparr>complete = Rx_handler_command, rlength = of_nat EP_BUFFER_SIZE\<rparr>"
    "length text < EP_BUFFER_SIZE" "find_cb bd (text @ z # t) = Some cb"
  shows "gadget_event bd (cmd_packet text z t) st = func_cb bd cb (text @ NUL # t) (front_clear st)"
  using assms by (simp add: cmd_packet_def gadget_event_def rx_handler_command_def EP_BUFFER_SIZE_def front_clear_def Let_def)

lemma find_cb_download: "find_cb bd (''download:'' @ t) = Some Cb_download"
  by (simp add: find_cb_def cmd_dispatch_info_def strcmp_l1_def)

lemma find_cb_flash: "\<not> cfg_lock bd \<Longrightarrow> find_cb bd (''flash:'' @ t) = Some Cb_flash"
  by (simp add: find_cb_def cmd_dispatch_info_def strcmp_l1_def)

text \<open>
  A raw image may go to the partition \<open>ptn\<close>: it is neither the environment, the partition table nor
  the boot loader, its size in bytes fits 32 bits, and it lies on the device that gets selected.
\<close>

definition select_cmd :: "fastboot_ptentry \<Rightarrow> ('c, 'w) fb_state \<Rightarrow> char list" where
  "select_cmd ptn st = ''mmc dev '' @ hex (ucast (dev_id (fastboot_devinfo st))) @ '' '' @ hex (partition_id ptn)"

definition raw_target :: "('c, 'w) board \<Rightarrow> ('c, 'w) fb_state \<Rightarrow> fastboot_ptentry \<Rightarrow> 'c mmcdev \<Rightarrow> bool" where
  "raw_target bd st ptn d \<longleftrightarrow> dtype (fastboot_devinfo st) = DEV_MMC \<and> pflags ptn AND FLAGS_WRITE_ENV = 0
     \<and> strncmp (pname ptn) ''gpt'' 3 \<noteq> 0 \<and> is_raw_partition bd ptn \<and> unat (plength ptn) * 512 < 2 ^ 32
     \<and> strncmp (pname ptn) (FASTBOOT_PARTITION_BOOTLOADER (cfg_ab bd)) (strlen (FASTBOOT_PARTITION_BOOTLOADER (cfg_ab bd)) + 1) \<noteq> 0
     \<and> partition_id ptn \<noteq> MMC_NONE_PARTITION_ID
     \<and> (\<exists>dev. selects bd (select_cmd ptn st) (mmcd (mach st)) dev d
          \<and> mmc_sparse_inv IF_TYPE_MMC (uint dev) 512 (pstart ptn) (plength ptn) d)"

lemma raw_target_frame: "dl_frame st st' \<Longrightarrow> raw_target bd st' ptn d = raw_target bd st ptn d"
  by (simp add: raw_target_def dl_frame_def select_cmd_def)

lemma target_dev:
  assumes "raw_target bd st ptn d"
  shows "get_fastboot_target_dev bd ptn st = (Some (select_cmd ptn st @ [NUL]), st)"
  using assms by (simp add: get_fastboot_target_dev_def raw_target_def select_cmd_def sprintf_mmc_dev Let_def)

lemma flash_command:
  assumes bd: "init_keeps bd" "runs_mmc_write bd" "\<not> cfg_lock bd"
    and ptn: "fastboot_flash_find_ptn name (ptab st) = Some ptn" "raw_target bd st ptn d"
    and size: "download_bytes st \<noteq> 0" "unat (download_bytes st) \<le> unat (plength ptn) * 512"
    and tx: "tx_ready bd st"
  shows "\<exists>st' r. cb_flash bd (''flash:'' @ name) st = Some st' \<and> sent (usb st') = sent (usb st) @ [r]
    \<and> (\<forall>b. b < unat (pstart ptn) \<or> unat (pstart ptn) + unat (plength ptn) \<le> b \<longrightarrow>
         mmc_cells (dev_of st') b = mmc_cells (fst d) b)
    \<and> (r = ''OKAY'' \<longrightarrow>
         take (unat (download_bytes st)) (get_blocks (mmc_cells (dev_of st')) (unat (pstart ptn)) (unat (block_count (download_bytes st))))
         = mem_read (ram (mach st)) (transfer_buffer st) (unat (download_bytes st)))"
proof -
  let ?s = "fastboot_fail ''no flash device defined'' (st\<lparr>response := None\<rparr>)"
  have s: "ptab ?s = ptab st" "mach ?s = mach st" "usb ?s = usb st" "download_bytes ?s = download_bytes st"
    "transfer_buffer ?s = transfer_buffer st" "fastboot_devinfo ?s = fastboot_devinfo st"
    by (simp_all add: fastboot_fail_def respond_def)
  have rt: "raw_target bd ?s ptn d" using ptn(2) s by (simp add: raw_target_def select_cmd_def)
  obtain dev where dev: "selects bd (select_cmd ptn ?s) (mmcd (mach ?s)) dev d"
    "mmc_sparse_inv IF_TYPE_MMC (uint dev) 512 (pstart ptn) (plength ptn) d"
    using rt by (auto simp: raw_target_def)
  obtain r m where m: "run_command bd (select_cmd ptn ?s) (mach ?s) = Some (r, m)" "ram m = ram (mach ?s)" "mmcd m = d" "curr_device bd m = dev"
    using dev(1) unfolding selects_def by blast
  have sel: "cstr (select_cmd ptn ?s @ [NUL]) = select_cmd ptn ?s"
    by (rule cstr_append_NUL) (auto simp: select_cmd_def hex_NUL)
  have "\<exists>st'. process_flash_mmc bd name ?s = Some st' \<and> usb st' = usb ?s
    \<and> response st' \<in> {Some ''OKAY'', Some ''FAILWrite partition failed''}
    \<and> (\<forall>b. b < unat (pstart ptn) \<or> unat (pstart ptn) + unat (plength ptn) \<le> b \<longrightarrow>
         mmc_cells (fst (mmcd (mach st'))) b = mmc_cells (fst (mmcd m)) b)
    \<and> (response st' = Some ''OKAY'' \<longrightarrow>
         take (unat (download_bytes ?s)) (get_blocks (mmc_cells (fst (mmcd (mach st')))) (unat (pstart ptn)) (unat (block_count (download_bytes ?s))))
         = mem_read (ram (mach ?s)) (transfer_buffer ?s) (unat (download_bytes ?s)))"
    by (rule process_flash_raw [OF bd(1,2) _ _ _ _ _ _ _ target_dev [OF rt] _ m(2)])
      (use ptn(1) rt size s sel m dev(2) in \<open>simp_all add: raw_target_def\<close>)
  then obtain st1 where st1: "process_flash_mmc bd name ?s = Some st1" "usb st1 = usb st"
    "response st1 \<in> {Some ''OKAY'', Some ''FAILWrite partition failed''}"
    "\<forall>b. b < unat (pstart ptn) \<or> unat (pstart ptn) + unat (plength ptn) \<le> b \<longrightarrow> mmc_cells (dev_of st1) b = mmc_cells (fst d) b"
    "response st1 = Some ''OKAY'' \<longrightarrow>
         take (unat (download_bytes st)) (get_blocks (mmc_cells (dev_of st1)) (unat (pstart ptn)) (unat (block_count (download_bytes st))))
         = mem_read (ram (mach st)) (transfer_buffer st) (unat (download_bytes st))"
    unfolding s m(3) by blast
  obtain r where r: "response st1 = Some r" "cstr r = r" "length r \<le> EP_BUFFER_SIZE"
    using st1(3) by (auto simp: EP_BUFFER_SIZE_def)
  have "tx_str bd r st1 = Some (st1\<lparr>usb := (usb st1)\<lparr>sent := sent (usb st) @ [r]\<rparr>\<rparr>)"
    using tx_str_sends [of bd st1 r] tx st1(2) r(2,3) by (simp add: tx_ready_def)
  moreover have "rx_process_flash bd name ?s = Some st1"
    using st1(1) ptn(2) s(6) by (simp add: rx_process_flash_def raw_target_def)
  moreover have "snd (strsep (Some (''flash:'' @ name)) '':'') = Some name" by (simp add: strsep_def)
  ultimately have "cb_flash bd (''flash:'' @ name) st = Some (st1\<lparr>usb := (usb st1)\<lparr>sent := sent (usb st) @ [r]\<rparr>\<rparr>)"
    using bd(3) r(1) unfolding cb_flash_def by (simp add: lock_guard_def after_gpt_def tx_response_def)
  then show ?thesis using st1(4,5) r(1) by auto
qed

lemma download_run:
  assumes "dl_ready bd st" "out_req (usb st) = Some \<lparr>complete = Rx_handler_command, rlength = of_nat EP_BUFFER_SIZE\<rparr>"
    "0 < n" "n \<le> buf_size bd" "list_all (\<lambda>p. length p \<le> EP_BUFFER_SIZE) (ps @ [p])"
    "length (concat ps) < unat n" "unat n \<le> length (concat (ps @ [p]))"
  shows "\<exists>st'. gadget_run bd (cmd_packet (''download:'' @ hex n) z t # map (Ev_data 0) (ps @ [p])) st st'
    \<and> dl_frame st st' \<and> dl_ready bd st' \<and> download_bytes st' = n
    \<and> out_req (usb st') = Some \<lparr>complete = Rx_handler_command, rlength = of_nat EP_BUFFER_SIZE\<rparr>
    \<and> sent (usb st') = sent (usb st) @ [''DATA'' @ replicate (8 - length (hex n)) CHR ''0'' @ hex n, ''OKAY'']
    \<and> ram (mach st') = mem_write (ram (mach st)) (dl_base bd (envst (mach st))) (take (unat n) (concat (ps @ [p])))"
proof -
  let ?st0 = "front_clear st"
  have rdy: "dl_ready bd ?st0" "mach ?st0 = mach st" "sent (usb ?st0) = sent (usb st)" "dl_frame st ?st0"
    using assms(1) by (simp_all add: dl_ready_def front_clear_def dl_frame_def)
  obtain st1 where st1: "cb_download bd (''download:'' @ hex n @ NUL # t) ?st0 = Some st1" "downloading bd (unat n) 0 st1" "mach st1 = mach st"
    "sent (usb st1) = sent (usb st) @ [''DATA'' @ replicate (8 - length (hex n)) CHR ''0'' @ hex n]"
    using cb_download_result [OF rdy(1) assms(3,4), of t] rdy(2,3) by auto
  have "gadget_event bd (cmd_packet (''download:'' @ hex n) z t) st =
      func_cb bd Cb_download ((''download:'' @ hex n) @ NUL # t) ?st0"
    by (rule command_event [OF assms(2)])
      (use length_hex [of n] find_cb_download [of bd "hex n @ z # t"] in \<open>simp_all add: EP_BUFFER_SIZE_def\<close>)
  then have ev: "gadget_event bd (cmd_packet (''download:'' @ hex n) z t) st = Some st1"
    using st1(1) by simp
  obtain st2 where st2: "feed bd (ps @ [p]) st1 = Some st2" "unat (download_bytes st2) = unat n"
    "out_req (usb st2) = Some \<lparr>complete = Rx_handler_command, rlength = of_nat EP_BUFFER_SIZE\<rparr>" "dl_ready bd st2"
    "sent (usb st2) = sent (usb st1) @ [''OKAY'']"
    "ram (mach st2) = mem_write (ram (mach st1)) (dl_base bd (envst (mach st1)) + of_nat 0) (take (unat n - 0) (concat (ps @ [p])))"
    using feed_result [OF st1(2) assms(5)] assms(6,7) by auto
  have "gadget_run bd (map (Ev_data 0) (ps @ [p])) st1 st2"
    using feed_run [OF st1(2) assms(5) _ st2(1)] assms(6) by simp
  moreover have "dl_frame st st2"
    using dl_frame_trans [OF rdy(4) dl_frame_trans [OF dl_frame_download [OF st1(1)] dl_frame_feed [OF st2(1)]]] .
  ultimately show ?thesis
    using run_step [OF ev] st1(3,4) st2 by (auto intro: unsigned_word_eqI)
qed


lemma demo_target: "raw_target demo_board demo_state demo_ptn (card512, blkcache_init)"
proof -
  have cmp: "strncmp ''boot'' ''gpt'' 3 \<noteq> 0" "is_raw_partition demo_board demo_ptn" "strncmp ''boot'' ''bootloader'' 11 \<noteq> 0"
    "strlen ''bootloader'' + 1 = 11" "hex 0 = ''0''" by code_simp+
  have sel: "select_cmd demo_ptn demo_state = ''mmc dev 0 0''"
    using cmp(5) by (simp add: select_cmd_def demo_ptn_def demo_state_def)
  have "selects demo_board ''mmc dev 0 0'' (card512, blkcache_init) 0 (card512, blkcache_init)"
    by (simp add: selects_def demo_board_def split_blank_def) (simp add: demo_base_def)
  moreover have "mmc_sparse_inv IF_TYPE_MMC (uint (0 :: u32)) 512 3 3 (card512, blkcache_init)"
    using card512_wf by (simp add: mmc_sparse_inv_def cmmc_inv_def cache_ok_def blkcache_init_def)
      (simp add: card512_def ram_mmc_def)
  ultimately show ?thesis
    unfolding raw_target_def sel using cmp(1-4)
    by (simp add: demo_ptn_def demo_state_def MMC_NONE_PARTITION_ID_def FASTBOOT_PARTITION_BOOTLOADER_def)
      (auto simp: demo_board_def demo_base_def)
qed


end
