(* ===== verification/Uuid.thy ===== *)
theory Uuid
  imports C_Hex C_Memory
begin

text \<open>
  \<^verbatim>\<open>lib/uuid.c\<close>: the identifiers of partition tables as text and as 16 bytes, in a build without the
  short names of partition types. Printing is inverse to parsing in both formats.
\<close>

section \<open>The code\<close>

definition UUID_STR_LEN :: nat where "UUID_STR_LEN = 36"

text \<open>The loop of \<open>uuid_str_valid\<close>: the index it stops at and the last verdict.\<close>

fun uuid_scan :: "nat \<Rightarrow> char list \<Rightarrow> nat \<times> bool" where
  "uuid_scan i [] = (i, True)"
| "uuid_scan i (c # cs) =
     (if c = NUL then (i, True)
      else
        let valid = (if i \<in> {8, 13, 18, 23} then c = CHR ''-'' else isxdigit c)
        in if valid then uuid_scan (i + 1) cs else (i + 1, False))"

definition uuid_str_valid :: "char list \<Rightarrow> bool" where
  "uuid_str_valid uuid = (let (i, valid) = uuid_scan 0 uuid in i = UUID_STR_LEN \<and> valid)"

definition be16_bytes :: "u16 \<Rightarrow> u8 list" where
  "be16_bytes w = [ucast (drop_bit 8 w), ucast w]"

definition be64_bytes :: "u64 \<Rightarrow> u8 list" where
  "be64_bytes w = map (\<lambda>k. ucast (drop_bit k w)) [56, 48, 40, 32, 24, 16, 8, 0]"

datatype str_format = UUID_STR_FORMAT_STD | UUID_STR_FORMAT_GUID

text \<open>\<open>None\<close> is the return \<open>-EINVAL\<close>.\<close>

definition uuid_str_to_bin :: "char list \<Rightarrow> str_format \<Rightarrow> u8 list option" where
  "uuid_str_to_bin uuid_str fmt =
     (if \<not> uuid_str_valid uuid_str then None
      else
        let tmp32 = fst (simple_strtoul uuid_str 16);
            w1 = ucast (fst (simple_strtoul (drop 9 uuid_str) 16)) :: u16;
            w2 = ucast (fst (simple_strtoul (drop 14 uuid_str) 16)) :: u16;
            w3 = ucast (fst (simple_strtoul (drop 19 uuid_str) 16)) :: u16;
            tmp64 = fst (simple_strtoull (drop 24 uuid_str) 16);
            front = (case fmt of
                       UUID_STR_FORMAT_STD \<Rightarrow> rev (le32_bytes tmp32) @ be16_bytes w1 @ be16_bytes w2
                     | UUID_STR_FORMAT_GUID \<Rightarrow> le32_bytes tmp32 @ rev (be16_bytes w1) @ rev (be16_bytes w2))
        in Some (front @ be16_bytes w3 @ drop 2 (be64_bytes tmp64)))"

definition char_order :: "str_format \<Rightarrow> nat list" where
  "char_order fmt = (case fmt of
     UUID_STR_FORMAT_STD \<Rightarrow> [0, 1, 2, 3, 4, 5, 6, 7, 8, 9, 10, 11, 12, 13, 14, 15]
   | UUID_STR_FORMAT_GUID \<Rightarrow> [3, 2, 1, 0, 5, 4, 7, 6, 8, 9, 10, 11, 12, 13, 14, 15])"

primrec uuid_print :: "mem \<Rightarrow> u8 list \<Rightarrow> nat \<Rightarrow> nat list \<Rightarrow> char list option" where
  "uuid_print m uuid_bin i [] = Some []"
| "uuid_print m uuid_bin i (k # ks) =
     (case sprintf m ''%02x'' [VInt (ucast (uuid_bin ! k))] of
        None \<Rightarrow> None
      | Some s \<Rightarrow>
          map_option (\<lambda>r. cstr s @ (if i \<in> {3, 5, 7, 9} then ''-'' else []) @ r) (uuid_print m uuid_bin (i + 1) ks))"

definition uuid_bin_to_str :: "mem \<Rightarrow> u8 list \<Rightarrow> str_format \<Rightarrow> char list option" where
  "uuid_bin_to_str m uuid_bin fmt = uuid_print m uuid_bin 0 (char_order fmt)"

section \<open>Two digits per byte\<close>

definition nibs :: "u8 \<Rightarrow> nat list" where
  "nibs b = [unat b div 16, unat b mod 16]"

definition hx :: "u8 \<Rightarrow> char list" where
  "hx b = map (digit_char True) (nibs b)"

lemma nibs_less: "d \<in> set (nibs b) \<Longrightarrow> d < 16"
  using unat_u8_less [of b] by (auto simp: nibs_def)

lemma hx_xdigit: "c \<in> set (hx b) \<Longrightarrow> isxdigit c \<and> c \<noteq> NUL \<and> c \<noteq> CHR ''-''"
proof -
  assume "c \<in> set (hx b)"
  then obtain d where "d < 16" "c = digit_char True d" using nibs_less [of _ b] by (auto simp: hx_def)
  then show ?thesis using digit_char_value [of d True] by (auto simp: isxdigit_iff)
qed

lemma length_hx [simp]: "length (hx b) = 2"
  by (simp add: hx_def nibs_def)

lemma hex_byte: "replicate (2 - length (hex (ucast b))) CHR ''0'' @ hex (ucast b) = hx b"
proof -
  have u: "unat (ucast b :: u32) = unat b"
    using unat_u8_less [of b] by (simp add: unsigned_ucast_eq take_bit_nat_eq_self)
  show ?thesis
  proof (cases "unat b < 16")
    case True
    then have "nat_digits 16 (unat b) = [unat b]" by (subst nat_digits.simps) simp
    then show ?thesis using True by (simp add: hex_def u hx_def nibs_def digit_char_zero)
  next
    case False
    moreover have "unat b div 16 < 16" using unat_u8_less [of b] by auto
    ultimately have "nat_digits 16 (unat b) = [unat b mod 16, unat b div 16]"
      by (subst nat_digits.simps, subst nat_digits.simps) simp
    then show ?thesis by (simp add: hex_def u hx_def nibs_def)
  qed
qed

lemma sprintf_byte: "sprintf m ''%02x'' [VInt (ucast b)] = Some (hx b @ [NUL])"
proof -
  have n: "number (ucast n) 16 2 (-1) (no_flags\<lparr>ZEROPAD := True, SMALL := True\<rparr>) = replicate (2 - length (hex n)) CHR ''0'' @ hex n" for n
    by (simp add: number_unsigned no_flags_def number_tmp_digits unat_ucast_u64 hex_def Let_def nat_diff_distrib')
  have "vsn_loop m ''%02x'' ([], [VInt (ucast b)], []) = Some (hx b, [], [])"
    using n [of "ucast b"] hex_byte [of b] by (simp add: vsn_x_defs)
  then show ?thesis by (simp add: sprintf_def vsnprintf_def INT_MAX_def)
qed

lemma cstr_hx [simp]: "cstr (hx b @ NUL # t) = hx b"
proof -
  have "NUL \<notin> set (hx b)" using hx_xdigit [of NUL b] by auto
  then show ?thesis by (rule cstr_append_NUL)
qed

lemma uuid_print_step:
  "uuid_print m b i (k # ks) = map_option (\<lambda>r. hx (b ! k) @ (if i \<in> {3, 5, 7, 9} then ''-'' else []) @ r) (uuid_print m b (i + 1) ks)"
  by (simp add: sprintf_byte)

definition hxs :: "u8 list \<Rightarrow> char list" where
  "hxs bs = concat (map hx bs)"

definition beval :: "u8 list \<Rightarrow> nat" where
  "beval bs = foldl (\<lambda>a b. a * 256 + unat b) 0 bs"

lemma digits_nibs: "digits_value 16 acc (concat (map nibs bs)) = foldl (\<lambda>a b. a * 256 + unat b) acc bs"
proof (induction bs arbitrary: acc)
  case (Cons b bs)
  have "(acc * 16 + unat b div 16) * 16 + unat b mod 16 = acc * 256 + unat b" by simp
  then show ?case using Cons by (simp add: nibs_def add.commute mult.commute)
qed simp

lemma hxs_digits: "hxs bs = map (digit_char True) (concat (map nibs bs))"
  by (induction bs) (simp_all add: hxs_def hx_def)

lemma simple_strtoull_digits:
  assumes "ds \<noteq> []" "\<forall>d \<in> set ds. d < 16" "\<not> isxdigit (peek rest)" "peek rest \<noteq> CHR ''x''"
  shows "simple_strtoull (map (digit_char small) ds @ rest) 16 = (of_nat (digits_value 16 0 ds), rest)"
proof -
  have "digits_value 16 0 (if hd ds = 0 then tl ds else ds) = digits_value 16 0 ds"
    using assms(1) by (cases ds) auto
  moreover have "\<forall>d \<in> set (if hd ds = 0 then tl ds else ds). d < 16"
    using assms(1,2) by (cases ds) auto
  moreover have "strtoul_prefix (map (digit_char small) ds @ rest) 16
       = (map (digit_char small) (if hd ds = 0 then tl ds else ds) @ rest, 16)"
    using assms by (intro strtoul_prefix_digits) auto
  ultimately show ?thesis
    using strtoul_loop_digits [OF _ _ assms(3), of "if hd ds = 0 then tl ds else ds" 16 small 0]
    by (simp add: simple_strtoull_def del: if_split)
qed

lemma simple_strtoul_hxs:
  assumes "bs \<noteq> []" "\<not> isxdigit (peek rest)" "peek rest \<noteq> CHR ''x''"
  shows "fst (simple_strtoul (hxs bs @ rest) 16) = of_nat (beval bs)" "fst (simple_strtoull (hxs bs @ rest) 16) = of_nat (beval bs)"
proof -
  have ds: "concat (map nibs bs) \<noteq> []" "\<forall>d \<in> set (concat (map nibs bs)). d < 16"
    using assms(1) by (cases bs, simp, simp add: nibs_def) (auto intro: nibs_less)
  show "fst (simple_strtoul (hxs bs @ rest) 16) = of_nat (beval bs)"
    using simple_strtoul_digits [OF ds _ order.refl assms(2,3), of True]
    unfolding hxs_digits beval_def digits_nibs by simp
  show "fst (simple_strtoull (hxs bs @ rest) 16) = of_nat (beval bs)"
    unfolding hxs_digits simple_strtoull_digits [OF ds assms(2,3)] beval_def digits_nibs by simp
qed

lemma high_bit: "8 \<le> n \<Longrightarrow> \<not> bit (b :: u8) n"
  using bit_imp_le_length [of b n] by auto

lemma be_step: "(of_nat (n * 256 + unat (b :: u8)) :: 'a::len word) = push_bit 8 (of_nat n) OR ucast b"
proof -
  have "push_bit 8 (of_nat n :: 'a word) AND ucast b = 0"
    by (rule bit_eqI) (auto simp: bit_simps high_bit)
  then have "push_bit 8 (of_nat n :: 'a word) + ucast b = push_bit 8 (of_nat n) OR ucast b"
    by (rule disjunctive_add_eq_or)
  moreover have "(of_nat (unat b) :: 'a word) = ucast b" by (simp add: unsigned_ucast_eq)
  ultimately show ?thesis by (simp add: push_bit_eq_mult mult.commute)
qed

lemma beval_snoc: "(of_nat (beval (bs @ [b])) :: 'a::len word) = push_bit 8 (of_nat (beval bs)) OR ucast b" "beval [] = 0"
  using be_step [of "beval bs" b] by (simp_all add: beval_def)

lemma beval_4: "(of_nat (beval [a, b, c, d]) :: 'a::len word) =
    push_bit 8 (push_bit 8 (push_bit 8 (ucast a) OR ucast b) OR ucast c) OR ucast d"
  using beval_snoc(1) [of "[a, b, c]" d, where 'a = 'a] beval_snoc(1) [of "[a, b]" c, where 'a = 'a]
    beval_snoc(1) [of "[a]" b, where 'a = 'a] beval_snoc(1) [of "[]" a, where 'a = 'a] by (simp add: beval_snoc(2))

lemma beval_le32: "le32_bytes (of_nat (beval [a, b, c, d])) = [d, c, b, a]"
proof -
  have "of_nat (beval [a, b, c, d]) = le32_of [d, c, b, a]"
    unfolding beval_4 by (rule bit_eqI) (auto simp: le32_of_def bit_simps high_bit)
  then show ?thesis by (simp add: le32_bytes_of)
qed

lemma beval_be16: "be16_bytes (ucast (of_nat (beval [a, b]) :: u32)) = [a, b]"
proof -
  have e: "(of_nat (beval [a, b]) :: u32) = push_bit 8 (ucast a) OR ucast b"
    using beval_snoc(1) [of "[a]" b, where 'a = 32] beval_snoc(1) [of "[]" a, where 'a = 32] by (simp add: beval_snoc(2))
  have "ucast (drop_bit 8 (ucast (push_bit 8 (ucast a) OR ucast b :: u32) :: u16)) = a"
    "ucast (ucast (push_bit 8 (ucast a) OR ucast b :: u32) :: u16) = b"
    by (rule bit_eqI, auto simp: bit_simps high_bit)+
  then show ?thesis unfolding be16_bytes_def e by simp
qed

lemma beval_be64: "drop 2 (be64_bytes (of_nat (beval [a, b, c, d, e, f]))) = [a, b, c, d, e, f]"
proof -
  have w: "(of_nat (beval [a, b, c, d, e, f]) :: u64) =
      push_bit 8 (push_bit 8 (push_bit 8 (push_bit 8 (push_bit 8 (ucast a) OR ucast b) OR ucast c) OR ucast d) OR ucast e) OR ucast f"
    using beval_snoc(1) [of "[a, b, c, d, e]" f, where 'a = 64] beval_snoc(1) [of "[a, b, c, d]" e, where 'a = 64]
      beval_4 [of a b c d, where 'a = 64] by simp
  let ?w = "of_nat (beval [a, b, c, d, e, f]) :: u64"
  have "ucast (drop_bit 40 ?w) = a" "ucast (drop_bit 32 ?w) = b" "ucast (drop_bit 24 ?w) = c"
    "ucast (drop_bit 16 ?w) = d" "ucast (drop_bit 8 ?w) = e" "ucast ?w = f"
    unfolding w by (rule bit_eqI, auto simp: bit_simps high_bit)+
  then show ?thesis by (simp add: be64_bytes_def)
qed

section \<open>The text\<close>

definition uuid_text :: "u8 list \<Rightarrow> char list" where
  "uuid_text c = hxs (take 4 c) @ ''-'' @ hxs (take 2 (drop 4 c)) @ ''-'' @ hxs (take 2 (drop 6 c)) @ ''-''
     @ hxs (take 2 (drop 8 c)) @ ''-'' @ hxs (drop 10 c)"

lemma length_hxs [simp]: "length (hxs bs) = 2 * length bs"
  by (induction bs) (simp_all add: hxs_def)

lemma uuid_scan_hex:
  "\<forall>c \<in> set xs. isxdigit c \<and> c \<noteq> NUL \<Longrightarrow> \<forall>k \<in> {i..<i + length xs}. k \<notin> {8, 13, 18, 23} \<Longrightarrow>
    uuid_scan i (xs @ t) = uuid_scan (i + length xs) t"
proof (induction xs arbitrary: i)
  case (Cons c xs)
  then have "i \<notin> {8, 13, 18, 23}" "isxdigit c" "c \<noteq> NUL" by auto
  moreover have "uuid_scan (i + 1) (xs @ t) = uuid_scan (i + 1 + length xs) t"
    using Cons.prems by (intro Cons.IH) auto
  ultimately show ?case by simp
qed simp

lemma hxs_xdigit: "\<forall>c \<in> set (hxs bs). isxdigit c \<and> c \<noteq> NUL"
  using hx_xdigit by (auto simp: hxs_def)

lemma uuid_scan_hxs:
  "length bs = n \<Longrightarrow> \<forall>k \<in> {8, 13, 18, 23}. k < i \<or> i + 2 * n \<le> k \<Longrightarrow> uuid_scan i (hxs bs @ t) = uuid_scan (i + 2 * n) t"
  using uuid_scan_hex [OF hxs_xdigit, of i bs t] by auto

lemma uuid_text_valid: "length c = 16 \<Longrightarrow> uuid_str_valid (uuid_text c)"
  using uuid_scan_hxs [of "drop 10 c" 6 24 "[]"]
  by (simp add: uuid_str_valid_def uuid_text_def UUID_STR_LEN_def uuid_scan_hxs [of _ 4 0] uuid_scan_hxs [of _ 2 9]
      uuid_scan_hxs [of _ 2 14] uuid_scan_hxs [of _ 2 19])

lemma no_digit: "\<not> isxdigit CHR ''-''" "\<not> isxdigit NUL"
  by (simp_all add: isxdigit_iff)

lemma uuid_text_bin:
  assumes "length c = 16"
  shows "uuid_str_to_bin (uuid_text c) UUID_STR_FORMAT_STD = Some c"
    "uuid_str_to_bin (uuid_text c) UUID_STR_FORMAT_GUID =
       Some (rev (take 4 c) @ rev (take 2 (drop 4 c)) @ rev (take 2 (drop 6 c)) @ drop 8 c)"
proof -
  obtain c0 c1 c2 c3 c4 c5 c6 c7 c8 c9 c10 c11 c12 c13 c14 c15 where
    c: "c = [c0, c1, c2, c3, c4, c5, c6, c7, c8, c9, c10, c11, c12, c13, c14, c15]"
    using assms by (auto simp: length_Suc_conv numeral_eq_Suc)
  have t: "fst (simple_strtoul (uuid_text c) 16) = of_nat (beval [c0, c1, c2, c3])"
    "fst (simple_strtoul (drop 9 (uuid_text c)) 16) = of_nat (beval [c4, c5])"
    "fst (simple_strtoul (drop 14 (uuid_text c)) 16) = of_nat (beval [c6, c7])"
    "fst (simple_strtoul (drop 19 (uuid_text c)) 16) = of_nat (beval [c8, c9])"
    "fst (simple_strtoull (drop 24 (uuid_text c)) 16) = of_nat (beval [c10, c11, c12, c13, c14, c15])"
    using simple_strtoul_hxs(2) [of "[c10, c11, c12, c13, c14, c15]" "[]"]
    by (simp_all add: uuid_text_def c simple_strtoul_hxs no_digit)
  show "uuid_str_to_bin (uuid_text c) UUID_STR_FORMAT_STD = Some c"
    "uuid_str_to_bin (uuid_text c) UUID_STR_FORMAT_GUID =
       Some (rev (take 4 c) @ rev (take 2 (drop 4 c)) @ rev (take 2 (drop 6 c)) @ drop 8 c)"
    by (simp_all add: uuid_str_to_bin_def uuid_text_valid [OF assms] t beval_le32 beval_be16 beval_be64) (simp_all add: c)
qed

lemma uuid_bin_text:
  assumes "length b = 16"
  shows "uuid_bin_to_str m b fmt = Some (uuid_text (map (\<lambda>k. b ! k) (char_order fmt)))"
  by (cases fmt) (simp_all add: uuid_bin_to_str_def char_order_def uuid_print_step uuid_text_def hxs_def del: uuid_print.simps(2))

text \<open>
  C31: Identifiers survive printing and parsing: every 16 bytes print, in both formats, as a text of
  36 characters that is accepted and parsed back to the same bytes.
\<close>

theorem uuid_roundtrip:
  assumes "length b = 16"
  shows "\<exists>s. uuid_bin_to_str m b fmt = Some s \<and> length s = UUID_STR_LEN \<and> uuid_str_to_bin s fmt = Some b"
proof -
  let ?c = "map (\<lambda>k. b ! k) (char_order fmt)"
  have len: "length ?c = 16" by (cases fmt) (simp_all add: char_order_def)
  have "length (uuid_text ?c) = UUID_STR_LEN" using len by (simp add: uuid_text_def UUID_STR_LEN_def)
  moreover have "uuid_str_to_bin (uuid_text ?c) fmt = Some b"
    using uuid_text_bin [OF len] assms
    by (cases fmt) (auto simp: char_order_def length_Suc_conv numeral_eq_Suc)
  ultimately show ?thesis using uuid_bin_text [OF assms] by simp
qed

theorem uuid_roundtrip_witness:
  "\<exists>s. uuid_bin_to_str (\<lambda>_. 0) (map of_nat [0..<16]) UUID_STR_FORMAT_GUID = Some s \<and> length s = UUID_STR_LEN
     \<and> uuid_str_to_bin s UUID_STR_FORMAT_GUID = Some (map of_nat [0..<16])"
  by (rule uuid_roundtrip) simp

end
