(* ===== verification/Byte_Fields.thy ===== *)
theory Byte_Fields
  imports C_Memory
begin

text \<open>
  Fields of packed little-endian structures in a byte buffer (\<open>__le32\<close>, \<open>__le64\<close> and byte arrays
  at fixed offsets): reading and writing them, and that writes to disjoint fields do not interfere.
\<close>

definition get_bytes :: "nat \<Rightarrow> nat \<Rightarrow> u8 list \<Rightarrow> u8 list" where
  "get_bytes off n b = take n (drop off b)"

definition put_bytes :: "nat \<Rightarrow> u8 list \<Rightarrow> u8 list \<Rightarrow> u8 list" where
  "put_bytes off v b = take off b @ v @ drop (off + length v) b"

definition le64_bytes :: "u64 \<Rightarrow> u8 list" where
  "le64_bytes w = le32_bytes (ucast w) @ le32_bytes (ucast (drop_bit 32 w))"

definition le64_of :: "u8 list \<Rightarrow> u64" where
  "le64_of bs = ucast (le32_of (take 4 bs)) OR push_bit 32 (ucast (le32_of (drop 4 bs)))"

definition rd32 :: "nat \<Rightarrow> u8 list \<Rightarrow> u32" where "rd32 off b = le32_of (get_bytes off 4 b)"

definition rd64 :: "nat \<Rightarrow> u8 list \<Rightarrow> u64" where "rd64 off b = le64_of (get_bytes off 8 b)"

definition wr32 :: "nat \<Rightarrow> u32 \<Rightarrow> u8 list \<Rightarrow> u8 list" where "wr32 off w b = put_bytes off (le32_bytes w) b"

definition wr64 :: "nat \<Rightarrow> u64 \<Rightarrow> u8 list \<Rightarrow> u8 list" where "wr64 off w b = put_bytes off (le64_bytes w) b"

lemma length_le64_bytes [simp]: "length (le64_bytes w) = 8"
  by (simp add: le64_bytes_def)

lemma le64_of_bytes [simp]: "le64_of (le64_bytes w) = w"
proof -
  have "le64_of (le64_bytes w) = ucast (ucast w :: u32) OR push_bit 32 (ucast (ucast (drop_bit 32 w) :: u32))"
    by (simp add: le64_of_def le64_bytes_def le32_of_bytes)
  also have "\<dots> = w"
  proof (rule bit_eqI)
    fix n
    show "bit (ucast (ucast w :: u32) OR push_bit 32 (ucast (ucast (drop_bit 32 w) :: u32)) :: u64) n = bit w n"
      using bit_imp_le_length [of w n] by (cases "n < 32") (auto simp: bit_simps)
  qed
  finally show ?thesis .
qed

lemma length_put_bytes [simp]: "off + length v \<le> length b \<Longrightarrow> length (put_bytes off v b) = length b"
  by (simp add: put_bytes_def)

lemma length_get_bytes: "off + n \<le> length b \<Longrightarrow> length (get_bytes off n b) = n"
  by (simp add: get_bytes_def)

lemma nth_put_bytes:
  assumes "off + length v \<le> length b" "i < length b"
  shows "put_bytes off v b ! i = (if off \<le> i \<and> i < off + length v then v ! (i - off) else b ! i)"
  using assms by (auto simp: put_bytes_def nth_append min_def)

lemma get_put_same: "off + length v \<le> length b \<Longrightarrow> n = length v \<Longrightarrow> get_bytes off n (put_bytes off v b) = v"
  by (simp add: get_bytes_def put_bytes_def)

lemma get_put_inside:
  assumes "off' + length v \<le> length b" "off' \<le> off" "off + n \<le> off' + length v"
  shows "get_bytes off n (put_bytes off' v b) = get_bytes (off - off') n v"
  using assms by (intro nth_equalityI) (auto simp: get_bytes_def nth_put_bytes)

lemma get_put_other:
  assumes "off' + length v \<le> length b" "off + n \<le> off' \<or> off' + length v \<le> off"
  shows "get_bytes off n (put_bytes off' v b) = get_bytes off n b"
  using assms by (intro nth_equalityI) (auto simp: get_bytes_def nth_put_bytes)

lemma length_wr [simp]:
  "off + 4 \<le> length b \<Longrightarrow> length (wr32 off w b) = length b"
  "off + 8 \<le> length b \<Longrightarrow> length (wr64 off x b) = length b"
  by (simp_all add: wr32_def wr64_def)

lemma rd_wr_same [simp]:
  "off + 4 \<le> length b \<Longrightarrow> rd32 off (wr32 off w b) = w"
  "off + 8 \<le> length b \<Longrightarrow> rd64 off (wr64 off x b) = x"
  by (simp_all add: rd32_def rd64_def wr32_def wr64_def get_put_same le32_of_bytes)

lemma rd_wr_other [simp]:
  "off' + 4 \<le> length b \<Longrightarrow> off + 4 \<le> off' \<or> off' + 4 \<le> off \<Longrightarrow> rd32 off (wr32 off' w b) = rd32 off b"
  "off' + 8 \<le> length b \<Longrightarrow> off + 4 \<le> off' \<or> off' + 8 \<le> off \<Longrightarrow> rd32 off (wr64 off' x b) = rd32 off b"
  "off' + 4 \<le> length b \<Longrightarrow> off + 8 \<le> off' \<or> off' + 4 \<le> off \<Longrightarrow> rd64 off (wr32 off' w b) = rd64 off b"
  "off' + 8 \<le> length b \<Longrightarrow> off + 8 \<le> off' \<or> off' + 8 \<le> off \<Longrightarrow> rd64 off (wr64 off' x b) = rd64 off b"
  by (simp_all add: rd32_def rd64_def wr32_def wr64_def get_put_other)

lemma rd_put_other [simp]:
  "off' + length v \<le> length b \<Longrightarrow> off + 4 \<le> off' \<or> off' + length v \<le> off \<Longrightarrow> rd32 off (put_bytes off' v b) = rd32 off b"
  "off' + length v \<le> length b \<Longrightarrow> off + 8 \<le> off' \<or> off' + length v \<le> off \<Longrightarrow> rd64 off (put_bytes off' v b) = rd64 off b"
  by (simp_all add: rd32_def rd64_def get_put_other)

text \<open>Writing a field twice, and writing back what it holds.\<close>

lemma wr32_wr32 [simp]: "off + 4 \<le> length b \<Longrightarrow> wr32 off w (wr32 off x b) = wr32 off w b"
  by (rule nth_equalityI) (simp_all add: wr32_def nth_put_bytes)

end
