(* ===== verification/Gpt.thy ===== *)
theory Gpt
  imports Uuid Byte_Fields C_Crc Blk_Cache Fb_Ptable
begin

text \<open>
  GUID partition tables (\<^verbatim>\<open>disk/part_efi.c\<close>, \<^verbatim>\<open>include/part_efi.h\<close>) on an MMC card through the block
  cache, in a build without type GUIDs. Structures are the bytes of their buffers, with the fields at
  the offsets of the packed declarations. \<open>gpt_cfg\<close> names the device, whether partition UUIDs are
  built in, and what an allocation of a size answers. \<open>None\<close> stands for an access outside of a buffer.
\<close>

section \<open>Reading a table\<close>

record gpt_cfg =
  gdev :: int
  uuids :: bool
  galloc :: "u32 \<Rightarrow> bool"
  gram :: mem

type_synonym 'c gdev_state = "'c mmc \<times> block_cache"

definition gread :: "gpt_cfg \<Rightarrow> lbaint \<Rightarrow> lbaint \<Rightarrow> 'c gdev_state \<Rightarrow> (ulong \<times> u8 list \<times> 'c gdev_state) option" where
  "gread cfg = blk_dread 6 (gdev cfg) read_bl_len mmc_bread"

definition gwrite :: "gpt_cfg \<Rightarrow> lbaint \<Rightarrow> lbaint \<Rightarrow> u8 list \<Rightarrow> 'c gdev_state \<Rightarrow> (ulong \<times> 'c gdev_state) option" where
  "gwrite cfg = blk_dwrite 6 (gdev cfg) mmc_bwrite"

definition blksz :: "'c gdev_state \<Rightarrow> u32" where "blksz d = read_bl_len (fst d)"

definition BLOCK_CNT :: "u32 \<Rightarrow> 'c gdev_state \<Rightarrow> u32" where "BLOCK_CNT sz d = (sz - 1) div blksz d + 1"

definition GPT_HEADER_SIGNATURE :: u64 where "GPT_HEADER_SIGNATURE = 0x5452415020494645"
definition GPT_HEADER_REVISION_V1 :: u32 where "GPT_HEADER_REVISION_V1 = 0x00010000"
definition GPT_ENTRY_NUMBERS :: nat where "GPT_ENTRY_NUMBERS = 128"
definition MSDOS_MBR_SIGNATURE :: "u8 list" where "MSDOS_MBR_SIGNATURE = [0x55, 0xAA]"
definition EFI_PMBR_OSTYPE_EFI_GPT :: u8 where "EFI_PMBR_OSTYPE_EFI_GPT = 0xEE"
definition PARTNAME_SZ :: nat where "PARTNAME_SZ = 36"

definition PARTITION_SYSTEM_GUID :: "u8 list" where
  "PARTITION_SYSTEM_GUID = [0x28, 0x73, 0x2A, 0xC1, 0x1F, 0xF8, 0xD2, 0x11, 0xBA, 0x4B, 0x00, 0xA0, 0xC9, 0x3E, 0xC9, 0x3B]"

definition PARTITION_BASIC_DATA_GUID :: "u8 list" where
  "PARTITION_BASIC_DATA_GUID = [0xA2, 0xA0, 0xD0, 0xEB, 0xE5, 0xB9, 0x33, 0x44, 0x87, 0xC0, 0x68, 0xB6, 0xB7, 0x26, 0x99, 0xC7]"

text \<open>\<open>gpt_header\<close>: 92 bytes, in a buffer of whole blocks.\<close>

definition h_header_size :: "u8 list \<Rightarrow> u32" where "h_header_size = rd32 12"
definition h_header_crc32 :: "u8 list \<Rightarrow> u32" where "h_header_crc32 = rd32 16"
definition h_my_lba :: "u8 list \<Rightarrow> u64" where "h_my_lba = rd64 24"
definition h_alternate_lba :: "u8 list \<Rightarrow> u64" where "h_alternate_lba = rd64 32"
definition h_first_usable_lba :: "u8 list \<Rightarrow> u64" where "h_first_usable_lba = rd64 40"
definition h_last_usable_lba :: "u8 list \<Rightarrow> u64" where "h_last_usable_lba = rd64 48"
definition h_partition_entry_lba :: "u8 list \<Rightarrow> u64" where "h_partition_entry_lba = rd64 72"
definition h_num_partition_entries :: "u8 list \<Rightarrow> u32" where "h_num_partition_entries = rd32 80"
definition h_sizeof_partition_entry :: "u8 list \<Rightarrow> u32" where "h_sizeof_partition_entry = rd32 84"
definition h_partition_entry_array_crc32 :: "u8 list \<Rightarrow> u32" where "h_partition_entry_array_crc32 = rd32 88"

lemmas header_fields = h_header_size_def h_header_crc32_def h_my_lba_def h_alternate_lba_def h_first_usable_lba_def
  h_last_usable_lba_def h_partition_entry_lba_def h_num_partition_entries_def h_sizeof_partition_entry_def
  h_partition_entry_array_crc32_def

definition efi_crc32 :: "u8 list \<Rightarrow> u32" where "efi_crc32 bs = crc32 0 0 bs"

definition validate_gpt_header :: "u8 list \<Rightarrow> lbaint \<Rightarrow> lbaint \<Rightarrow> bool option" where
  "validate_gpt_header gpt_h hlba lastlba =
     (if rd64 0 gpt_h \<noteq> GPT_HEADER_SIGNATURE then Some False
      else if length gpt_h < unat (h_header_size gpt_h) then None
      else
        let calc_crc32 = efi_crc32 (take (unat (h_header_size gpt_h)) (wr32 16 0 gpt_h)) in
        Some (calc_crc32 = h_header_crc32 gpt_h \<and> h_my_lba gpt_h = ucast hlba
          \<and> h_first_usable_lba gpt_h \<le> ucast lastlba \<and> h_last_usable_lba gpt_h \<le> ucast lastlba))"

definition entries_size :: "u8 list \<Rightarrow> u32" where
  "entries_size gpt_h = h_num_partition_entries gpt_h * h_sizeof_partition_entry gpt_h"

definition validate_gpt_entries :: "u8 list \<Rightarrow> u8 list \<Rightarrow> bool option" where
  "validate_gpt_entries gpt_h gpt_e =
     (if length gpt_e < unat (entries_size gpt_h) then None
      else Some (efi_crc32 (take (unat (entries_size gpt_h)) gpt_e) = h_partition_entry_array_crc32 gpt_h))"

text \<open>The entries, \<open>None\<close> inside for a null pointer.\<close>

definition alloc_read_gpt_entries ::
  "gpt_cfg \<Rightarrow> u8 list \<Rightarrow> 'c gdev_state \<Rightarrow> (u8 list option \<times> 'c gdev_state) option" where
  "alloc_read_gpt_entries cfg pgpt_head d =
     (let count = entries_size pgpt_head; blk_cnt = BLOCK_CNT count d in
      if count = 0 \<or> \<not> galloc cfg (blk_cnt * blksz d) then Some (None, d)
      else
        case gread cfg (ucast (h_partition_entry_lba pgpt_head)) blk_cnt d of
          None \<Rightarrow> None
        | Some (n, pte, d) \<Rightarrow> Some (if n \<noteq> blk_cnt then None else Some pte, d))"

definition is_gpt_valid ::
  "gpt_cfg \<Rightarrow> lbaint \<Rightarrow> 'c gdev_state \<Rightarrow> ((u8 list \<times> u8 list) option \<times> 'c gdev_state) option" where
  "is_gpt_valid cfg hlba d =
     (case gread cfg hlba 1 d of
        None \<Rightarrow> None
      | Some (n, pgpt_head, d) \<Rightarrow>
          if n \<noteq> 1 then Some (None, d)
          else
            case validate_gpt_header pgpt_head hlba (lba (fst d)) of
              None \<Rightarrow> None
            | Some False \<Rightarrow> Some (None, d)
            | Some True \<Rightarrow>
                (case alloc_read_gpt_entries cfg pgpt_head d of
                   None \<Rightarrow> None
                 | Some (None, d) \<Rightarrow> Some (None, d)
                 | Some (Some pte, d) \<Rightarrow>
                     (case validate_gpt_entries pgpt_head pte of
                        None \<Rightarrow> None
                      | Some ok \<Rightarrow> Some (if ok then Some (pgpt_head, pte) else None, d))))"

text \<open>\<open>gpt_entry\<close>: 128 bytes.\<close>

definition gpt_entry :: "u8 list \<Rightarrow> nat \<Rightarrow> u8 list" where "gpt_entry pte i = get_bytes (128 * i) 128 pte"

definition is_pte_valid :: "u8 list \<Rightarrow> bool" where
  "is_pte_valid pte = (get_bytes 0 16 pte \<noteq> replicate 16 0)"

definition isprint :: "char \<Rightarrow> bool" where
  "isprint c = ismask c (P_FL OR U_FL OR L_FL OR D_FL OR SP_FL)"

definition print_efiname :: "u8 list \<Rightarrow> char list" where
  "print_efiname pte =
     map (\<lambda>i. let c = char_of_byte (pte ! (56 + 2 * i)) in if c \<noteq> NUL \<and> \<not> isprint c then CHR ''.'' else c) [0..<PARTNAME_SZ]
     @ [NUL]"

definition is_bootable :: "u8 list \<Rightarrow> bool" where
  "is_bootable p = (bit (rd64 48 p) 2 \<or> get_bytes 0 16 p = PARTITION_SYSTEM_GUID)"

record efi_info = disk_partition +
  itype :: "char list"
  ibootable :: bool
  iuuid :: "char list"

text \<open>The first valid table of the primary and the backup one.\<close>

definition find_gpt :: "gpt_cfg \<Rightarrow> 'c gdev_state \<Rightarrow> ((u8 list \<times> u8 list) option \<times> 'c gdev_state) option" where
  "find_gpt cfg d =
     (case is_gpt_valid cfg 1 d of
        None \<Rightarrow> None
      | Some (Some t, d) \<Rightarrow> Some (Some t, d)
      | Some (None, d) \<Rightarrow> is_gpt_valid cfg (lba (fst d) - 1) d)"

definition efi_info_of :: "gpt_cfg \<Rightarrow> u32 \<Rightarrow> u8 list \<Rightarrow> efi_info option" where
  "efi_info_of cfg bsz e =
     (let start = ucast (rd64 32 e); name = cstr (print_efiname e) in
      if 32 \<le> length name then None
      else
        case (if uuids cfg then uuid_bin_to_str (gram cfg) (get_bytes 16 16 e) UUID_STR_FORMAT_GUID else Some []) of
          None \<Rightarrow> None
        | Some u \<Rightarrow>
            Some \<lparr>istart = start, isize = ucast (rd64 40 e) + 1 - start, iblksz = bsz, iname = name,
              itype = ''U-Boot'', ibootable = is_bootable e, iuuid = u\<rparr>)"

text \<open>\<open>None\<close> inside is the return -1.\<close>

definition part_get_info_efi :: "gpt_cfg \<Rightarrow> int \<Rightarrow> 'c gdev_state \<Rightarrow> (efi_info option \<times> 'c gdev_state) option" where
  "part_get_info_efi cfg part d =
     (if part < 1 then Some (None, d)
      else
        case find_gpt cfg d of
          None \<Rightarrow> None
        | Some (None, d) \<Rightarrow> Some (None, d)
        | Some (Some (gpt_head, gpt_pte), d) \<Rightarrow>
            if (of_int part :: u32) > h_num_partition_entries gpt_head then Some (None, d)
            else if length gpt_pte < 128 * nat part then None
            else
              let e = gpt_entry gpt_pte (nat part - 1) in
              if \<not> is_pte_valid e then Some (None, d)
              else map_option (\<lambda>info. (Some info, d)) (efi_info_of cfg (blksz d) e))"

definition pmbr_part_valid :: "u8 list \<Rightarrow> bool" where
  "pmbr_part_valid part = (part ! 4 = EFI_PMBR_OSTYPE_EFI_GPT \<and> rd32 8 part = 1)"

definition is_pmbr_valid :: "u8 list \<Rightarrow> bool" where
  "is_pmbr_valid mbr = (get_bytes 510 2 mbr = MSDOS_MBR_SIGNATURE \<and> (\<exists>i \<in> {0, 1, 2, 3 :: nat}. pmbr_part_valid (get_bytes (446 + 16 * i) 16 mbr)))"

definition part_test_efi :: "gpt_cfg \<Rightarrow> 'c gdev_state \<Rightarrow> (bool \<times> 'c gdev_state) option" where
  "part_test_efi cfg d =
     (case gread cfg 0 1 d of
        None \<Rightarrow> None
      | Some (n, legacymbr, d) \<Rightarrow> Some (n = 1 \<and> is_pmbr_valid legacymbr, d))"

section \<open>Writing a table\<close>

definition refresh_crc :: "u8 list \<Rightarrow> u8 list option" where
  "refresh_crc gpt_h =
     (if length gpt_h < unat (h_header_size gpt_h) then None
      else Some (wr32 16 (efi_crc32 (take (unat (h_header_size gpt_h)) gpt_h)) gpt_h))"

definition prepare_backup_gpt_header :: "u8 list \<Rightarrow> u8 list option" where
  "prepare_backup_gpt_header gpt_h =
     (let val = h_my_lba gpt_h;
          gpt_h = wr64 24 (h_alternate_lba gpt_h) gpt_h;
          gpt_h = wr64 32 val gpt_h;
          gpt_h = wr64 72 (h_last_usable_lba gpt_h + 1) gpt_h;
          gpt_h = wr32 16 0 gpt_h
      in refresh_crc gpt_h)"

definition prepare_last_lba_gpt_header :: "'c gdev_state \<Rightarrow> u8 list \<Rightarrow> u8 list option" where
  "prepare_last_lba_gpt_header d gpt_h =
     (let val = h_my_lba gpt_h;
          gpt_h = wr64 24 (ucast (lba (fst d) - 1)) gpt_h;
          gpt_h = wr64 32 val gpt_h;
          gpt_h = wr64 48 (ucast (lba (fst d) - 34)) gpt_h;
          gpt_h = wr64 72 (h_last_usable_lba gpt_h + 1) gpt_h;
          gpt_h = wr32 16 0 gpt_h
      in refresh_crc gpt_h)"

text \<open>The MBR is read to a structure of 512 bytes; \<open>None\<close> when the block is larger.\<close>

definition set_protective_mbr :: "gpt_cfg \<Rightarrow> 'c gdev_state \<Rightarrow> (int \<times> 'c gdev_state) option" where
  "set_protective_mbr cfg d =
     (if 512 < blksz d then None
      else
        case gread cfg 0 1 d of
          None \<Rightarrow> None
        | Some (n, p_mbr, d) \<Rightarrow>
            if n \<noteq> 1 then Some (-1, d)
            else
              let p_mbr = put_bytes 510 MSDOS_MBR_SIGNATURE p_mbr;
                  p_mbr = put_bytes 450 [EFI_PMBR_OSTYPE_EFI_GPT] p_mbr;
                  p_mbr = wr32 454 1 p_mbr;
                  p_mbr = wr32 458 (lba (fst d) - 1) p_mbr
              in map_option (\<lambda>(n, d). (if n \<noteq> 1 then -1 else 0, d)) (gwrite cfg 0 1 p_mbr d))"

text \<open>A write of whole blocks from a buffer, with the next step when all of them were written.\<close>

definition gwrite_then ::
  "gpt_cfg \<Rightarrow> lbaint \<Rightarrow> u32 \<Rightarrow> u8 list \<Rightarrow> ('c gdev_state \<Rightarrow> 'r) \<Rightarrow> ('c gdev_state \<Rightarrow> 'r option) \<Rightarrow> 'c gdev_state \<Rightarrow> 'r option" where
  "gwrite_then cfg start cnt buf err k d =
     (if length buf < unat cnt * unat (blksz d) then None
      else
        case gwrite cfg start cnt (take (unat cnt * unat (blksz d)) buf) d of
          None \<Rightarrow> None
        | Some (n, d) \<Rightarrow> if n \<noteq> cnt then Some (err d) else k d)"

definition write_gpt_table :: "gpt_cfg \<Rightarrow> u8 list \<Rightarrow> u8 list \<Rightarrow> 'c gdev_state \<Rightarrow> (int \<times> 'c gdev_state) option" where
  "write_gpt_table cfg gpt_h gpt_e d =
     (let pte_blk_cnt = BLOCK_CNT (h_num_partition_entries gpt_h * 128) d in
      case set_protective_mbr cfg d of
        None \<Rightarrow> None
      | Some (r, d) \<Rightarrow>
          if r < 0 then Some (-1, d)
          else if length gpt_e < unat (entries_size gpt_h) then None
          else
            let gpt_h = wr32 88 (efi_crc32 (take (unat (entries_size gpt_h)) gpt_e)) gpt_h in
            case refresh_crc gpt_h of
              None \<Rightarrow> None
            | Some gpt_h \<Rightarrow>
                gwrite_then cfg 1 1 gpt_h (\<lambda>d. (-1, d)) (\<lambda>d.
                gwrite_then cfg 2 pte_blk_cnt gpt_e (\<lambda>d. (-1, d)) (\<lambda>d.
                  case prepare_backup_gpt_header gpt_h of
                    None \<Rightarrow> None
                  | Some gpt_h \<Rightarrow>
                      gwrite_then cfg (ucast (h_last_usable_lba gpt_h) + 1) pte_blk_cnt gpt_e (\<lambda>d. (-1, d)) (\<lambda>d.
                      gwrite_then cfg (ucast (h_my_lba gpt_h)) 1 gpt_h (\<lambda>d. (-1, d)) (\<lambda>d. Some (0, d)) d) d) d) d)"

text \<open>A partition as it is given to the writer; its name is the array of 32 bytes.\<close>

record gpt_part =
  gp_start :: lbaint
  gp_size :: lbaint
  gp_name :: "u8 list"
  gp_bootable :: bool
  gp_uuid :: "char list"

definition gpt_entry_bytes :: "u64 \<Rightarrow> u64 \<Rightarrow> u8 list \<Rightarrow> gpt_part \<Rightarrow> u8 list" where
  "gpt_entry_bytes starting ending unique p =
     PARTITION_BASIC_DATA_GUID @ unique @ le64_bytes starting @ le64_bytes ending
     @ le64_bytes (if gp_bootable p then 4 else 0)
     @ concat (map (\<lambda>c. [c, 0]) (take 32 (gp_name p))) @ replicate 8 0"

text \<open>\<open>Inl\<close> is the return -1; entry \<open>i\<close> is written, with the unique GUID it had when UUIDs are not built in.\<close>

primrec gpt_fill_loop ::
  "gpt_cfg \<Rightarrow> u8 list \<Rightarrow> gpt_part list \<Rightarrow> nat \<Rightarrow> lbaint \<Rightarrow> u8 list \<Rightarrow> (int + u8 list) option" where
  "gpt_fill_loop cfg gpt_h [] i offset gpt_e = Some (Inr gpt_e)"
| "gpt_fill_loop cfg gpt_h (p # ps) i offset gpt_e =
     (let start = gp_start p in
      if start \<noteq> 0 \<and> start < offset then Some (Inl (-1))
      else if length gpt_e < 128 * (i + 1) then None
      else
        let starting = (if start \<noteq> 0 then start else offset); offset = starting + gp_size p in
        if offset > ucast (h_last_usable_lba gpt_h) + 1 then Some (Inl (-1))
        else
          let ending = (if ps = [] \<and> gp_size p = 0 then h_last_usable_lba gpt_h else ucast (offset - 1)) in
          case (if uuids cfg then uuid_str_to_bin (gp_uuid p) UUID_STR_FORMAT_STD else Some (get_bytes (128 * i + 16) 16 gpt_e)) of
            None \<Rightarrow> Some (Inl (-1))
          | Some unique \<Rightarrow> gpt_fill_loop cfg gpt_h ps (i + 1) offset (put_bytes (128 * i) (gpt_entry_bytes (ucast starting) ending unique p) gpt_e))"

definition gpt_fill_pte :: "gpt_cfg \<Rightarrow> u8 list \<Rightarrow> u8 list \<Rightarrow> gpt_part list \<Rightarrow> (int + u8 list) option" where
  "gpt_fill_pte cfg gpt_h gpt_e partitions =
     gpt_fill_loop cfg gpt_h partitions 0 (ucast (h_first_usable_lba gpt_h)) gpt_e"

definition gpt_fill_header :: "char list \<Rightarrow> 'c gdev_state \<Rightarrow> u8 list \<Rightarrow> (int + u8 list)" where
  "gpt_fill_header str_guid d gpt_h =
     (let gpt_h = wr64 0 GPT_HEADER_SIGNATURE gpt_h;
          gpt_h = wr32 8 GPT_HEADER_REVISION_V1 gpt_h;
          gpt_h = wr32 12 92 gpt_h;
          gpt_h = wr64 24 1 gpt_h;
          gpt_h = wr64 32 (ucast (lba (fst d) - 1)) gpt_h;
          gpt_h = wr64 40 34 gpt_h;
          gpt_h = wr64 48 (ucast (lba (fst d) - 34)) gpt_h;
          gpt_h = wr64 72 2 gpt_h;
          gpt_h = wr32 80 (of_nat GPT_ENTRY_NUMBERS) gpt_h;
          gpt_h = wr32 84 128 gpt_h;
          gpt_h = wr32 16 0 gpt_h;
          gpt_h = wr32 88 0 gpt_h
      in case uuid_str_to_bin str_guid UUID_STR_FORMAT_GUID of
           None \<Rightarrow> Inl (-1)
         | Some disk_guid \<Rightarrow> Inr (put_bytes 56 disk_guid gpt_h))"

definition gpt_restore :: "gpt_cfg \<Rightarrow> char list \<Rightarrow> gpt_part list \<Rightarrow> 'c gdev_state \<Rightarrow> (int \<times> 'c gdev_state) option" where
  "gpt_restore cfg str_disk_guid partitions d =
     (let hsize = BLOCK_CNT 92 d * blksz d; esize = BLOCK_CNT (of_nat (GPT_ENTRY_NUMBERS * 128)) d * blksz d in
      if \<not> galloc cfg hsize \<or> \<not> galloc cfg esize then Some (-1, d)
      else
        case gpt_fill_header str_disk_guid d (replicate (unat hsize) 0) of
          Inl ret \<Rightarrow> Some (ret, d)
        | Inr gpt_h \<Rightarrow>
            (case gpt_fill_pte cfg gpt_h (replicate (unat esize) 0) partitions of
               None \<Rightarrow> None
             | Some (Inl ret) \<Rightarrow> Some (ret, d)
             | Some (Inr gpt_e) \<Rightarrow> write_gpt_table cfg gpt_h gpt_e d))"

section \<open>Tables in memory\<close>

text \<open>The header at an address, as far as it is looked at.\<close>

definition mem_header :: "mem \<Rightarrow> addr \<Rightarrow> u8 list" where
  "mem_header m a = mem_read m a (max 92 (unat (h_header_size (mem_read m a 92))))"

definition entries_at :: "mem \<Rightarrow> addr \<Rightarrow> 'c gdev_state \<Rightarrow> addr" where
  "entries_at m buf d = buf + ucast (h_partition_entry_lba (mem_header m (buf + blksz d))) * blksz d"

definition is_valid_gpt_buf :: "mem \<Rightarrow> addr \<Rightarrow> 'c gdev_state \<Rightarrow> bool" where
  "is_valid_gpt_buf m buf d =
     (let gpt_h = mem_header m (buf + blksz d); gpt_e = mem_read m (entries_at m buf d) (unat (entries_size gpt_h)) in
      validate_gpt_header gpt_h 1 (lba (fst d)) = Some True \<and> validate_gpt_entries gpt_h gpt_e = Some True)"

text \<open>Writing blocks from an address, and storing a changed header back.\<close>

definition mwrite_then ::
  "gpt_cfg \<Rightarrow> lbaint \<Rightarrow> u32 \<Rightarrow> mem \<Rightarrow> addr \<Rightarrow> ('c gdev_state \<Rightarrow> (int \<times> mem \<times> 'c gdev_state) option) \<Rightarrow> 'c gdev_state
   \<Rightarrow> (int \<times> mem \<times> 'c gdev_state) option" where
  "mwrite_then cfg start cnt m a k d =
     gwrite_then cfg start cnt (mem_read m a (unat cnt * unat (blksz d))) (\<lambda>d. (1, m, d)) k d"

definition write_mbr_and_gpt_partitions :: "gpt_cfg \<Rightarrow> addr \<Rightarrow> mem \<Rightarrow> 'c gdev_state \<Rightarrow> (int \<times> mem \<times> 'c gdev_state) option" where
  "write_mbr_and_gpt_partitions cfg buf m d =
     (if \<not> is_valid_gpt_buf m buf d then Some (-1, m, d)
      else
        let a = buf + blksz d; gpt_h = mem_header m a; gpt_e = entries_at m buf d; cnt = BLOCK_CNT (entries_size gpt_h) d in
        mwrite_then cfg 0 1 m buf (\<lambda>d.
        mwrite_then cfg 1 1 m a (\<lambda>d.
        mwrite_then cfg (ucast (h_partition_entry_lba gpt_h)) cnt m gpt_e (\<lambda>d.
          case prepare_backup_gpt_header gpt_h of
            None \<Rightarrow> None
          | Some gpt_h \<Rightarrow>
              let m = mem_write m a gpt_h in
              mwrite_then cfg (ucast (h_partition_entry_lba gpt_h)) cnt m gpt_e (\<lambda>d.
              mwrite_then cfg (ucast (h_my_lba gpt_h)) 1 m a (\<lambda>d. Some (0, m, d)) d) d) d) d) d)"

definition write_backup_gpt_partitions :: "gpt_cfg \<Rightarrow> addr \<Rightarrow> mem \<Rightarrow> 'c gdev_state \<Rightarrow> (int \<times> mem \<times> 'c gdev_state) option" where
  "write_backup_gpt_partitions cfg buf m d =
     (if \<not> is_valid_gpt_buf m buf d then Some (-1, m, d)
      else
        let a = buf + blksz d; gpt_h = mem_header m a; gpt_e = entries_at m buf d; cnt = BLOCK_CNT (entries_size gpt_h) d in
        mwrite_then cfg 0 1 m buf (\<lambda>d.
          case prepare_last_lba_gpt_header d gpt_h of
            None \<Rightarrow> None
          | Some gpt_h \<Rightarrow>
              let m = mem_write m a gpt_h in
              mwrite_then cfg (ucast (h_partition_entry_lba gpt_h)) cnt m gpt_e (\<lambda>d.
              mwrite_then cfg (ucast (h_my_lba gpt_h)) 1 m a (\<lambda>d. Some (0, m, d)) d) d) d)"

section \<open>Verifying a table\<close>

definition gpt_verify_headers :: "gpt_cfg \<Rightarrow> 'c gdev_state \<Rightarrow> ((u8 list \<times> u8 list) option \<times> 'c gdev_state) option" where
  "gpt_verify_headers cfg d =
     (case is_gpt_valid cfg 1 d of
        None \<Rightarrow> None
      | Some (None, d) \<Rightarrow> Some (None, d)
      | Some (Some _, d) \<Rightarrow> is_gpt_valid cfg (lba (fst d) - 1) d)"

text \<open>The character behind the array, which the loop reads when the name fills it, is never compared.\<close>

definition gpt_convert_efi_name_to_char :: "u8 list \<Rightarrow> char list" where
  "gpt_convert_efi_name_to_char e = cstr (map (\<lambda>i. char_of_byte (e ! (56 + 2 * i))) [0..<PARTNAME_SZ])"

primrec verify_loop :: "u8 list \<Rightarrow> u8 list \<Rightarrow> gpt_part list \<Rightarrow> nat \<Rightarrow> bool option" where
  "verify_loop gpt_head gpt_e [] i = Some True"
| "verify_loop gpt_head gpt_e (p # ps) i =
     (if of_nat i = h_num_partition_entries gpt_head then Some False
      else if length gpt_e < 128 * (i + 1) then None
      else
        let e = gpt_entry gpt_e i; gpt_part_size = rd64 40 e - rd64 32 e + 1 in
        if strncmp (gpt_convert_efi_name_to_char e) (map char_of_byte (gp_name p)) 32 \<noteq> 0 then Some False
        else if gpt_part_size \<noteq> ucast (gp_size p) then
          if ps = [] \<and> gp_size p = 0 then verify_loop gpt_head gpt_e ps (i + 1) else Some False
        else if gp_start p \<noteq> 0 \<and> rd64 32 e \<noteq> ucast (gp_start p) then Some False
        else verify_loop gpt_head gpt_e ps (i + 1))"

definition gpt_verify_partitions :: "gpt_cfg \<Rightarrow> gpt_part list \<Rightarrow> 'c gdev_state \<Rightarrow> (bool \<times> 'c gdev_state) option" where
  "gpt_verify_partitions cfg partitions d =
     (case gpt_verify_headers cfg d of
        None \<Rightarrow> None
      | Some (None, d) \<Rightarrow> Some (False, d)
      | Some (Some (gpt_head, gpt_e), d) \<Rightarrow> map_option (\<lambda>ok. (ok, d)) (verify_loop gpt_head gpt_e partitions 0))"

section \<open>The card\<close>

text \<open>A card of 512-byte blocks with room for both tables.\<close>

definition gpt_card :: "gpt_cfg \<Rightarrow> 'c gdev_state \<Rightarrow> bool" where
  "gpt_card cfg d \<longleftrightarrow> cmmc_inv 6 (gdev cfg) d \<and> write_bl_len (fst d) = 512 \<and> 68 \<le> unat (lba (fst d))"

abbreviation blks :: "'c gdev_state \<Rightarrow> nat \<Rightarrow> u8 list" where
  "blks d \<equiv> mmc_cells (fst d)"

lemma gpt_card_facts:
  assumes "gpt_card cfg d"
  shows "blksz d = 512" "length (blks d b) = 512"
proof -
  have "mmc_wf (fst d)" "write_bl_len (fst d) = 512" using assms by (simp_all add: gpt_card_def cmmc_inv_def)
  then show "blksz d = 512" "length (blks d b) = 512" by (simp_all add: blksz_def mmc_wf_def mmc_cells_def)
qed

lemma block_counts:
  assumes "gpt_card cfg d"
  shows "BLOCK_CNT 16384 d = 32" "BLOCK_CNT 92 d = 1"
  using gpt_card_facts(1) [OF assms] by (simp_all add: BLOCK_CNT_def)

lemma gread_result:
  assumes "gpt_card cfg d" "0 < unat n" "unat start + unat n \<le> unat (lba (fst d))"
  shows "\<exists>r bs d'. gread cfg start n d = Some (r, bs, d') \<and> gpt_card cfg d' \<and> lba (fst d') = lba (fst d) \<and> blks d' = blks d
    \<and> (r = n \<or> r = 0) \<and> (r = n \<longrightarrow> bs = get_blocks (blks d) (unat start) (unat n))"
proof -
  have "cmmc_inv 6 (gdev cfg) d" using assms(1) by (simp add: gpt_card_def)
  from cmmc.bread_result [OF this assms(2,3)] obtain r bs d' where
    r: "gread cfg start n d = Some (r, bs, d')" "cmmc_inv 6 (gdev cfg) d'" "unat (write_bl_len (fst d')) = unat (write_bl_len (fst d))"
      "unat (lba (fst d')) = unat (lba (fst d))" "blks d' = blks d" "r = n \<or> r = 0" "r = n \<longrightarrow> bs = get_blocks (blks d) (unat start) (unat n)"
    unfolding gread_def by blast
  from r(3,4) have "write_bl_len (fst d') = write_bl_len (fst d)" "lba (fst d') = lba (fst d)" by (auto intro: unsigned_word_eqI)
  then show ?thesis using r assms(1) by (auto simp: gpt_card_def)
qed

lemma gwrite_result:
  assumes "gpt_card cfg d" "unat start + unat n \<le> unat (lba (fst d))" "length src = unat n * 512"
  shows "\<exists>r d'. gwrite cfg start n src d = Some (r, d') \<and> gpt_card cfg d' \<and> lba (fst d') = lba (fst d) \<and> (r = n \<or> r = 0)
    \<and> (r = n \<longrightarrow> blks d' = put_blocks 512 (blks d) (unat start) (unat n) src)
    \<and> (\<forall>b. \<not> (unat start \<le> b \<and> b < unat start + unat n) \<longrightarrow> blks d' b = blks d b)"
proof -
  have i: "cmmc_inv 6 (gdev cfg) d" "unat (write_bl_len (fst d)) = 512" using assms(1) by (simp_all add: gpt_card_def)
  from cmmc.bwrite_result [OF i(1) assms(2), of src] obtain r d' where
    r: "gwrite cfg start n src d = Some (r, d')" "cmmc_inv 6 (gdev cfg) d'" "unat (write_bl_len (fst d')) = unat (write_bl_len (fst d))"
      "unat (lba (fst d')) = unat (lba (fst d))" "r = n \<or> r = 0" "r = n \<longrightarrow> blks d' = put_blocks 512 (blks d) (unat start) (unat n) src"
      "\<forall>b. \<not> (unat start \<le> b \<and> b < unat start + unat n) \<longrightarrow> blks d' b = blks d b"
    using assms(3) i(2) unfolding gwrite_def by auto
  from r(3,4) have "write_bl_len (fst d') = write_bl_len (fst d)" "lba (fst d') = lba (fst d)" by (auto intro: unsigned_word_eqI)
  then show ?thesis using r assms(1) by (auto simp: gpt_card_def)
qed

lemma gwrite_then_result:
  assumes "gpt_card cfg d" "unat start + unat n \<le> unat (lba (fst d))" "unat n * 512 \<le> length buf"
  shows "\<exists>r d'. gpt_card cfg d' \<and> lba (fst d') = lba (fst d)
    \<and> (\<forall>b. \<not> (unat start \<le> b \<and> b < unat start + unat n) \<longrightarrow> blks d' b = blks d b)
    \<and> gwrite_then cfg start n buf err k d = (if r then k d' else Some (err d'))
    \<and> (r \<longrightarrow> get_blocks (blks d') (unat start) (unat n) = take (unat n * 512) buf)"
proof -
  have len: "length (take (unat n * 512) buf) = unat n * 512" using assms(3) by simp
  from gwrite_result [OF assms(1,2) len] obtain r d' where
    r: "gwrite cfg start n (take (unat n * 512) buf) d = Some (r, d')" "gpt_card cfg d'" "lba (fst d') = lba (fst d)"
      "r = n \<longrightarrow> blks d' = put_blocks 512 (blks d) (unat start) (unat n) (take (unat n * 512) buf)"
      "\<forall>b. \<not> (unat start \<le> b \<and> b < unat start + unat n) \<longrightarrow> blks d' b = blks d b" by blast
  have "gwrite_then cfg start n buf err k d = (if r = n then k d' else Some (err d'))"
    using r(1) assms(3) gpt_card_facts(1) [OF assms(1)] by (simp add: gwrite_then_def)
  moreover have "r = n \<longrightarrow> get_blocks (blks d') (unat start) (unat n) = take (unat n * 512) buf"
    using r(4) get_put_blocks [OF len] by simp
  ultimately show ?thesis using r by blast
qed

end
