(* ===== verification/Mmc_Ready.thy ===== *)
theory Mmc_Ready
  imports Blk_Cache
begin

text \<open>
  The transfers of the MMC block layer (\<^verbatim>\<open>drivers/mmc/mmc.c\<close>, \<^verbatim>\<open>drivers/mmc/mmc_write.c\<close>) on a
  card that answers every command without an error and is ready for data: no read or write of
  blocks of the card falls short, whatever the largest transfer of the host is.
\<close>

definition ready_card :: "'c mmc \<Rightarrow> bool" where
  "ready_card mmc \<longleftrightarrow> 0 < b_max mmc \<and>
     (\<forall>cmd x c. case send_cmd mmc cmd x c of (err, response, _, _) \<Rightarrow>
        err = 0 \<and> response AND 0x100 \<noteq> 0 \<and> response AND 0x1e00 \<noteq> 0xe00)"

text \<open>The same host and card, with another content.\<close>

definition same_host :: "'c mmc \<Rightarrow> 'c mmc \<Rightarrow> bool" where
  "same_host mmc mmc' \<longleftrightarrow> (\<exists>c. mmc' = mmc\<lparr>card := c\<rparr>)"

lemma same_hostD:
  "same_host mmc mmc' \<Longrightarrow> b_max mmc' = b_max mmc" "same_host mmc mmc' \<Longrightarrow> lba mmc' = lba mmc"
  "same_host mmc mmc' \<Longrightarrow> ready_card mmc' = ready_card mmc" "same_host mmc mmc' \<Longrightarrow> read_bl_len mmc' = read_bl_len mmc"
  "same_host mmc mmc' \<Longrightarrow> write_bl_len mmc' = write_bl_len mmc"
  unfolding same_host_def ready_card_def by (elim exE, simp)+

lemma same_host_trans: "same_host a b \<Longrightarrow> same_host b c \<Longrightarrow> same_host a c"
  by (auto simp: same_host_def)

lemma ready_send:
  assumes "ready_card mmc"
  shows "\<exists>response rd mmc'. mmc_send_cmd cmd x mmc = (0, response, rd, mmc') \<and> same_host mmc mmc'
    \<and> response AND 0x100 \<noteq> 0 \<and> response AND 0x1e00 \<noteq> 0xe00"
proof -
  obtain err response rd c where s: "send_cmd mmc cmd x (card mmc) = (err, response, rd, c)" by (metis prod_cases4)
  then have "err = 0 \<and> response AND 0x100 \<noteq> 0 \<and> response AND 0x1e00 \<noteq> 0xe00"
    using assms unfolding ready_card_def by (metis (mono_tags, lifting) case_prod_conv)
  then show ?thesis using s by (auto simp: mmc_send_cmd_def same_host_def)
qed

lemma ready_status:
  assumes "ready_card mmc"
  shows "\<exists>mmc'. mmc_send_status 1000 mmc = (0, mmc') \<and> same_host mmc mmc'"
proof -
  let ?cmd = "\<lparr>cmdidx = MMC_CMD_SEND_STATUS, resp_type = MMC_RSP_R1,
    cmdarg = (if host_is_spi mmc then stale_arg mmc else push_bit 16 (rca mmc))\<rparr>"
  obtain response rd mmc' where s: "mmc_send_cmd ?cmd No_data mmc = (0, response, rd, mmc')" "same_host mmc mmc'"
    "response AND 0x100 \<noteq> 0" "response AND 0x1e00 \<noteq> 0xe00"
    using ready_send [OF assms] by blast
  then have "status_loop ?cmd 5 1000 mmc = (0, mmc')" by (subst status_loop.simps) simp
  then show ?thesis using s(2) by (simp add: mmc_send_status_def)
qed

lemma ready_blocklen:
  assumes "ready_card mmc"
  shows "\<exists>mmc'. mmc_set_blocklen len mmc = (0, mmc') \<and> same_host mmc mmc'"
proof (cases "ddr_mode mmc")
  case True
  moreover have "same_host mmc mmc" unfolding same_host_def by (rule exI [of _ "card mmc"]) simp
  ultimately show ?thesis by (simp add: mmc_set_blocklen_def)
next
  case False
  let ?cmd = "\<lparr>cmdidx = MMC_CMD_SET_BLOCKLEN, resp_type = MMC_RSP_R1, cmdarg = len\<rparr>"
  obtain response rd mmc' where "mmc_send_cmd ?cmd No_data mmc = (0, response, rd, mmc')" "same_host mmc mmc'"
    using ready_send [OF assms] by blast
  then show ?thesis using False by (simp add: mmc_set_blocklen_def numeral_eq_Suc)
qed

lemma ready_read_blocks:
  assumes "ready_card mmc"
  shows "\<exists>dst mmc'. mmc_read_blocks start n mmc = (n, dst, mmc') \<and> same_host mmc mmc'"
proof -
  let ?cmd = "\<lparr>cmdidx = (if n > 1 then MMC_CMD_READ_MULTIPLE_BLOCK else MMC_CMD_READ_SINGLE_BLOCK), resp_type = MMC_RSP_R1,
    cmdarg = (if high_capacity mmc then start else start * read_bl_len mmc)\<rparr>"
  obtain response dst m1 where s: "mmc_send_cmd ?cmd (Data_read n (read_bl_len mmc)) mmc = (0, response, dst, m1)" "same_host mmc m1"
    using ready_send [OF assms] by blast
  obtain response' rd' m2 where t: "mmc_send_cmd stop_cmd No_data m1 = (0, response', rd', m2)" "same_host m1 m2"
    using ready_send [of m1] same_hostD(3) [OF s(2)] assms by blast
  show ?thesis using s t same_host_trans [OF s(2) t(2)] by (auto simp: mmc_read_blocks_def Let_def)
qed

lemma ready_write_blocks:
  assumes "ready_card mmc" "n \<noteq> 0" "start + n \<le> lba mmc"
  shows "\<exists>mmc'. mmc_write_blocks start n bs mmc = (n, mmc') \<and> same_host mmc mmc'"
proof -
  let ?cmd = "\<lparr>cmdidx = (if n = 1 then MMC_CMD_WRITE_SINGLE_BLOCK else MMC_CMD_WRITE_MULTIPLE_BLOCK), resp_type = MMC_RSP_R1,
    cmdarg = (if high_capacity mmc then start else start * write_bl_len mmc)\<rparr>"
  obtain response rd m1 where s: "mmc_send_cmd ?cmd (Data_write n (write_bl_len mmc) bs) mmc = (0, response, rd, m1)" "same_host mmc m1"
    using ready_send [OF assms(1)] by blast
  have r1: "ready_card m1" using same_hostD(3) [OF s(2)] assms(1) by blast
  obtain response' rd' m2 where t: "mmc_send_cmd stop_cmd No_data m1 = (0, response', rd', m2)" "same_host m1 m2"
    using ready_send [OF r1] by blast
  have r2: "ready_card m2" using same_hostD(3) [OF t(2)] r1 by blast
  obtain m3 m4 where "mmc_send_status 1000 m1 = (0, m3)" "same_host m1 m3" "mmc_send_status 1000 m2 = (0, m4)" "same_host m2 m4"
    using ready_status [OF r1] ready_status [OF r2] by blast
  moreover have "same_host mmc m3" "same_host mmc m4" using calculation(2,4) s(2) t(2) same_host_trans by blast+
  ultimately show ?thesis using s(1) t(1) assms(2,3) by (auto simp: mmc_write_blocks_def Let_def)
qed

text \<open>The next transfer of a loop, in numbers.\<close>

lemma next_transfer:
  fixes b n start L :: u32
  assumes "0 < b" "n \<noteq> 0" "unat start + unat n \<le> unat L"
  defines "cur \<equiv> if n > b then b else n"
  shows "cur \<noteq> 0" "unat (start + cur) + unat (n - cur) \<le> unat L" "unat (n - cur) < unat n" "start + cur \<le> L"
proof -
  have c: "unat cur \<le> unat n" "0 < unat cur" using assms(1,2) by (auto simp: cur_def word_less_nat_alt word_le_nat_alt unat_gt_0)
  then show "cur \<noteq> 0" by auto
  have s: "unat (n - cur) = unat n - unat cur" using c by (simp add: unat_sub word_le_nat_alt)
  have "unat start + unat cur < 2 ^ 32" using c assms(3) unat_u32_less [of L] by simp
  then have "unat (start + cur) = unat start + unat cur" by (simp add: unat_word_ariths)
  then show "unat (start + cur) + unat (n - cur) \<le> unat L" "unat (n - cur) < unat n" "start + cur \<le> L"
    using s c assms(3) by (simp_all add: word_le_nat_alt)
qed

lemma ready_write_loop:
  assumes "ready_card mmc" "n \<noteq> 0" "unat start + unat n \<le> unat (lba mmc)"
  shows "\<exists>mmc'. write_loop start n bs mmc = Some (True, mmc') \<and> same_host mmc mmc'"
  using assms
proof (induction "unat n" arbitrary: n start bs mmc rule: less_induct)
  case less
  define cur where "cur = (if n > b_max mmc then b_max mmc else n)"
  have "0 < b_max mmc" using less.prems(1) by (simp add: ready_card_def)
  note t = next_transfer [OF this less.prems(2,3), folded cur_def]
  obtain m1 where w: "mmc_write_blocks start cur bs mmc = (cur, m1)" "same_host mmc m1"
    using ready_write_blocks [OF less.prems(1) t(1,4)] by blast
  show ?case
  proof (cases "n - cur > 0")
    case True
    then have "n - cur \<noteq> 0" by auto
    moreover have "ready_card m1" "unat (start + cur) + unat (n - cur) \<le> unat (lba m1)"
      using same_hostD [OF w(2)] less.prems(1) t(2) by simp_all
    ultimately obtain m2 where "write_loop (start + cur) (n - cur) (drop (unat (cur * write_bl_len mmc)) bs) m1 = Some (True, m2)"
      "same_host m1 m2"
      using less.hyps [OF t(3)] by blast
    then show ?thesis
      using w True same_host_trans [OF w(2)] by (subst write_loop.simps) (auto simp: cur_def [symmetric])
  next
    case False
    then show ?thesis using w by (subst write_loop.simps) (auto simp: cur_def [symmetric])
  qed
qed

lemma ready_read_loop:
  assumes "ready_card mmc" "n \<noteq> 0" "unat start + unat n \<le> unat (lba mmc)"
  shows "\<exists>bs mmc'. read_loop start n dst mmc = Some (True, bs, mmc') \<and> same_host mmc mmc'"
  using assms
proof (induction "unat n" arbitrary: n start dst mmc rule: less_induct)
  case less
  define cur where "cur = (if n > b_max mmc then b_max mmc else n)"
  have "0 < b_max mmc" using less.prems(1) by (simp add: ready_card_def)
  note t = next_transfer [OF this less.prems(2,3), folded cur_def]
  obtain bs m1 where w: "mmc_read_blocks start cur mmc = (cur, bs, m1)" "same_host mmc m1"
    using ready_read_blocks [OF less.prems(1)] by blast
  show ?case
  proof (cases "n - cur > 0")
    case True
    then have "n - cur \<noteq> 0" by auto
    moreover have "ready_card m1" "unat (start + cur) + unat (n - cur) \<le> unat (lba m1)"
      using same_hostD [OF w(2)] less.prems(1) t(2) by simp_all
    ultimately obtain bs2 m2 where "read_loop (start + cur) (n - cur) (dst @ bs) m1 = Some (True, bs2, m2)" "same_host m1 m2"
      using less.hyps [OF t(3)] by blast
    then show ?thesis
      using w True same_host_trans [OF w(2)] by (subst read_loop.simps) (auto simp: cur_def [symmetric])
  next
    case False
    then show ?thesis using w by (subst read_loop.simps) (auto simp: cur_def [symmetric])
  qed
qed

section \<open>Through the block cache\<close>

lemma ready_dwrite:
  assumes "ready_card (fst s)" "n \<noteq> 0" "unat start + unat n \<le> unat (lba (fst s))"
  shows "\<exists>s'. blk_dwrite ift dev mmc_bwrite start n bs s = Some (n, s') \<and> ready_card (fst s')"
proof -
  obtain m1 where b: "mmc_set_blocklen (write_bl_len (fst s)) (fst s) = (0, m1)" "same_host (fst s) m1"
    using ready_blocklen [OF assms(1)] by blast
  have r: "ready_card m1" "unat start + unat n \<le> unat (lba m1)" using same_hostD [OF b(2)] assms(1,3) by simp_all
  obtain m2 where w: "write_loop start n bs m1 = Some (True, m2)" "same_host m1 m2"
    using ready_write_loop [OF r(1) assms(2) r(2)] by blast
  have "ready_card m2" using same_hostD(3) [OF w(2)] r(1) by simp
  then show ?thesis using b(1) w(1) by (cases s) (simp add: blk_dwrite_def mmc_bwrite_def)
qed

lemma ready_dread:
  assumes "ready_card (fst s)" "n \<noteq> 0" "unat start + unat n \<le> unat (lba (fst s))"
  shows "\<exists>bs s'. blk_dread ift dev sz mmc_bread start n s = Some (n, bs, s') \<and> ready_card (fst s')"
proof -
  obtain m1 where b: "mmc_set_blocklen (read_bl_len (fst s)) (fst s) = (0, m1)" "same_host (fst s) m1"
    using ready_blocklen [OF assms(1)] by blast
  have r: "ready_card m1" "unat start + unat n \<le> unat (lba m1)" using same_hostD [OF b(2)] assms(1,3) by simp_all
  obtain bs m2 where w: "read_loop start n [] m1 = Some (True, bs, m2)" "same_host m1 m2"
    using ready_read_loop [OF r(1) assms(2) r(2)] by blast
  have "ready_card m2" using same_hostD(3) [OF w(2)] r(1) by simp
  moreover have "unat start + unat n < 2 ^ 32" using assms(3) unat_u32_less [of "lba (fst s)"] by simp
  then have "\<not> start + n > lba (fst s)" using assms(3) by (simp add: word_less_nat_alt unat_word_ariths)
  ultimately have "\<exists>bs m. mmc_bread start n (fst s) = Some (n, bs, m) \<and> ready_card m"
    using b(1) w(1) assms(2) by (simp add: mmc_bread_def)
  then show ?thesis
    using assms(1) by (cases s) (auto simp: blk_dread_def split: prod.split option.split)
qed

end
