(* ===== verification/Gpt_Restore.thy ===== *)
theory Gpt_Restore
  imports Gpt Mmc_Ready
begin

text \<open>
  What \<open>gpt_restore\<close> writes is what \<open>part_get_info_efi\<close> reads: both tables are valid, either one
  gives every partition back, and the layout keeps the partitions apart.
\<close>

section \<open>Valid tables\<close>

definition gpt_table :: "gpt_cfg \<Rightarrow> 'c gdev_state \<Rightarrow> lbaint \<Rightarrow> u8 list \<Rightarrow> u8 list \<Rightarrow> bool" where
  "gpt_table cfg d hlba h e \<longleftrightarrow> unat hlba < unat (lba (fst d)) \<and> blks d (unat hlba) = h
     \<and> validate_gpt_header h hlba (lba (fst d)) = Some True
     \<and> h_num_partition_entries h = 128 \<and> h_sizeof_partition_entry h = 128
     \<and> unat (ucast (h_partition_entry_lba h) :: lbaint) + 32 \<le> unat (lba (fst d))
     \<and> get_blocks (blks d) (unat (ucast (h_partition_entry_lba h) :: lbaint)) 32 = e
     \<and> efi_crc32 e = h_partition_entry_array_crc32 h"

text \<open>The reads of the header and of the entries go through.\<close>

definition gpt_reads :: "gpt_cfg \<Rightarrow> lbaint \<Rightarrow> lbaint \<Rightarrow> 'c gdev_state \<Rightarrow> bool" where
  "gpt_reads cfg hlba ent d \<longleftrightarrow>
     (case gread cfg hlba 1 d of
        None \<Rightarrow> False
      | Some (n, _, d) \<Rightarrow> n = 1 \<and> map_option fst (gread cfg ent 32 d) = Some 32)"

lemma get_blocks_1 [simp]: "get_blocks B s (Suc 0) = B s"
  by (simp add: get_blocks_def)

lemma is_gpt_valid_table:
  assumes card: "gpt_card cfg d" and alloc: "\<And>n. galloc cfg n"
    and t: "gpt_table cfg d hlba h e" and rd: "gpt_reads cfg hlba (ucast (h_partition_entry_lba h)) d"
  shows "\<exists>d'. is_gpt_valid cfg hlba d = Some (Some (h, e), d') \<and> gpt_card cfg d' \<and> lba (fst d') = lba (fst d) \<and> blks d' = blks d"
proof -
  have in1: "unat hlba + unat (1 :: u32) \<le> unat (lba (fst d))" using t by (simp add: gpt_table_def)
  obtain d1 where r1: "gread cfg hlba 1 d = Some (1, h, d1)" "gpt_card cfg d1" "lba (fst d1) = lba (fst d)" "blks d1 = blks d"
    using gread_result [OF card _ in1] rd t by (auto simp: gpt_reads_def gpt_table_def)
  have in2: "unat (ucast (h_partition_entry_lba h) :: lbaint) + unat (32 :: u32) \<le> unat (lba (fst d1))"
    using t r1(3) by (simp add: gpt_table_def)
  obtain d2 where r2: "gread cfg (ucast (h_partition_entry_lba h)) 32 d1 = Some (32, e, d2)" "gpt_card cfg d2"
    "lba (fst d2) = lba (fst d)" "blks d2 = blks d"
    using gread_result [OF r1(2) _ in2] rd t r1 by (auto simp: gpt_reads_def gpt_table_def)
  have sz: "entries_size h = 16384" using t by (simp add: gpt_table_def entries_size_def)
  have len: "length e = 16384"
    using t length_get_blocks [of "blks d" 512 _ 32] gpt_card_facts(2) [OF card] by (auto simp: gpt_table_def)
  have "alloc_read_gpt_entries cfg h d1 = Some (Some e, d2)"
    using r2(1) alloc block_counts(1) [OF r1(2)] by (simp add: alloc_read_gpt_entries_def sz Let_def)
  moreover have "validate_gpt_entries h e = Some True"
    using t len by (simp add: validate_gpt_entries_def sz gpt_table_def)
  ultimately show ?thesis
    using r1(1,3) r2 t by (simp add: is_gpt_valid_def gpt_table_def)
qed

section \<open>Headers\<close>

definition hdr :: "u8 list \<Rightarrow> u64 \<Rightarrow> u64 \<Rightarrow> u64 \<Rightarrow> lbaint \<Rightarrow> u32 \<Rightarrow> bool" where
  "hdr h my alt ent L acrc \<longleftrightarrow> length h = 512 \<and> rd64 0 h = GPT_HEADER_SIGNATURE \<and> rd32 12 h = 92 \<and> rd64 24 h = my
     \<and> rd64 32 h = alt \<and> rd64 40 h = 34 \<and> rd64 48 h = ucast (L - 34) \<and> rd64 72 h = ent \<and> rd32 80 h = 128 \<and> rd32 84 h = 128
     \<and> rd32 88 h = acrc"

lemma hdr_wr:
  assumes "hdr h my alt ent L acrc"
  shows "hdr (wr64 24 x h) x alt ent L acrc" "hdr (wr64 32 x h) my x ent L acrc" "hdr (wr64 72 x h) my alt x L acrc"
    "hdr (wr32 88 y h) my alt ent L y" "hdr (wr32 16 y h) my alt ent L acrc"
  using assms by (simp_all add: hdr_def)

lemma length_uuid_bin: "uuid_str_to_bin s fmt = Some u \<Longrightarrow> length u = 16"
  by (auto simp: uuid_str_to_bin_def Let_def be16_bytes_def be64_bytes_def split: if_splits str_format.splits)

lemma fill_header:
  assumes "gpt_fill_header g d (replicate 512 0) = Inr h"
  shows "hdr h 1 (ucast (lba (fst d) - 1)) 2 (lba (fst d)) 0" "rd32 16 h = 0"
proof -
  let ?L = "lba (fst d)"
  obtain u where u: "uuid_str_to_bin g UUID_STR_FORMAT_GUID = Some u" "length u = 16"
    using assms length_uuid_bin by (auto simp: gpt_fill_header_def Let_def split: option.splits)
  define h1 where "h1 = wr32 12 92 (wr32 8 GPT_HEADER_REVISION_V1 (wr64 0 GPT_HEADER_SIGNATURE (replicate 512 0)))"
  define h2 where "h2 = wr64 40 34 (wr64 32 (ucast (?L - 1)) (wr64 24 1 h1))"
  define h3 where "h3 = wr32 80 128 (wr64 72 2 (wr64 48 (ucast (?L - 34)) h2))"
  define h4 where "h4 = wr32 88 0 (wr32 16 0 (wr32 84 128 h3))"
  have h: "h = put_bytes 56 u h4"
    using assms u(1) unfolding h4_def h3_def h2_def h1_def by (simp add: gpt_fill_header_def Let_def GPT_ENTRY_NUMBERS_def)
  have f1: "length h1 = 512" "rd64 0 h1 = GPT_HEADER_SIGNATURE" "rd32 12 h1 = 92" by (simp_all add: h1_def)
  have f2: "length h2 = 512" "rd64 0 h2 = GPT_HEADER_SIGNATURE" "rd32 12 h2 = 92" "rd64 24 h2 = 1"
    "rd64 32 h2 = ucast (?L - 1)" "rd64 40 h2 = 34"
    by (simp_all add: h2_def f1)
  have f3: "length h3 = 512" "rd64 0 h3 = GPT_HEADER_SIGNATURE" "rd32 12 h3 = 92" "rd64 24 h3 = 1"
    "rd64 32 h3 = ucast (?L - 1)" "rd64 40 h3 = 34" "rd64 48 h3 = ucast (?L - 34)" "rd64 72 h3 = 2" "rd32 80 h3 = 128"
    by (simp_all add: h3_def f2)
  have "hdr h4 1 (ucast (?L - 1)) 2 ?L 0" "rd32 16 h4 = 0"
    by (simp_all add: hdr_def h4_def f3)
  then show "hdr h 1 (ucast (?L - 1)) 2 ?L 0" "rd32 16 h = 0"
    unfolding h by (simp_all add: hdr_def u(2))
qed

lemma wr32_rd32: "off + 4 \<le> length b \<Longrightarrow> rd32 off b = w \<Longrightarrow> wr32 off w b = b"
proof -
  assume o: "off + 4 \<le> length b" and w: "rd32 off b = w"
  have "le32_bytes w = get_bytes off 4 b" using w o by (auto simp: rd32_def le32_bytes_of length_get_bytes)
  then show ?thesis
    using o by (intro nth_equalityI) (auto simp: wr32_def nth_put_bytes get_bytes_def)
qed

definition crc_right :: "u8 list \<Rightarrow> bool" where
  "crc_right h \<longleftrightarrow> efi_crc32 (take 92 (wr32 16 0 h)) = rd32 16 h"

lemma refresh_header:
  assumes "hdr h my alt ent L acrc" "rd32 16 h = 0"
  shows "\<exists>h'. refresh_crc h = Some h' \<and> hdr h' my alt ent L acrc \<and> crc_right h'"
proof -
  let ?h = "wr32 16 (efi_crc32 (take 92 h)) h"
  have len: "length h = 512" "rd32 12 h = 92" using assms(1) by (simp_all add: hdr_def)
  have "refresh_crc h = Some ?h" using len by (simp add: refresh_crc_def h_header_size_def)
  moreover have "crc_right ?h" using len wr32_rd32 [of 16 h 0] assms(2) by (simp add: crc_right_def)
  ultimately show ?thesis using hdr_wr(5) [OF assms(1)] by blast
qed

lemma validate_header:
  assumes "hdr h my alt ent L acrc" "crc_right h" "34 \<le> unat L" "my = ucast hlba"
  shows "validate_gpt_header h hlba L = Some True"
proof -
  have "unat (L - 34) = unat L - 34" using assms(3) by (simp add: unat_sub word_le_nat_alt)
  then have "(ucast (L - 34) :: u64) \<le> ucast L" "(34 :: u64) \<le> ucast L"
    using assms(3) unat_u32_less [of L] by (simp_all add: word_le_nat_alt unsigned_ucast_eq take_bit_nat_eq_self unat_ucast_u64)
  then show ?thesis
    using assms(1,2,4) by (simp add: validate_gpt_header_def hdr_def crc_right_def header_fields)
qed

section \<open>Writing both tables\<close>

lemma prepare_backup:
  assumes "hdr h my alt ent L acrc"
  shows "\<exists>h'. prepare_backup_gpt_header h = Some h' \<and> hdr h' alt my (ucast (L - 34) + 1) L acrc \<and> crc_right h'"
proof -
  note h1 = hdr_wr(1) [OF assms, of alt]
  note h2 = hdr_wr(2) [OF h1, of my]
  note h3 = hdr_wr(3) [OF h2, of "ucast (L - 34) + 1"]
  note h4 = hdr_wr(5) [OF h3, of 0]
  let ?h = "wr64 72 (ucast (L - 34) + 1) (wr64 32 my (wr64 24 alt h))"
  have len: "length ?h = 512" using h3 by (simp add: hdr_def)
  have "rd32 16 (wr32 16 0 ?h) = 0" using len by simp
  from refresh_header [OF h4 this] show ?thesis
    using assms h2 by (simp add: prepare_backup_gpt_header_def header_fields hdr_def Let_def)
qed

lemma ucast_down_up: "(ucast (ucast (x :: u32) :: u64) :: u32) = x"
  by (rule bit_eqI) (auto simp: bit_simps dest: bit_imp_le_length)

lemma ucast_down_add: "(ucast (a + b :: u64) :: u32) = ucast a + ucast b"
proof (transfer, goal_cases)
  case (1 a b)
  have "take_bit 32 (take_bit 64 a + take_bit 64 b) = take_bit 32 (take_bit 32 a + take_bit 32 b)"
    by (subst take_bit_add [symmetric]) (simp add: min_def)
  then show ?case by (simp add: take_bit_add min_def)
qed

lemma set_mbr_result:
  assumes "gpt_card cfg d"
  shows "\<exists>r d'. set_protective_mbr cfg d = Some (r, d') \<and> gpt_card cfg d' \<and> lba (fst d') = lba (fst d)
    \<and> (\<forall>b. b \<noteq> 0 \<longrightarrow> blks d' b = blks d b)"
proof -
  have room: "unat (0 :: u32) + unat (1 :: u32) \<le> unat (lba (fst d))" using assms by (simp add: gpt_card_def)
  obtain n bs d1 where r: "gread cfg 0 1 d = Some (n, bs, d1)" "gpt_card cfg d1" "lba (fst d1) = lba (fst d)"
    "n = 1 \<longrightarrow> bs = blks d 0" "blks d1 = blks d"
    using gread_result [OF assms _ room] by auto
  let ?m = "wr32 458 (lba (fst d1) - 1) (wr32 454 1 (put_bytes 450 [EFI_PMBR_OSTYPE_EFI_GPT] (put_bytes 510 MSDOS_MBR_SIGNATURE bs)))"
  show ?thesis
  proof (cases "n = 1")
    case True
    then have "length bs = 512" using r(4) gpt_card_facts(2) [OF assms] by simp
    then have len: "length ?m = unat (1 :: u32) * 512" by (simp add: MSDOS_MBR_SIGNATURE_def)
    have room1: "unat (0 :: u32) + unat (1 :: u32) \<le> unat (lba (fst d1))" using r(3) room by simp
    from gwrite_result [OF r(2) room1 len] obtain r2 d2 where
      w: "gwrite cfg 0 1 ?m d1 = Some (r2, d2)" "gpt_card cfg d2" "lba (fst d2) = lba (fst d)"
      "\<forall>b. \<not> (unat (0 :: u32) \<le> b \<and> b < unat (0 :: u32) + unat (1 :: u32)) \<longrightarrow> blks d2 b = blks d1 b" using r(3) by auto
    then have "set_protective_mbr cfg d = Some (if r2 \<noteq> 1 then -1 else 0, d2)"
      using r(1) True gpt_card_facts(1) [OF assms] by (simp add: set_protective_mbr_def Let_def)
    moreover have "\<forall>b. b \<noteq> 0 \<longrightarrow> blks d2 b = blks d b" using w(4) r(5) by simp
    ultimately show ?thesis using w(2,3) by blast
  next
    case False
    then show ?thesis using r gpt_card_facts(1) [OF assms] by (simp add: set_protective_mbr_def)
  qed
qed

text \<open>The blocks between the two tables.\<close>

definition data_kept :: "'c gdev_state \<Rightarrow> 'c gdev_state \<Rightarrow> bool" where
  "data_kept d d' \<longleftrightarrow> (\<forall>b. 34 \<le> b \<and> b < unat (lba (fst d)) - 33 \<longrightarrow> blks d' b = blks d b)"

lemma data_kept_same [simp]: "data_kept d d" by (simp add: data_kept_def)

text \<open>Two valid tables of the entries \<open>e\<close>, the primary one and the backup.\<close>

definition two_tables :: "gpt_cfg \<Rightarrow> 'c gdev_state \<Rightarrow> u8 list \<Rightarrow> bool" where
  "two_tables cfg d e \<longleftrightarrow> (\<exists>h1 h2. gpt_table cfg d 1 h1 e \<and> h_partition_entry_lba h1 = 2
     \<and> gpt_table cfg d (lba (fst d) - 1) h2 e \<and> ucast (h_partition_entry_lba h2) = lba (fst d) - 33)"

lemma two_tables_on:
  assumes "hdr h1 1 (ucast (lba (fst d) - 1)) 2 (lba (fst d)) (efi_crc32 e)" "crc_right h1"
    "hdr h2 (ucast (lba (fst d) - 1)) 1 (ucast (lba (fst d) - 34) + 1) (lba (fst d)) (efi_crc32 e)" "crc_right h2"
    "68 \<le> unat (lba (fst d))" "blks d 1 = h1" "blks d (unat (lba (fst d)) - 1) = h2"
    "get_blocks (blks d) 2 32 = e" "get_blocks (blks d) (unat (lba (fst d)) - 33) 32 = e"
  shows "two_tables cfg d e"
proof -
  let ?L = "lba (fst d)"
  have sub: "unat (?L - 1) = unat ?L - 1" "unat (?L - 33) = unat ?L - 33"
    using assms(5) by (simp_all add: unat_sub word_le_nat_alt)
  have "(ucast (h_partition_entry_lba h2) :: lbaint) = ?L - 33"
    using assms(3) by (simp add: hdr_def header_fields ucast_down_add ucast_down_up)
  moreover have "gpt_table cfg d 1 h1 e"
    using assms(1,5,6,8) validate_header [OF assms(1,2), of 1] by (simp add: gpt_table_def hdr_def header_fields)
  moreover have "gpt_table cfg d (?L - 1) h2 e"
    using assms(3,5,7,9) validate_header [OF assms(3,4), of "?L - 1"] sub calculation(1)
    by (simp add: gpt_table_def hdr_def header_fields)
  ultimately show ?thesis using assms(1) by (auto simp: two_tables_def hdr_def header_fields)
qed

text \<open>The writes of the two tables, with the headers as they are written.\<close>

definition table_writes :: "gpt_cfg \<Rightarrow> lbaint \<Rightarrow> u8 list \<Rightarrow> u8 list \<Rightarrow> u8 list \<Rightarrow> 'c gdev_state \<Rightarrow> (int \<times> 'c gdev_state) option" where
  "table_writes cfg L h1 h2 e =
     gwrite_then cfg 1 1 h1 (\<lambda>d. (-1, d)) (gwrite_then cfg 2 32 e (\<lambda>d. (-1, d))
       (gwrite_then cfg (L - 33) 32 e (\<lambda>d. (-1, d)) (gwrite_then cfg (L - 1) 1 h2 (\<lambda>d. (-1, d)) (\<lambda>d. Some (0, d)))))"

lemma write_table_writes:
  assumes card: "gpt_card cfg d" and h: "hdr h 1 (ucast (lba (fst d) - 1)) 2 (lba (fst d)) 0" "rd32 16 h = 0"
    and e: "length e = 16384"
  shows "\<exists>h1 h2. hdr h1 1 (ucast (lba (fst d) - 1)) 2 (lba (fst d)) (efi_crc32 e) \<and> crc_right h1
    \<and> hdr h2 (ucast (lba (fst d) - 1)) 1 (ucast (lba (fst d) - 34) + 1) (lba (fst d)) (efi_crc32 e) \<and> crc_right h2
    \<and> write_gpt_table cfg h e d = (case set_protective_mbr cfg d of
        None \<Rightarrow> None | Some (r, d') \<Rightarrow> if r < 0 then Some (-1, d') else table_writes cfg (lba (fst d)) h1 h2 e d')"
proof -
  let ?L = "lba (fst d)" and ?a = "efi_crc32 e"
  have f: "h_num_partition_entries h = 128" "entries_size h = 16384" "BLOCK_CNT 16384 d = 32"
    using h(1) block_counts(1) [OF card] by (simp_all add: hdr_def header_fields entries_size_def)
  have "length h = 512" using h(1) by (simp add: hdr_def)
  then have "rd32 16 (wr32 88 ?a h) = 0" using h(2) by simp
  from refresh_header [OF hdr_wr(4) [OF h(1), of ?a] this] obtain h1 where
    h1: "refresh_crc (wr32 88 ?a h) = Some h1" "hdr h1 1 (ucast (?L - 1)) 2 ?L ?a" "crc_right h1" by blast
  from prepare_backup [OF h1(2)] obtain h2 where
    h2: "prepare_backup_gpt_header h1 = Some h2" "hdr h2 (ucast (?L - 1)) 1 (ucast (?L - 34) + 1) ?L ?a" "crc_right h2" by blast
  have start: "(ucast (h_last_usable_lba h2) + 1 :: lbaint) = ?L - 33" "(ucast (h_my_lba h2) :: lbaint) = ?L - 1"
    using h2(2) by (simp_all add: hdr_def header_fields ucast_down_up)
  have "write_gpt_table cfg h e d = (case set_protective_mbr cfg d of
      None \<Rightarrow> None | Some (r, d') \<Rightarrow> if r < 0 then Some (-1, d') else table_writes cfg ?L h1 h2 e d')"
    using f e h1(1) h2(1) by (simp add: write_gpt_table_def table_writes_def start split: option.split prod.split)
  then show ?thesis using h1(2,3) h2(2,3) by blast
qed

text \<open>Every success of the writer leaves two valid tables with the given entries; no run touches the blocks between them.\<close>

lemma write_table_result:
  assumes card: "gpt_card cfg d" and h: "hdr h 1 (ucast (lba (fst d) - 1)) 2 (lba (fst d)) 0" "rd32 16 h = 0"
    and e: "length e = 16384"
  shows "\<exists>r d'. write_gpt_table cfg h e d = Some (r, d') \<and> gpt_card cfg d' \<and> lba (fst d') = lba (fst d)
    \<and> data_kept d d' \<and> (r = 0 \<longrightarrow> two_tables cfg d' e)"
proof -
  let ?L = "lba (fst d)"
  have L: "68 \<le> unat ?L" using card by (simp add: gpt_card_def)
  have sub: "unat (?L - 1) = unat ?L - 1" "unat (?L - 33) = unat ?L - 33" "unat (?L - 34) = unat ?L - 34"
    using L by (simp_all add: unat_sub word_le_nat_alt)
  obtain r0 d0 where m: "set_protective_mbr cfg d = Some (r0, d0)" "gpt_card cfg d0" "lba (fst d0) = ?L"
    "\<forall>b. b \<noteq> 0 \<longrightarrow> blks d0 b = blks d b"
    using set_mbr_result [OF card] by blast
  from write_table_writes [OF assms] obtain h1 h2 where
    h1: "hdr h1 1 (ucast (?L - 1)) 2 ?L (efi_crc32 e)" "crc_right h1" and
    h2: "hdr h2 (ucast (?L - 1)) 1 (ucast (?L - 34) + 1) ?L (efi_crc32 e)" "crc_right h2" and
    w: "write_gpt_table cfg h e d = (if r0 < 0 then Some (-1, d0) else table_writes cfg ?L h1 h2 e d0)"
    using m(1) by auto
  have lens: "length h1 = 512" "length h2 = 512" using h1(1) h2(1) by (simp_all add: hdr_def)
  show ?thesis
  proof (cases "r0 < 0")
    case True
    then show ?thesis using m w by (simp add: data_kept_def)
  next
    case False
    let ?k4 = "\<lambda>d :: 'a gdev_state. Some (0 :: int, d)"
    let ?k3 = "gwrite_then cfg (?L - 1) 1 h2 (\<lambda>d. (-1, d)) ?k4"
    let ?k2 = "gwrite_then cfg (?L - 33) 32 e (\<lambda>d. (-1, d)) ?k3"
    let ?k1 = "gwrite_then cfg 2 32 e (\<lambda>d. (-1, d)) ?k2"
    have w: "write_gpt_table cfg h e d = gwrite_then cfg 1 1 h1 (\<lambda>d. (-1, d)) ?k1 d0"
      using False w by (simp add: table_writes_def)
    have r1: "unat (1 :: u32) + unat (1 :: u32) \<le> unat (lba (fst d0))" "unat (1 :: u32) * 512 \<le> length h1"
      using L m(3) lens by simp_all
    obtain ok1 d1 where x1: "gpt_card cfg d1" "lba (fst d1) = lba (fst d0)"
      "\<forall>b. \<not> (unat (1 :: u32) \<le> b \<and> b < unat (1 :: u32) + unat (1 :: u32)) \<longrightarrow> blks d1 b = blks d0 b"
      "gwrite_then cfg 1 1 h1 (\<lambda>d. (-1, d)) ?k1 d0 = (if ok1 then ?k1 d1 else Some (-1, d1))"
      "ok1 \<longrightarrow> get_blocks (blks d1) (unat (1 :: u32)) (unat (1 :: u32)) = take (unat (1 :: u32) * 512) h1"
      using gwrite_then_result [OF m(2) r1, of "\<lambda>d. (-1, d)" ?k1] by blast
    then have 1: "lba (fst d1) = ?L" "blks d1 b = blks d b \<or> b < 2" "ok1 \<longrightarrow> blks d1 1 = h1" for b
      using m(3,4) lens(1) by (auto simp: not_less)
    have r2: "unat (2 :: u32) + unat (32 :: u32) \<le> unat (lba (fst d1))" "unat (32 :: u32) * 512 \<le> length e"
      using L 1(1) e by simp_all
    obtain ok2 d2 where x2: "gpt_card cfg d2" "lba (fst d2) = lba (fst d1)"
      "\<forall>b. \<not> (unat (2 :: u32) \<le> b \<and> b < unat (2 :: u32) + unat (32 :: u32)) \<longrightarrow> blks d2 b = blks d1 b"
      "?k1 d1 = (if ok2 then ?k2 d2 else Some (-1, d2))"
      "ok2 \<longrightarrow> get_blocks (blks d2) (unat (2 :: u32)) (unat (32 :: u32)) = take (unat (32 :: u32) * 512) e"
      using gwrite_then_result [OF x1(1) r2, of "\<lambda>d. (-1, d)" ?k2] by blast
    then have 2: "lba (fst d2) = ?L" "blks d2 b = blks d1 b \<or> 2 \<le> b \<and> b < 34" "ok2 \<longrightarrow> get_blocks (blks d2) 2 32 = e" for b
      using 1 e by auto
    have r3: "unat (?L - 33) + unat (32 :: u32) \<le> unat (lba (fst d2))" using L 2(1) sub by simp
    obtain ok3 d3 where x3: "gpt_card cfg d3" "lba (fst d3) = lba (fst d2)"
      "\<forall>b. \<not> (unat (?L - 33) \<le> b \<and> b < unat (?L - 33) + unat (32 :: u32)) \<longrightarrow> blks d3 b = blks d2 b"
      "?k2 d2 = (if ok3 then ?k3 d3 else Some (-1, d3))"
      "ok3 \<longrightarrow> get_blocks (blks d3) (unat (?L - 33)) (unat (32 :: u32)) = take (unat (32 :: u32) * 512) e"
      using gwrite_then_result [OF x2(1) r3 r2(2), of "\<lambda>d. (-1, d)" ?k3] by blast
    then have 3: "lba (fst d3) = ?L" "blks d3 b = blks d2 b \<or> unat ?L - 33 \<le> b \<and> b < unat ?L - 1"
      "ok3 \<longrightarrow> get_blocks (blks d3) (unat ?L - 33) 32 = e" for b
      using 2 e sub L by auto
    have r4: "unat (?L - 1) + unat (1 :: u32) \<le> unat (lba (fst d3))" "unat (1 :: u32) * 512 \<le> length h2"
      using L 3(1) sub lens by simp_all
    obtain ok4 d4 where x4: "gpt_card cfg d4" "lba (fst d4) = lba (fst d3)"
      "\<forall>b. \<not> (unat (?L - 1) \<le> b \<and> b < unat (?L - 1) + unat (1 :: u32)) \<longrightarrow> blks d4 b = blks d3 b"
      "?k3 d3 = (if ok4 then ?k4 d4 else Some (-1, d4))"
      "ok4 \<longrightarrow> get_blocks (blks d4) (unat (?L - 1)) (unat (1 :: u32)) = take (unat (1 :: u32) * 512) h2"
      using gwrite_then_result [OF x3(1) r4, of "\<lambda>d. (-1, d)" ?k4] by blast
    then have 4: "lba (fst d4) = ?L" "blks d4 b = blks d3 b \<or> b = unat ?L - 1" "ok4 \<longrightarrow> blks d4 (unat ?L - 1) = h2" for b
      using 3(1) sub lens(2) by auto
    have keep: "b < 34 \<Longrightarrow> blks d4 b = blks d2 b" "b < unat ?L - 1 \<Longrightarrow> blks d4 b = blks d3 b" for b
      using 3(2) [of b] 4(2) [of b] L by auto
    have "two_tables cfg d4 e" if ok: "ok1" "ok2" "ok3" "ok4"
    proof (rule two_tables_on)
      show "blks d4 1 = h1" using 1(3) 2(2) [of 1] 3(2) [of 1] 4(2) [of 1] ok L by auto
      have "get_blocks (blks d4) 2 32 = get_blocks (blks d2) 2 32"
        by (rule get_blocks_cong) (simp add: keep(1))
      then show "get_blocks (blks d4) 2 32 = e" using 2(3) ok by simp
      have "get_blocks (blks d4) (unat ?L - 33) 32 = get_blocks (blks d3) (unat ?L - 33) 32"
        by (rule get_blocks_cong) (use L in \<open>simp add: keep(2)\<close>)
      then show "get_blocks (blks d4) (unat (lba (fst d4)) - 33) 32 = e" using 3(3) 4(1) ok by simp
    qed (use h1 h2 4(1,3) ok L in simp_all)
    moreover have kept: "data_kept d d1" "data_kept d d2" "data_kept d d3" "data_kept d d4"
    proof -
      have "blks d1 b = blks d b \<and> blks d2 b = blks d b \<and> blks d3 b = blks d b \<and> blks d4 b = blks d b"
        if "34 \<le> b" "b < unat ?L - 33" for b
        using 1(2) [of b] 2(2) [of b] 3(2) [of b] 4(2) [of b] that by auto
      then show "data_kept d d1" "data_kept d d2" "data_kept d d3" "data_kept d d4" by (simp_all add: data_kept_def)
    qed
    ultimately show ?thesis
      using w x1(1,4) x2(1,4) x3(1,4) x4(1,4) 1(1) 2(1) 3(1) 4(1) by (cases ok1; cases ok2; cases ok3; cases ok4) auto
  qed
qed

text \<open>On a card that answers, the writer succeeds.\<close>

lemma ready_gwrite_then:
  assumes "gpt_card cfg d" "ready_card (fst d)" "n \<noteq> 0" "unat at + unat n \<le> unat (lba (fst d))" "unat n * 512 \<le> length buf"
  shows "\<exists>d'. gpt_card cfg d' \<and> ready_card (fst d') \<and> lba (fst d') = lba (fst d) \<and> gwrite_then cfg at n buf err k d = k d'"
proof -
  obtain d' where d': "gwrite cfg at n (take (unat n * 512) buf) d = Some (n, d')" "ready_card (fst d')"
    using ready_dwrite [OF assms(2-4)] unfolding gwrite_def by blast
  then have "gpt_card cfg d'" "lba (fst d') = lba (fst d)"
    using gwrite_result [OF assms(1,4), of "take (unat n * 512) buf"] assms(5) by auto
  moreover have "gwrite_then cfg at n buf err k d = k d'"
    using d'(1) gpt_card_facts(1) [OF assms(1)] assms(5) by (simp add: gwrite_then_def)
  ultimately show ?thesis using d'(2) by blast
qed

lemma ready_set_mbr:
  assumes card: "gpt_card cfg d" and ready: "ready_card (fst d)"
  shows "\<exists>d'. set_protective_mbr cfg d = Some (0, d') \<and> gpt_card cfg d' \<and> ready_card (fst d') \<and> lba (fst d') = lba (fst d)"
proof -
  have room: "unat (0 :: u32) + unat (1 :: u32) \<le> unat (lba (fst d))" using card by (simp add: gpt_card_def)
  obtain bs d1 where r: "gread cfg 0 1 d = Some (1, bs, d1)" "ready_card (fst d1)"
    using ready_dread [OF ready _ room, of 6 "gdev cfg" read_bl_len] unfolding gread_def by auto
  then have "lba (fst d1) = lba (fst d)" using gread_result [OF card _ room] by auto
  then have room1: "unat (0 :: u32) + unat (1 :: u32) \<le> unat (lba (fst d1))" using room by simp
  have "\<exists>d2. gwrite cfg 0 1 m d1 = Some (1, d2) \<and> ready_card (fst d2)" for m
    using ready_dwrite [OF r(2) _ room1] unfolding gwrite_def by simp
  then have "\<exists>d2. set_protective_mbr cfg d = Some (0, d2) \<and> ready_card (fst d2)"
    using r(1) gpt_card_facts(1) [OF card] by (force simp: set_protective_mbr_def Let_def)
  then show ?thesis using set_mbr_result [OF card] by auto
qed

lemma ready_write_table:
  assumes "gpt_card cfg d" "ready_card (fst d)" "hdr h 1 (ucast (lba (fst d) - 1)) 2 (lba (fst d)) 0" "rd32 16 h = 0" "length e = 16384"
  shows "\<exists>d'. write_gpt_table cfg h e d = Some (0, d') \<and> ready_card (fst d')"
proof -
  let ?L = "lba (fst d)" and ?err = "\<lambda>d :: 'a gdev_state. (-1 :: int, d)"
  obtain d0 where m: "set_protective_mbr cfg d = Some (0, d0)" "gpt_card cfg d0" "ready_card (fst d0)" "lba (fst d0) = ?L"
    using ready_set_mbr [OF assms(1,2)] by blast
  from write_table_writes [OF assms(1,3-5)] obtain h1 h2 where
    h: "length h1 = 512" "length h2 = 512" "write_gpt_table cfg h e d = table_writes cfg ?L h1 h2 e d0"
    using m(1) by (auto simp: hdr_def)
  have L: "68 \<le> unat ?L" using assms(1) by (simp add: gpt_card_def)
  then have sub: "unat (?L - 1) = unat ?L - 1" "unat (?L - 33) = unat ?L - 33" by (simp_all add: unat_sub word_le_nat_alt)
  have step: "\<exists>d'. gpt_card cfg d' \<and> ready_card (fst d') \<and> lba (fst d') = ?L \<and> gwrite_then cfg at n buf ?err k d = k d'"
    if "gpt_card cfg d" "ready_card (fst d)" "lba (fst d) = ?L" "n \<noteq> 0" "unat at + unat n \<le> unat ?L" "unat n * 512 \<le> length buf"
    for d :: "'a gdev_state" and at n buf k
    using ready_gwrite_then [of cfg d n at buf ?err k] that by simp
  let ?k4 = "\<lambda>d :: 'a gdev_state. Some (0 :: int, d)"
  let ?k3 = "gwrite_then cfg (?L - 1) 1 h2 ?err ?k4"
  let ?k2 = "gwrite_then cfg (?L - 33) 32 e ?err ?k3"
  let ?k1 = "gwrite_then cfg 2 32 e ?err ?k2"
  obtain d1 where 1: "gpt_card cfg d1" "ready_card (fst d1)" "lba (fst d1) = ?L" "gwrite_then cfg 1 1 h1 ?err ?k1 d0 = ?k1 d1"
    using step [OF m(2-4), of 1 1 h1 ?k1] L h by auto
  obtain d2 where 2: "gpt_card cfg d2" "ready_card (fst d2)" "lba (fst d2) = ?L" "?k1 d1 = ?k2 d2"
    using step [OF 1(1-3), of 32 2 e ?k2] L assms(5) by auto
  obtain d3 where 3: "gpt_card cfg d3" "ready_card (fst d3)" "lba (fst d3) = ?L" "?k2 d2 = ?k3 d3"
    using step [OF 2(1-3), of 32 "?L - 33" e ?k3] L assms(5) sub by auto
  obtain d4 where 4: "ready_card (fst d4)" "?k3 d3 = ?k4 d4"
    using step [OF 3(1-3), of 1 "?L - 1" h2 ?k4] L h sub by auto
  show ?thesis using h(3) 1(4) 2(4) 3(4) 4 by (simp add: table_writes_def)
qed

section \<open>Entries\<close>

text \<open>
  The first and the last block of every partition when they are laid out from a block on; the last
  partition of no size extends to the last usable block.
\<close>

primrec layout :: "u64 \<Rightarrow> lbaint \<Rightarrow> gpt_part list \<Rightarrow> (lbaint \<times> u64) list" where
  "layout lu off [] = []"
| "layout lu off (p # ps) =
     (let st = (if gp_start p \<noteq> 0 then gp_start p else off) in
      (st, if ps = [] \<and> gp_size p = 0 then lu else ucast (st + gp_size p - 1)) # layout lu (st + gp_size p) ps)"

lemma length_layout [simp]: "length (layout lu off ps) = length ps"
  by (induction ps arbitrary: off) (simp_all add: Let_def)

lemma layout_size:
  "k < length ps \<Longrightarrow> gp_size (ps ! k) \<noteq> 0 \<Longrightarrow>
    ucast (snd (layout lu off ps ! k)) + 1 - fst (layout lu off ps ! k) = gp_size (ps ! k)"
  by (induction ps arbitrary: off k) (auto simp: Let_def nth_Cons' ucast_down_up)

definition good_name :: "gpt_part \<Rightarrow> bool" where
  "good_name p \<longleftrightarrow> length (gp_name p) = 32 \<and> 0 \<in> set (gp_name p) \<and> list_all isprint (cstr (map char_of_byte (gp_name p)))"

lemma length_entry_bytes:
  assumes "length (gp_name p) = 32" "length u = 16"
  shows "length (gpt_entry_bytes s e u p) = 128"
proof -
  have "length (concat (map (\<lambda>c. [c, 0 :: u8]) xs)) = 2 * length xs" for xs by (induction xs) simp_all
  then show ?thesis using assms by (simp add: gpt_entry_bytes_def PARTITION_BASIC_DATA_GUID_def)
qed

lemma gpt_entry_put:
  assumes "length b = 128" "128 * (i + 1) \<le> length e" "128 * (j + 1) \<le> length e"
  shows "gpt_entry (put_bytes (128 * i) b e) j = (if j = i then b else gpt_entry e j)"
proof (cases "j = i")
  case True
  then show ?thesis using assms by (simp add: gpt_entry_def get_put_same)
next
  case False
  then have "128 * j + 128 \<le> 128 * i \<or> 128 * i + length b \<le> 128 * j" using assms(1) by auto
  then show ?thesis using False assms by (simp add: gpt_entry_def get_put_other)
qed

text \<open>The entry of each partition after a successful fill.\<close>

lemma pte_loop_result:
  assumes "\<forall>p \<in> set ps. good_name p" "128 * (i + length ps) \<le> length e"
    "gpt_fill_loop cfg h ps i off e = Some (Inr e')"
  shows "length e' = length e \<and> (\<forall>j. j < i \<longrightarrow> gpt_entry e' j = gpt_entry e j)
    \<and> (\<forall>k < length ps. \<exists>u. length u = 16 \<and> gpt_entry e' (i + k) =
        gpt_entry_bytes (ucast (fst (layout (h_last_usable_lba h) off ps ! k))) (snd (layout (h_last_usable_lba h) off ps ! k)) u (ps ! k))"
  using assms
proof (induction ps arbitrary: i off e)
  case (Cons p ps)
  define st where "st = (if gp_start p \<noteq> 0 then gp_start p else off)"
  define en where "en = (if ps = [] \<and> gp_size p = 0 then h_last_usable_lba h else ucast (st + gp_size p - 1))"
  obtain u where u: "(if uuids cfg then uuid_str_to_bin (gp_uuid p) UUID_STR_FORMAT_STD else Some (get_bytes (128 * i + 16) 16 e)) = Some u"
    "gpt_fill_loop cfg h ps (i + 1) (st + gp_size p) (put_bytes (128 * i) (gpt_entry_bytes (ucast st) en u p) e) = Some (Inr e')"
    using Cons.prems(3) by (auto simp: Let_def st_def en_def split: if_splits option.splits)
  have len: "128 * (i + 1) \<le> length e" using Cons.prems(2) by simp
  have lu: "length u = 16"
    using u(1) length_uuid_bin len by (auto simp: length_get_bytes split: if_splits)
  let ?b = "gpt_entry_bytes (ucast st) en u p" and ?e = "put_bytes (128 * i) (gpt_entry_bytes (ucast st) en u p) e"
  have lb: "length ?b = 128" using length_entry_bytes [OF _ lu] Cons.prems(1) by (simp add: good_name_def)
  have le: "length ?e = length e" using lb len by simp
  have IH: "\<exists>u. length u = 16 \<and> gpt_entry e' (i + 1 + k) = gpt_entry_bytes (ucast (fst (layout (h_last_usable_lba h) (st + gp_size p) ps ! k)))
       (snd (layout (h_last_usable_lba h) (st + gp_size p) ps ! k)) u (ps ! k)" if "k < length ps" for k
    using Cons.IH [of "i + 1" ?e "st + gp_size p"] Cons.prems(1,2) u(2) le that by auto
  have IH2: "length e' = length ?e" "\<forall>j. j < i + 1 \<longrightarrow> gpt_entry e' j = gpt_entry ?e j"
    using Cons.IH [of "i + 1" ?e "st + gp_size p"] Cons.prems(1,2) u(2) le by auto
  have here: "gpt_entry e' i = ?b" using IH2(2) gpt_entry_put [OF lb len len] by simp
  have lay: "layout (h_last_usable_lba h) off (p # ps) = (st, en) # layout (h_last_usable_lba h) (st + gp_size p) ps"
    by (simp add: st_def en_def Let_def)
  have "\<forall>k < length (p # ps). \<exists>u. length u = 16 \<and> gpt_entry e' (i + k) =
      gpt_entry_bytes (ucast (fst (layout (h_last_usable_lba h) off (p # ps) ! k))) (snd (layout (h_last_usable_lba h) off (p # ps) ! k)) u ((p # ps) ! k)"
  proof (intro allI impI)
    fix k
    assume k: "k < length (p # ps)"
    show "\<exists>u. length u = 16 \<and> gpt_entry e' (i + k) =
      gpt_entry_bytes (ucast (fst (layout (h_last_usable_lba h) off (p # ps) ! k))) (snd (layout (h_last_usable_lba h) off (p # ps) ! k)) u ((p # ps) ! k)"
      using k here lu IH [of "k - 1"] unfolding lay by (cases k) auto
  qed
  moreover have "\<forall>j. j < i \<longrightarrow> gpt_entry e' j = gpt_entry e j"
    using IH2(2) gpt_entry_put [OF lb len] len by auto
  ultimately show ?case using IH2(1) le by simp
qed simp

lemma fill_loop_total:
  assumes "\<forall>p \<in> set ps. good_name p" "128 * (i + length ps) \<le> length e"
  shows "\<exists>x. gpt_fill_loop cfg h ps i off e = Some x \<and> (\<forall>r. x = Inl r \<longrightarrow> r = -1)"
  using assms
proof (induction ps arbitrary: i off e)
  case (Cons p ps)
  define st where "st = (if gp_start p \<noteq> 0 then gp_start p else off)"
  define en where "en = (if ps = [] \<and> gp_size p = 0 then h_last_usable_lba h else ucast (st + gp_size p - 1))"
  have len: "128 * (i + 1) \<le> length e" using Cons.prems(2) by simp
  have "\<exists>x. gpt_fill_loop cfg h ps (i + 1) (st + gp_size p) (put_bytes (128 * i) (gpt_entry_bytes (ucast st) en u p) e) = Some x
      \<and> (\<forall>r. x = Inl r \<longrightarrow> r = -1)"
    if "(if uuids cfg then uuid_str_to_bin (gp_uuid p) UUID_STR_FORMAT_STD else Some (get_bytes (128 * i + 16) 16 e)) = Some u" for u
  proof -
    have "length u = 16" using that length_uuid_bin len by (auto simp: length_get_bytes split: if_splits)
    then have "length (put_bytes (128 * i) (gpt_entry_bytes (ucast st) en u p) e) = length e"
      using length_entry_bytes [of p u] Cons.prems(1) len by (simp add: good_name_def)
    then show ?thesis using Cons.IH [of "i + 1" "put_bytes (128 * i) (gpt_entry_bytes (ucast st) en u p) e"] Cons.prems by simp
  qed
  then show ?case
    using len by (auto simp: Let_def st_def [symmetric] en_def [symmetric] split: option.split)
qed simp

section \<open>Reading an entry back\<close>

lemma concat_pairs_nth: "i < length xs \<Longrightarrow> concat (map (\<lambda>c. [c, z]) xs) ! (2 * i) = xs ! i"
proof (induction xs arbitrary: i)
  case (Cons x xs)
  then show ?case by (cases i) auto
qed simp

lemma length_pairs: "length (concat (map (\<lambda>c. [c, z]) xs)) = 2 * length xs"
  by (induction xs) simp_all

lemma char_of_byte_NUL [simp]: "char_of_byte b = NUL \<longleftrightarrow> b = 0"
proof -
  have "byte_of_char NUL = 0" by (simp add: byte_of_char_def)
  then show ?thesis by (metis byte_of_char_of_byte char_of_byte_of_char)
qed

lemma cstr_dots:
  "NUL \<in> set xs \<Longrightarrow> list_all isprint (cstr xs) \<Longrightarrow>
    cstr (map (\<lambda>c. if c \<noteq> NUL \<and> \<not> isprint c then CHR ''.'' else c) xs @ t) = cstr xs \<and> length (cstr xs) < length xs"
  by (induction xs) auto

lemma entry_name:
  assumes "good_name p" "length u = 16"
  shows "cstr (print_efiname (gpt_entry_bytes s e u p)) = cstr (map char_of_byte (gp_name p))"
    "length (cstr (map char_of_byte (gp_name p))) < 32"
proof -
  let ?b = "gpt_entry_bytes s e u p" and ?f = "\<lambda>c. if c \<noteq> NUL \<and> \<not> isprint c then CHR ''.'' else c"
  have n: "length (gp_name p) = 32" "NUL \<in> set (map char_of_byte (gp_name p))"
    using assms(1) by (auto simp: good_name_def image_iff) (metis char_of_byte_NUL)
  have b: "?b ! (56 + 2 * i) = (concat (map (\<lambda>c. [c, 0]) (gp_name p)) @ replicate 8 0) ! (2 * i)" for i
    using assms(2) n(1) by (simp add: gpt_entry_bytes_def PARTITION_BASIC_DATA_GUID_def nth_append)
  have nth: "i < 32 \<Longrightarrow> ?b ! (56 + 2 * i) = gp_name p ! i" for i
    using n(1) unfolding b by (simp add: nth_append length_pairs concat_pairs_nth)
  have "print_efiname ?b = map ?f (map char_of_byte (gp_name p)) @ drop 32 (print_efiname ?b)"
    using n(1) by (intro nth_equalityI) (auto simp: print_efiname_def PARTNAME_SZ_def nth_append nth)
  then show "cstr (print_efiname ?b) = cstr (map char_of_byte (gp_name p))" "length (cstr (map char_of_byte (gp_name p))) < 32"
    using cstr_dots [OF n(2), of "drop 32 (print_efiname ?b)"] assms(1) n(1) by (metis good_name_def length_map)+
qed

lemma entry_fields:
  assumes "length u = 16"
  shows "get_bytes 0 16 (gpt_entry_bytes s e u p) = PARTITION_BASIC_DATA_GUID" "get_bytes 16 16 (gpt_entry_bytes s e u p) = u"
    "rd64 32 (gpt_entry_bytes s e u p) = s" "rd64 40 (gpt_entry_bytes s e u p) = e"
    "rd64 48 (gpt_entry_bytes s e u p) = (if gp_bootable p then 4 else 0)"
  using assms by (simp_all add: gpt_entry_bytes_def get_bytes_def rd64_def PARTITION_BASIC_DATA_GUID_def)

lemma entry_info:
  assumes "good_name p" "length u = 16"
  shows "is_pte_valid (gpt_entry_bytes (ucast st) en u p)"
    "\<exists>info. efi_info_of cfg bsz (gpt_entry_bytes (ucast st) en u p) = Some info \<and> istart info = st \<and> isize info = ucast en + 1 - st
      \<and> iblksz info = bsz \<and> iname info = cstr (map char_of_byte (gp_name p)) \<and> ibootable info = gp_bootable p"
proof -
  let ?b = "gpt_entry_bytes (ucast st) en u p"
  note f = entry_fields [OF assms(2), of "ucast st" en p]
  have "hd PARTITION_BASIC_DATA_GUID \<noteq> hd (replicate 16 0)" by (simp add: PARTITION_BASIC_DATA_GUID_def)
  then show "is_pte_valid ?b" unfolding is_pte_valid_def f(1) by metis
  have bit: "bit (4 :: u64) 2" "PARTITION_BASIC_DATA_GUID \<noteq> PARTITION_SYSTEM_GUID"
    by (simp_all add: PARTITION_BASIC_DATA_GUID_def PARTITION_SYSTEM_GUID_def)
  show "\<exists>info. efi_info_of cfg bsz ?b = Some info \<and> istart info = st \<and> isize info = ucast en + 1 - st
      \<and> iblksz info = bsz \<and> iname info = cstr (map char_of_byte (gp_name p)) \<and> ibootable info = gp_bootable p"
    using entry_name(1) [OF assms, of "ucast st" en] entry_name(2) [OF assms] uuid_bin_text [of u "gram cfg" UUID_STR_FORMAT_GUID] assms(2) bit
    by (auto simp: efi_info_of_def f is_bootable_def ucast_down_up Let_def)
qed

section \<open>The partitions of a restored table\<close>

text \<open>What a reader of the table has to answer for partition \<open>k\<close>.\<close>

definition answers :: "gpt_cfg \<Rightarrow> 'c gdev_state \<Rightarrow> gpt_part list \<Rightarrow> nat \<Rightarrow> bool" where
  "answers cfg d ps k \<longleftrightarrow> (\<exists>info d'. part_get_info_efi cfg (int k + 1) d = Some (Some info, d')
     \<and> istart info = fst (layout (ucast (lba (fst d) - 34)) 34 ps ! k)
     \<and> isize info = ucast (snd (layout (ucast (lba (fst d) - 34)) 34 ps ! k)) + 1 - istart info
     \<and> iname info = cstr (map char_of_byte (gp_name (ps ! k))) \<and> ibootable info = gp_bootable (ps ! k))"

definition holds_parts :: "u8 list \<Rightarrow> lbaint \<Rightarrow> gpt_part list \<Rightarrow> bool" where
  "holds_parts e L ps \<longleftrightarrow> length e = 16384 \<and> (\<forall>k < length ps. \<exists>u. length u = 16 \<and> gpt_entry e k =
     gpt_entry_bytes (ucast (fst (layout (ucast (L - 34)) 34 ps ! k))) (snd (layout (ucast (L - 34)) 34 ps ! k)) u (ps ! k))"

lemma answers_from:
  assumes "find_gpt cfg d = Some (Some (h, e), d')" "gpt_card cfg d'" "holds_parts e (lba (fst d)) ps" "h_num_partition_entries h = 128"
    "length ps \<le> 128" "k < length ps" "\<forall>p \<in> set ps. good_name p"
  shows "answers cfg d ps k"
proof -
  have len: "length e = 16384" using assms(3) by (simp add: holds_parts_def)
  obtain u where u: "length u = 16" "gpt_entry e k = gpt_entry_bytes (ucast (fst (layout (ucast (lba (fst d) - 34)) 34 ps ! k)))
      (snd (layout (ucast (lba (fst d) - 34)) 34 ps ! k)) u (ps ! k)"
    using assms(3,6) by (auto simp: holds_parts_def)
  have "good_name (ps ! k)" using assms(6,7) by simp
  note e = entry_info [OF this u(1)]
  have k: "k < 128" using assms(5,6) by simp
  have "(of_int (int k + 1) :: u32) = of_nat (k + 1)" by simp
  moreover have "unat (of_nat (k + 1) :: u32) = k + 1" using unat_of_nat_u32 [of "k + 1"] k by simp
  moreover have "unat (128 :: u32) = 128" by simp
  ultimately have "\<not> (of_int (int k + 1) :: u32) > 128" using k by (simp only: word_less_nat_alt)
  moreover have "\<not> length e < 128 * nat (int k + 1)" "nat (int k + 1) - 1 = k" using k len by (simp_all add: nat_add_distrib)
  ultimately show ?thesis
    using assms(1,4) e(1) [of "fst (layout (ucast (lba (fst d) - 34)) 34 ps ! k)" "snd (layout (ucast (lba (fst d) - 34)) 34 ps ! k)"]
      e(2) [of cfg "blksz d'" "fst (layout (ucast (lba (fst d) - 34)) 34 ps ! k)" "snd (layout (ucast (lba (fst d) - 34)) 34 ps ! k)"] u(2)
    by (auto simp: answers_def part_get_info_efi_def Let_def)
qed

text \<open>A restore ends, and a success leaves both tables with these entries.\<close>

lemma restore_result:
  assumes card: "gpt_card cfg d" and alloc: "\<And>n. galloc cfg n" and ps: "length ps \<le> 128" "\<forall>p \<in> set ps. good_name p"
  shows "\<exists>r d'. gpt_restore cfg g ps d = Some (r, d') \<and> gpt_card cfg d' \<and> lba (fst d') = lba (fst d)
    \<and> data_kept d d' \<and> (r = 0 \<longrightarrow> (\<exists>e. holds_parts e (lba (fst d)) ps \<and> two_tables cfg d' e))"
proof -
  have sz: "unat (BLOCK_CNT 92 d * blksz d) = 512" "unat (BLOCK_CNT (of_nat (GPT_ENTRY_NUMBERS * 128)) d * blksz d) = 16384"
    using block_counts [OF card] gpt_card_facts(1) [OF card] by (simp_all add: GPT_ENTRY_NUMBERS_def)
  show ?thesis
  proof (cases "gpt_fill_header g d (replicate 512 0)")
    case (Inl ret)
    then have "ret = -1" by (auto simp: gpt_fill_header_def Let_def split: option.splits)
    then show ?thesis using Inl card sz alloc by (simp add: gpt_restore_def Let_def)
  next
    case (Inr h)
    note h = fill_header [OF Inr]
    have hl: "h_first_usable_lba h = 34" "h_last_usable_lba h = ucast (lba (fst d) - 34)" using h(1) by (simp_all add: hdr_def header_fields)
    obtain x where x: "gpt_fill_loop cfg h ps 0 34 (replicate 16384 0) = Some x" "\<forall>r. x = Inl r \<longrightarrow> r = -1"
      using fill_loop_total [OF ps(2), of 0 "replicate 16384 0" cfg h 34] ps(1) by auto
    have x': "gpt_fill_pte cfg h (replicate 16384 0) ps = Some x" using x(1) by (simp add: gpt_fill_pte_def hl)
    show ?thesis
    proof (cases x)
      case (Inl ret)
      then have "ret = -1" using x(2) by simp
      then show ?thesis using x' Inl \<open>gpt_fill_header g d (replicate 512 0) = Inr h\<close> card sz alloc by (simp add: gpt_restore_def Let_def)
    next
      case (Inr e)
      have e: "holds_parts e (lba (fst d)) ps"
        using pte_loop_result [OF ps(2) _ x(1) [unfolded Inr]] ps(1) by (simp add: holds_parts_def hl)
      then have "length e = 16384" by (simp add: holds_parts_def)
      from write_table_result [OF card h this] show ?thesis
        using x' Inr \<open>gpt_fill_header g d (replicate 512 0) = Inr h\<close> sz alloc e by (fastforce simp: gpt_restore_def Let_def)
    qed
  qed
qed

section \<open>Layouts that fit\<close>

text \<open>
  The specification of the layout, in numbers: every partition starts where the one before it ends
  or later, and ends at the limit or before it; a place is the first block and the one after the last.
\<close>

primrec fits :: "nat \<Rightarrow> nat \<Rightarrow> gpt_part list \<Rightarrow> bool" where
  "fits lim off [] = True"
| "fits lim off (p # ps) =
     (let st = (if gp_start p \<noteq> 0 then unat (gp_start p) else off) in
      off \<le> st \<and> st + unat (gp_size p) \<le> lim \<and> fits lim (st + unat (gp_size p)) ps)"

primrec places :: "nat \<Rightarrow> nat \<Rightarrow> gpt_part list \<Rightarrow> (nat \<times> nat) list" where
  "places lim off [] = []"
| "places lim off (p # ps) =
     (let st = (if gp_start p \<noteq> 0 then unat (gp_start p) else off) in
      (st, if ps = [] \<and> gp_size p = 0 then lim else st + unat (gp_size p)) # places lim (st + unat (gp_size p)) ps)"

lemma places_apart:
  "fits lim off ps \<Longrightarrow> sorted_wrt (\<lambda>a b. snd a \<le> fst b) (places lim off ps)
    \<and> (\<forall>(a, b) \<in> set (places lim off ps). off \<le> a \<and> a \<le> b \<and> b \<le> lim)"
proof (induction ps arbitrary: off)
  case (Cons p ps)
  let ?st = "if gp_start p \<noteq> 0 then unat (gp_start p) else off"
  have st: "off \<le> ?st" "?st + unat (gp_size p) \<le> lim" "fits lim (?st + unat (gp_size p)) ps"
    using Cons.prems by (simp_all add: Let_def del: unat_eq_zero)
  have IH: "sorted_wrt (\<lambda>a b. snd a \<le> fst b) (places lim (?st + unat (gp_size p)) ps)"
    "\<forall>(a, b) \<in> set (places lim (?st + unat (gp_size p)) ps). ?st + unat (gp_size p) \<le> a \<and> a \<le> b \<and> b \<le> lim"
    using Cons.IH [OF st(3)] by blast+
  show ?case using IH st(1,2) by (cases "ps = []") (fastforce simp: Let_def)+
qed simp

text \<open>Sizes for which no sum wraps at 32 bits.\<close>

definition small_parts :: "gpt_part list \<Rightarrow> bool" where
  "small_parts ps \<longleftrightarrow> (\<forall>p \<in> set ps. unat (gp_start p) + unat (gp_size p) < 2 ^ 31)"

definition good_uuids :: "gpt_cfg \<Rightarrow> gpt_part list \<Rightarrow> bool" where
  "good_uuids cfg ps \<longleftrightarrow> (uuids cfg \<longrightarrow> (\<forall>p \<in> set ps. uuid_str_to_bin (gp_uuid p) UUID_STR_FORMAT_STD \<noteq> None))"

lemma unat_place:
  assumes "unat (gp_start p) + unat (gp_size p) < 2 ^ 31" "unat (off :: u32) < 2 ^ 31"
  shows "unat ((if gp_start p \<noteq> 0 then gp_start p else off) + gp_size p)
    = (if gp_start p \<noteq> 0 then unat (gp_start p) else unat off) + unat (gp_size p)"
proof -
  have "(if gp_start p \<noteq> 0 then unat (gp_start p) else unat off) + unat (gp_size p) < 2 ^ 32" using assms by simp
  then show ?thesis by (simp add: unat_word_ariths split: if_splits)
qed

lemma fill_loop_fits:
  assumes "\<forall>p \<in> set ps. good_name p" "128 * (i + length ps) \<le> length e" "good_uuids cfg ps" "small_parts ps"
    "unat (ucast (h_last_usable_lba h) + 1 :: u32) = lim" "lim < 2 ^ 31" "unat off < 2 ^ 31"
  shows "if fits lim (unat off) ps then \<exists>e'. gpt_fill_loop cfg h ps i off e = Some (Inr e') else gpt_fill_loop cfg h ps i off e = Some (Inl (-1))"
  using assms(1-4,7)
proof (induction ps arbitrary: i off e)
  case (Cons p ps)
  define st where "st = (if gp_start p \<noteq> 0 then gp_start p else off)"
  define en where "en = (if ps = [] \<and> gp_size p = 0 then h_last_usable_lba h else ucast (st + gp_size p - 1))"
  have sp: "unat (st + gp_size p) = (if gp_start p \<noteq> 0 then unat (gp_start p) else unat off) + unat (gp_size p)"
    unfolding st_def using Cons.prems(4,5) by (intro unat_place) (simp_all add: small_parts_def)
  obtain u where u: "(if uuids cfg then uuid_str_to_bin (gp_uuid p) UUID_STR_FORMAT_STD else Some (get_bytes (128 * i + 16) 16 e)) = Some u"
    using Cons.prems(3) by (cases "uuids cfg") (auto simp: good_uuids_def)
  have len: "128 * (i + 1) \<le> length e" using Cons.prems(2) by simp
  then have "length u = 16" using u length_uuid_bin by (auto simp: length_get_bytes split: if_splits)
  then have lp: "length (put_bytes (128 * i) (gpt_entry_bytes (ucast st) en u p) e) = length e"
    using length_entry_bytes [of p u] Cons.prems(1) len by (simp add: good_name_def)
  let ?bad = "gp_start p \<noteq> 0 \<and> gp_start p < off \<or> st + gp_size p > ucast (h_last_usable_lba h) + 1"
  have step: "gpt_fill_loop cfg h (p # ps) i off e = (if ?bad then Some (Inl (-1))
      else gpt_fill_loop cfg h ps (i + 1) (st + gp_size p) (put_bytes (128 * i) (gpt_entry_bytes (ucast st) en u p) e))"
    using len u by (auto simp: Let_def st_def [symmetric] en_def [symmetric])
  have fit: "fits lim (unat off) (p # ps) \<longleftrightarrow> \<not> ?bad \<and> fits lim (unat (st + gp_size p)) ps"
    using sp assms(5) by (auto simp: Let_def word_less_nat_alt)
  show ?case
  proof (cases ?bad)
    case True
    then show ?thesis unfolding fit step by simp
  next
    case False
    then have "unat (st + gp_size p) < 2 ^ 31" using assms(5,6) by (simp add: word_less_nat_alt)
    then show ?thesis
      using Cons.IH [of "i + 1" "put_bytes (128 * i) (gpt_entry_bytes (ucast st) en u p) e" "st + gp_size p"] Cons.prems lp
      unfolding fit step if_not_P [OF False] by (simp add: good_uuids_def small_parts_def False del: de_Morgan_disj)
  qed
qed simp

lemma layout_places:
  assumes "small_parts ps" "fits lim (unat off) ps" "0 < unat off" "lim < 2 ^ 31" "unat lu + 1 = lim"
  shows "map (\<lambda>(s, e). (unat s, unat e + 1)) (layout lu off ps) = places lim (unat off) ps"
  using assms(1-3)
proof (induction ps arbitrary: off)
  case (Cons p ps)
  define st where "st = (if gp_start p \<noteq> 0 then gp_start p else off)"
  have pos: "0 < unat st" using Cons.prems(3) by (simp add: st_def unat_gt_0)
  have us: "unat st = (if gp_start p \<noteq> 0 then unat (gp_start p) else unat off)" by (simp add: st_def)
  have f: "unat off \<le> unat st" "unat st + unat (gp_size p) \<le> lim" "fits lim (unat st + unat (gp_size p)) ps"
    using Cons.prems(2) unfolding us by (simp_all add: Let_def del: unat_eq_zero)
  then have "unat st + unat (gp_size p) < 2 ^ 32" using assms(4) by simp
  then have sp: "unat (st + gp_size p) = unat st + unat (gp_size p)" by (simp add: unat_word_ariths)
  have one: "1 \<le> st + gp_size p" using sp pos by (simp add: word_le_nat_alt)
  have "unat (st + gp_size p - 1) = unat st + unat (gp_size p) - 1" unfolding unat_sub [OF one] sp by simp
  then have "unat (ucast (st + gp_size p - 1) :: u64) + 1 = unat st + unat (gp_size p)" using pos by (simp add: unat_ucast_u64)
  moreover have "map (\<lambda>(s, e). (unat s, unat e + 1)) (layout lu (st + gp_size p) ps) = places lim (unat st + unat (gp_size p)) ps"
    using Cons.IH [of "st + gp_size p"] Cons.prems(1) f(3) sp pos by (simp add: small_parts_def)
  ultimately show ?case using assms(5) by (simp add: Let_def st_def [symmetric] us [symmetric])
qed simp

section \<open>Restoring a layout\<close>

text \<open>The inputs of a restore.\<close>

definition restorable :: "gpt_cfg \<Rightarrow> char list \<Rightarrow> gpt_part list \<Rightarrow> 'c gdev_state \<Rightarrow> bool" where
  "restorable cfg g ps d \<longleftrightarrow> gpt_card cfg d \<and> unat (lba (fst d)) < 2 ^ 31 \<and> (\<forall>n. galloc cfg n)
     \<and> uuid_str_to_bin g UUID_STR_FORMAT_GUID \<noteq> None \<and> length ps \<le> 128 \<and> (\<forall>p \<in> set ps. good_name p)
     \<and> good_uuids cfg ps \<and> small_parts ps"

abbreviation places_on :: "'c gdev_state \<Rightarrow> gpt_part list \<Rightarrow> (nat \<times> nat) list" where
  "places_on d \<equiv> places (unat (lba (fst d)) - 33) 34"

abbreviation fits_on :: "'c gdev_state \<Rightarrow> gpt_part list \<Rightarrow> bool" where
  "fits_on d \<equiv> fits (unat (lba (fst d)) - 33) 34"

text \<open>The reader answers for partition \<open>k\<close> with the place and the attributes it was given.\<close>

definition gives :: "gpt_cfg \<Rightarrow> 'c gdev_state \<Rightarrow> nat \<Rightarrow> gpt_part \<Rightarrow> nat \<times> nat \<Rightarrow> bool" where
  "gives cfg d k p place \<longleftrightarrow> (\<exists>info d'. part_get_info_efi cfg (int k + 1) d = Some (Some info, d')
     \<and> (unat (istart info), unat (istart info) + unat (isize info)) = place
     \<and> iname info = cstr (map char_of_byte (gp_name p)) \<and> ibootable info = gp_bootable p)"

lemma lba_sub:
  assumes "gpt_card cfg d"
  shows "unat (lba (fst d) - 34) = unat (lba (fst d)) - 34" "unat (lba (fst d) - 33) = unat (lba (fst d)) - 33"
    "unat (ucast (lba (fst d) - 34) :: u64) + 1 = unat (lba (fst d)) - 33"
proof -
  have L: "68 \<le> unat (lba (fst d))" using assms by (simp add: gpt_card_def)
  then show 1: "unat (lba (fst d) - 34) = unat (lba (fst d)) - 34" "unat (lba (fst d) - 33) = unat (lba (fst d)) - 33"
    by (simp_all add: unat_sub word_le_nat_alt)
  then show "unat (ucast (lba (fst d) - 34) :: u64) + 1 = unat (lba (fst d)) - 33" using L by (simp add: unat_ucast_u64)
qed

lemma answers_gives:
  assumes "answers cfg d ps k" "k < length ps" "fits_on d ps" "small_parts ps" "gpt_card cfg d" "unat (lba (fst d)) < 2 ^ 31"
  shows "gives cfg d k (ps ! k) (places_on d ps ! k)"
proof -
  let ?L = "lba (fst d)"
  obtain s e where se: "layout (ucast (?L - 34)) 34 ps ! k = (s, e)" by (metis prod.exhaust)
  have pl: "map (\<lambda>(s, e). (unat s, unat e + 1)) (layout (ucast (?L - 34)) 34 ps) = places_on d ps"
    using layout_places [of ps "unat ?L - 33" 34 "ucast (?L - 34)"] assms(3,4,6) lba_sub(3) [OF assms(5)] by simp
  then have k: "places_on d ps ! k = (unat s, unat e + 1)" "k < length (places_on d ps)"
    using nth_map [of k "layout (ucast (?L - 34)) 34 ps" "\<lambda>(s, e). (unat s, unat e + 1)"] assms(2) se
    by (metis case_prod_conv length_layout, metis length_layout length_map)
  then have "(unat s, unat e + 1) \<in> set (places_on d ps)" using nth_mem by metis
  then have b: "unat s \<le> unat e + 1" "unat e + 1 \<le> unat ?L - 33" using places_apart [OF assms(3)] by auto
  then have "unat (ucast e :: u32) = unat e" using assms(6) by (simp add: unsigned_ucast_eq take_bit_nat_eq_self)
  moreover have "unat e + 1 < 2 ^ 32" using b(2) assms(6) by simp
  ultimately have e1: "unat (ucast e + 1 :: u32) = unat e + 1" by (simp add: unat_word_ariths)
  have "unat (ucast e + 1 - s) = unat e + 1 - unat s" using b(1) e1 by (simp add: unat_sub word_le_nat_alt)
  then have "unat s + unat (ucast e + 1 - s) = unat e + 1" using b(1) by simp
  then show ?thesis using assms(1) unfolding answers_def gives_def se k(1) by (metis fst_conv snd_conv)
qed

lemma restore_writes:
  assumes "restorable cfg g ps d"
  shows "if fits_on d ps then \<exists>h e. hdr h 1 (ucast (lba (fst d) - 1)) 2 (lba (fst d)) 0 \<and> rd32 16 h = 0 \<and> length e = 16384
      \<and> gpt_restore cfg g ps d = write_gpt_table cfg h e d
    else gpt_restore cfg g ps d = Some (-1, d)"
proof -
  have r: "gpt_card cfg d" "unat (lba (fst d)) < 2 ^ 31" "\<And>n. galloc cfg n" "length ps \<le> 128" "\<forall>p \<in> set ps. good_name p"
    "good_uuids cfg ps" "small_parts ps" using assms by (simp_all add: restorable_def)
  obtain h where h: "gpt_fill_header g d (replicate 512 0) = Inr h"
    using assms by (auto simp: restorable_def gpt_fill_header_def Let_def)
  note hf = fill_header [OF h]
  have hl: "h_first_usable_lba h = 34" "h_last_usable_lba h = ucast (lba (fst d) - 34)" using hf(1) by (simp_all add: hdr_def header_fields)
  have "(ucast (h_last_usable_lba h) + 1 :: u32) = lba (fst d) - 33" by (simp add: hl ucast_down_up)
  then have lim: "unat (ucast (h_last_usable_lba h) + 1 :: u32) = unat (lba (fst d)) - 33" by (simp only: lba_sub(2) [OF r(1)])
  have fill: "if fits_on d ps then \<exists>e. gpt_fill_pte cfg h (replicate 16384 0) ps = Some (Inr e)
      else gpt_fill_pte cfg h (replicate 16384 0) ps = Some (Inl (-1))"
    using fill_loop_fits [OF r(5) _ r(6,7) lim, of 0 "replicate 16384 0" 34] r(2,4) by (simp add: gpt_fill_pte_def hl)
  have sz: "unat (BLOCK_CNT 92 d * blksz d) = 512" "unat (BLOCK_CNT (of_nat (GPT_ENTRY_NUMBERS * 128)) d * blksz d) = 16384"
    using block_counts [OF r(1)] gpt_card_facts(1) [OF r(1)] by (simp_all add: GPT_ENTRY_NUMBERS_def)
  show ?thesis
  proof (cases "fits_on d ps")
    case True
    then obtain e where e: "gpt_fill_pte cfg h (replicate 16384 0) ps = Some (Inr e)" using fill by auto
    then have "gpt_fill_loop cfg h ps 0 34 (replicate 16384 0) = Some (Inr e)" by (simp add: gpt_fill_pte_def hl)
    from pte_loop_result [OF r(5) _ this] have "length e = 16384" using r(4) by simp
    moreover have "gpt_restore cfg g ps d = write_gpt_table cfg h e d" using e h sz r(3) by (simp add: gpt_restore_def Let_def)
    ultimately show ?thesis using True hf by auto
  next
    case False
    then show ?thesis using fill h sz r(3) by (simp add: gpt_restore_def Let_def)
  qed
qed

lemma restore_ready:
  assumes "restorable cfg g ps d" "ready_card (fst d)" "fits_on d ps"
  shows "\<exists>d' e. gpt_restore cfg g ps d = Some (0, d') \<and> ready_card (fst d') \<and> gpt_card cfg d' \<and> lba (fst d') = lba (fst d)
    \<and> data_kept d d' \<and> holds_parts e (lba (fst d)) ps \<and> two_tables cfg d' e"
proof -
  have r: "gpt_card cfg d" "\<And>n. galloc cfg n" "length ps \<le> 128" "\<forall>p \<in> set ps. good_name p" using assms(1) by (simp_all add: restorable_def)
  obtain h e where h: "hdr h 1 (ucast (lba (fst d) - 1)) 2 (lba (fst d)) 0" "rd32 16 h = 0" "length e = 16384"
    "gpt_restore cfg g ps d = write_gpt_table cfg h e d"
    using restore_writes [OF assms(1)] assms(3) by auto
  obtain d' where "gpt_restore cfg g ps d = Some (0, d')" "ready_card (fst d')"
    using ready_write_table [OF r(1) assms(2) h(1-3)] h(4) by auto
  then show ?thesis using restore_result [OF r, of g] by auto
qed

lemma ready_gpt_reads:
  assumes "gpt_card cfg d" "ready_card (fst d)" "unat hlba < unat (lba (fst d))" "unat ent + 32 \<le> unat (lba (fst d))"
  shows "gpt_reads cfg hlba ent d"
proof -
  have in1: "unat hlba + unat (1 :: u32) \<le> unat (lba (fst d))" using assms(3) by simp
  obtain bs d1 where 1: "gread cfg hlba 1 d = Some (1, bs, d1)" "ready_card (fst d1)"
    using ready_dread [OF assms(2) _ in1, of 6 "gdev cfg" read_bl_len] unfolding gread_def by auto
  then have "lba (fst d1) = lba (fst d)" using gread_result [OF assms(1) _ in1] by auto
  then have in2: "unat ent + unat (32 :: u32) \<le> unat (lba (fst d1))" using assms(4) by simp
  obtain bs' d2 where "gread cfg ent 32 d1 = Some (32, bs', d2)"
    using ready_dread [OF 1(2) _ in2, of 6 "gdev cfg" read_bl_len] unfolding gread_def by auto
  then show ?thesis using 1(1) by (simp add: gpt_reads_def)
qed

lemma ready_gread:
  assumes "gpt_card cfg d" "ready_card (fst d)" "n \<noteq> 0" "unat at + unat n \<le> unat (lba (fst d))"
  shows "\<exists>d'. gread cfg at n d = Some (n, get_blocks (blks d) (unat at) (unat n), d') \<and> gpt_card cfg d' \<and> ready_card (fst d')
    \<and> lba (fst d') = lba (fst d) \<and> blks d' = blks d"
proof -
  obtain bs d' where "gread cfg at n d = Some (n, bs, d')" "ready_card (fst d')"
    using ready_dread [OF assms(2-4), of 6 "gdev cfg" read_bl_len] unfolding gread_def by blast
  moreover have "0 < unat n" using assms(3) by (simp add: unat_gt_0)
  ultimately show ?thesis using gread_result [OF assms(1) _ assms(4)] by auto
qed

text \<open>The reader on two good tables, and on the backup alone.\<close>

lemma read_primary:
  assumes "gpt_card cfg d" "ready_card (fst d)" "\<And>n. galloc cfg n" "two_tables cfg d e" "holds_parts e (lba (fst d)) ps"
    "length ps \<le> 128" "\<forall>p \<in> set ps. good_name p" "k < length ps"
  shows "answers cfg d ps k"
proof -
  obtain h where h: "gpt_table cfg d 1 h e" "h_partition_entry_lba h = 2" using assms(4) by (auto simp: two_tables_def)
  have "68 \<le> unat (lba (fst d))" using assms(1) by (simp add: gpt_card_def)
  then have "gpt_reads cfg 1 (ucast (h_partition_entry_lba h)) d"
    using ready_gpt_reads [OF assms(1,2), of 1 2] by (simp add: h(2))
  from is_gpt_valid_table [OF assms(1,3) h(1) this] obtain d' where "is_gpt_valid cfg 1 d = Some (Some (h, e), d')" "gpt_card cfg d'" by blast
  then show ?thesis
    using answers_from [of cfg d h e d' ps k] assms(5-8) h(1) by (simp add: find_gpt_def gpt_table_def)
qed

definition primary_lost :: "'c gdev_state \<Rightarrow> 'c gdev_state \<Rightarrow> bool" where
  "primary_lost d d' \<longleftrightarrow> validate_gpt_header (blks d' 1) 1 (lba (fst d')) = Some False
     \<or> blks d' 1 = blks d 1 \<and> efi_crc32 (get_blocks (blks d') 2 32) \<noteq> efi_crc32 (get_blocks (blks d) 2 32)"

lemma lost_primary:
  assumes card: "gpt_card cfg d'" and ready: "ready_card (fst d')" and alloc: "\<And>n. galloc cfg n" and tab: "two_tables cfg d e"
    and lba: "lba (fst d') = lba (fst d)" and lost: "primary_lost d d'"
  shows "\<exists>d2. is_gpt_valid cfg 1 d' = Some (None, d2) \<and> gpt_card cfg d2 \<and> ready_card (fst d2) \<and> lba (fst d2) = lba (fst d')
    \<and> blks d2 = blks d'"
proof -
  have L: "68 \<le> unat (lba (fst d'))" using card by (simp add: gpt_card_def)
  obtain d1 where 1: "gread cfg 1 1 d' = Some (1, blks d' 1, d1)" "gpt_card cfg d1" "ready_card (fst d1)" "lba (fst d1) = lba (fst d')"
    "blks d1 = blks d'"
    using ready_gread [OF card ready, of 1 1] L by auto
  obtain d2 where 2: "gread cfg 2 32 d1 = Some (32, get_blocks (blks d') 2 32, d2)" "gpt_card cfg d2" "ready_card (fst d2)"
    "lba (fst d2) = lba (fst d')" "blks d2 = blks d'"
    using ready_gread [OF 1(2,3), of 32 2] L 1(4,5) by auto
  obtain h where h: "gpt_table cfg d 1 h e" "h_partition_entry_lba h = 2" using tab by (auto simp: two_tables_def)
  show ?thesis
  proof (cases "validate_gpt_header (blks d' 1) 1 (lba (fst d')) = Some False")
    case True
    then show ?thesis using 1 by (simp add: is_gpt_valid_def)
  next
    case False
    then have b: "blks d' 1 = h" "efi_crc32 (get_blocks (blks d') 2 32) \<noteq> h_partition_entry_array_crc32 h"
      using lost h by (auto simp: primary_lost_def gpt_table_def)
    have v: "validate_gpt_header h 1 (lba (fst d')) = Some True" "entries_size h = 16384"
      using h(1) lba by (simp_all add: gpt_table_def entries_size_def)
    have "length (get_blocks (blks d') 2 32) = 16384" using length_get_blocks [of "blks d'" 512 2 32] gpt_card_facts(2) [OF card] by auto
    then have "alloc_read_gpt_entries cfg h d1 = Some (Some (get_blocks (blks d') 2 32), d2)"
      "validate_gpt_entries h (get_blocks (blks d') 2 32) = Some False"
      using 2(1) alloc block_counts(1) [OF 1(2)] b(2) by (simp_all add: alloc_read_gpt_entries_def validate_gpt_entries_def v(2) h(2) Let_def)
    then show ?thesis using 1 2 b(1) v(1) by (simp add: is_gpt_valid_def)
  qed
qed

lemma read_backup:
  assumes "gpt_card cfg d'" "ready_card (fst d')" "\<And>n. galloc cfg n" "two_tables cfg d e" "holds_parts e (lba (fst d)) ps"
    "length ps \<le> 128" "\<forall>p \<in> set ps. good_name p" "k < length ps" "lba (fst d') = lba (fst d)" "primary_lost d d'"
    "\<forall>b. 34 \<le> b \<longrightarrow> blks d' b = blks d b"
  shows "answers cfg d' ps k"
proof -
  let ?L = "lba (fst d)"
  obtain d2 where v: "is_gpt_valid cfg 1 d' = Some (None, d2)" "gpt_card cfg d2" "ready_card (fst d2)" "lba (fst d2) = ?L" "blks d2 = blks d'"
    using lost_primary [OF assms(1-4,9,10)] assms(9) by auto
  obtain h where h: "gpt_table cfg d (?L - 1) h e" "ucast (h_partition_entry_lba h) = ?L - 33" using assms(4) by (auto simp: two_tables_def)
  have L: "68 \<le> unat ?L" using assms(1,9) by (simp add: gpt_card_def)
  then have sub: "unat (?L - 1) = unat ?L - 1" "unat (?L - 33) = unat ?L - 33" by (simp_all add: unat_sub word_le_nat_alt)
  have "get_blocks (blks d2) (unat ?L - 33) 32 = get_blocks (blks d) (unat ?L - 33) 32"
    by (rule get_blocks_cong) (use assms(11) v(5) L in simp)
  moreover have "blks d2 (unat ?L - 1) = blks d (unat ?L - 1)" using assms(11) v(5) L by simp
  ultimately have t: "gpt_table cfg d2 (?L - 1) h e" using h sub v(4) by (simp add: gpt_table_def)
  have "gpt_reads cfg (?L - 1) (ucast (h_partition_entry_lba h)) d2"
    using ready_gpt_reads [OF v(2,3), of "?L - 1" "?L - 33"] L sub v(4) by (simp add: h(2))
  from is_gpt_valid_table [OF v(2) assms(3) t this] obtain d3 where "is_gpt_valid cfg (?L - 1) d2 = Some (Some (h, e), d3)" "gpt_card cfg d3"
    by blast
  then show ?thesis
    using answers_from [of cfg d' h e d3 ps k] assms(5-9) h(1) v(1,4) by (simp add: find_gpt_def gpt_table_def)
qed

text \<open>A card of 128 blocks that answers every command, and two partitions on it.\<close>

definition gpt_demo :: "unit gdev_state" where
  "gpt_demo = (card512\<lparr>lba := 128\<rparr>, blkcache_init)"

definition gpt_demo_cfg :: gpt_cfg where
  "gpt_demo_cfg = \<lparr>gdev = 0, uuids = True, galloc = (\<lambda>_. True), gram = (\<lambda>_. 0)\<rparr>"

definition gpt_demo_guid :: "char list" where
  "gpt_demo_guid = ''2ab9ac75-0b7c-4f2e-8e43-0f4c2d1e7a90''"

definition gpt_demo_parts :: "gpt_part list" where
  "gpt_demo_parts =
     [\<lparr>gp_start = 40, gp_size = 10, gp_name = map byte_of_char ''boot'' @ replicate 28 0, gp_bootable = True, gp_uuid = gpt_demo_guid\<rparr>,
      \<lparr>gp_start = 0, gp_size = 0, gp_name = map byte_of_char ''data'' @ replicate 28 0, gp_bootable = False, gp_uuid = gpt_demo_guid\<rparr>]"

lemma gpt_demo_ready: "ready_card (fst gpt_demo)"
  by (simp add: ready_card_def gpt_demo_def card512_def ram_mmc_def ram_send_def)

lemma gpt_demo_card: "gpt_card gpt_demo_cfg gpt_demo"
proof -
  have "card_ok (card512\<lparr>lba := 128\<rparr>) = card_ok card512"
    by (rule card_ok_fields) (simp_all add: dev_block_def erase_unit_def fun_eq_iff)
  then have "mmc_wf (card512\<lparr>lba := 128\<rparr>)" using card512_wf by (simp add: mmc_wf_def) (simp add: card512_def ram_mmc_def)
  then show ?thesis
    by (simp add: gpt_card_def gpt_demo_def cmmc_inv_def cache_ok_def blkcache_init_def) (simp add: card512_def ram_mmc_def)
qed

lemma gpt_demo_restorable: "restorable gpt_demo_cfg gpt_demo_guid gpt_demo_parts gpt_demo"
proof -
  have "uuid_str_valid gpt_demo_guid" by code_simp
  then have u: "\<exists>u. uuid_str_to_bin gpt_demo_guid fmt = Some u" for fmt by (simp add: uuid_str_to_bin_def Let_def)
  have n: "list_all good_name gpt_demo_parts" by code_simp
  have "lba (fst gpt_demo) = 128" by (simp add: gpt_demo_def)
  then show ?thesis
    using gpt_demo_card u n
    by (simp add: restorable_def gpt_demo_cfg_def good_uuids_def small_parts_def list_all_iff) (simp add: gpt_demo_parts_def)
qed

lemma gpt_demo_fits: "fits_on gpt_demo gpt_demo_parts" "places_on gpt_demo gpt_demo_parts = [(40, 50), (50, 95)]"
  "length gpt_demo_parts = 2"
  by (simp_all add: gpt_demo_def gpt_demo_parts_def)

text \<open>
  Two limits of the writer. The unique GUID of an entry is stored in the byte order of
  \<open>UUID_STR_FORMAT_STD\<close> and read in that of \<open>UUID_STR_FORMAT_GUID\<close>, so it is not the one that was given.
  Without the bound on the sizes a sum that wraps passes the check against the last usable block.
\<close>

lemma partition_uuid_swapped:
  assumes "length c = 16"
  shows "uuid_str_to_bin (uuid_text c) UUID_STR_FORMAT_STD = Some c"
    "uuid_bin_to_str m c UUID_STR_FORMAT_GUID = Some (uuid_text (map ((!) c) [3, 2, 1, 0, 5, 4, 7, 6, 8, 9, 10, 11, 12, 13, 14, 15]))"
  using uuid_text_bin(1) [OF assms] uuid_bin_text [OF assms, of m UUID_STR_FORMAT_GUID] by (simp_all add: char_order_def)

lemma wrapped_size_accepted:
  "case gpt_fill_loop (gpt_demo_cfg\<lparr>uuids := False\<rparr>) (wr64 48 94 (wr64 40 34 (replicate 92 0)))
      [\<lparr>gp_start = 40, gp_size = 0xffffffff, gp_name = replicate 32 0, gp_bootable = False, gp_uuid = []\<rparr>] 0 34 (replicate 128 0) of
     Some (Inr e) \<Rightarrow> rd64 32 e = 40 \<and> rd64 40 e = 38
   | _ \<Rightarrow> False"
  by code_simp

text \<open>The card with the primary header wiped.\<close>

definition wiped :: "'c gdev_state \<Rightarrow> 'c gdev_state" where
  "wiped d = ((fst d)\<lparr>card := (card (fst d))\<lparr>cells := (\<lambda>p b. if b = 1 then replicate 512 0 else cells (card (fst d)) p b)\<rparr>\<rparr>, blkcache_init)"

lemma wiped_card:
  assumes "gpt_card cfg d" "ready_card (fst d)"
  shows "gpt_card cfg (wiped d)" "ready_card (fst (wiped d))" "lba (fst (wiped d)) = lba (fst d)"
    "\<forall>b. 34 \<le> b \<longrightarrow> blks (wiped d) b = blks d b" "primary_lost d (wiped d)"
proof -
  have wf: "mmc_wf (fst d)" "write_bl_len (fst d) = 512" using assms(1) by (simp_all add: gpt_card_def cmmc_inv_def)
  then have "card_step (fst d) (fst (wiped d))" by (auto simp: card_step_def wiped_def mmc_wf_def)
  then have "mmc_wf (fst (wiped d))" using mmc_wf_step wf(1) by blast
  then show "gpt_card cfg (wiped d)"
    using assms(1) wf by (simp add: gpt_card_def cmmc_inv_def) (simp add: wiped_def cache_ok_def blkcache_init_def mmc_wf_def)
  have "same_host (fst d) (fst (wiped d))" by (auto simp: same_host_def wiped_def)
  then show "ready_card (fst (wiped d))" "lba (fst (wiped d)) = lba (fst d)" using same_hostD assms(2) by blast+
  show "\<forall>b. 34 \<le> b \<longrightarrow> blks (wiped d) b = blks d b" by (simp add: wiped_def mmc_cells_def)
  have "blks (wiped d) 1 = replicate 512 0" by (simp add: wiped_def mmc_cells_def)
  moreover have "rd64 0 (replicate 512 0) \<noteq> GPT_HEADER_SIGNATURE" by code_simp
  ultimately show "primary_lost d (wiped d)" by (simp add: primary_lost_def validate_gpt_header_def)
qed

text \<open>
  C11: On a card that answers, restoring a layout that fits succeeds, keeps every block between the
  two tables, and afterwards each partition is found under its number, at its place, with its name
  and its boot flag.
\<close>

theorem gpt_restore_info:
  assumes "restorable cfg g ps d" "ready_card (fst d)" "fits_on d ps"
  shows "\<exists>d'. gpt_restore cfg g ps d = Some (0, d') \<and> data_kept d d'
    \<and> (\<forall>k < length ps. gives cfg d' k (ps ! k) (places_on d ps ! k))"
proof -
  have r: "\<And>n. galloc cfg n" "length ps \<le> 128" "\<forall>p \<in> set ps. good_name p" "small_parts ps" "unat (lba (fst d)) < 2 ^ 31"
    using assms(1) by (simp_all add: restorable_def)
  obtain d' e where d: "gpt_restore cfg g ps d = Some (0, d')" "ready_card (fst d')" "gpt_card cfg d'" "lba (fst d') = lba (fst d)"
    "data_kept d d'" "holds_parts e (lba (fst d)) ps" "two_tables cfg d' e"
    using restore_ready [OF assms] by blast
  have "gives cfg d' k (ps ! k) (places_on d ps ! k)" if "k < length ps" for k
    using read_primary [OF d(3,2) r(1) d(7) _ r(2,3) that] answers_gives [of cfg d' ps k] d(3,4,6) that assms(3) r(4,5) by simp
  then show ?thesis using d(1,5) by blast
qed

theorem gpt_restore_info_witness:
  "\<exists>d'. gpt_restore gpt_demo_cfg gpt_demo_guid gpt_demo_parts gpt_demo = Some (0, d') \<and> data_kept gpt_demo d'
    \<and> gives gpt_demo_cfg d' 0 (gpt_demo_parts ! 0) (40, 50) \<and> gives gpt_demo_cfg d' 1 (gpt_demo_parts ! 1) (50, 95)"
proof -
  obtain d' where d: "gpt_restore gpt_demo_cfg gpt_demo_guid gpt_demo_parts gpt_demo = Some (0, d')" "data_kept gpt_demo d'"
    "\<forall>k < length gpt_demo_parts. gives gpt_demo_cfg d' k (gpt_demo_parts ! k) (places_on gpt_demo gpt_demo_parts ! k)"
    using gpt_restore_info [OF gpt_demo_restorable gpt_demo_ready gpt_demo_fits(1)] by blast
  from d(3) [rule_format, of 0] d(3) [rule_format, of 1] show ?thesis using d(1,2) by (simp add: gpt_demo_fits(2,3))
qed

text \<open>
  C12: The backup table is a full replacement: when the primary header no longer validates, or the
  header is as written and the primary entries no longer have their checksum, every partition is
  still found with its place, name and boot flag.
\<close>

theorem gpt_backup_survives:
  assumes "restorable cfg g ps d" "ready_card (fst d)" "fits_on d ps" "gpt_restore cfg g ps d = Some (r, d')"
    and "gpt_card cfg d2" "ready_card (fst d2)" "lba (fst d2) = lba (fst d)" "\<forall>b. 34 \<le> b \<longrightarrow> blks d2 b = blks d' b"
    and "primary_lost d' d2" "k < length ps"
  shows "gives cfg d2 k (ps ! k) (places_on d ps ! k)"
proof -
  have p: "\<And>n. galloc cfg n" "length ps \<le> 128" "\<forall>p \<in> set ps. good_name p" "small_parts ps" "unat (lba (fst d)) < 2 ^ 31"
    using assms(1) by (simp_all add: restorable_def)
  obtain e where d: "lba (fst d') = lba (fst d)" "holds_parts e (lba (fst d)) ps" "two_tables cfg d' e"
    using restore_ready [OF assms(1-3)] assms(4) by auto
  have "answers cfg d2 ps k"
    using read_backup [OF assms(5,6) p(1) d(3) _ p(2,3) assms(10) _ assms(9,8)] d(1,2) assms(7) by simp
  then show ?thesis using answers_gives [of cfg d2 ps k] assms(3,5,7,10) p(4,5) by simp
qed

theorem gpt_backup_survives_witness:
  "\<exists>d'. gpt_restore gpt_demo_cfg gpt_demo_guid gpt_demo_parts gpt_demo = Some (0, d')
    \<and> gives gpt_demo_cfg (wiped d') 1 (gpt_demo_parts ! 1) (50, 95)"
proof -
  obtain d' where d: "gpt_restore gpt_demo_cfg gpt_demo_guid gpt_demo_parts gpt_demo = Some (0, d')" "ready_card (fst d')"
    "gpt_card gpt_demo_cfg d'" "lba (fst d') = lba (fst gpt_demo)"
    using restore_ready [OF gpt_demo_restorable gpt_demo_ready gpt_demo_fits(1)] by blast
  note w = wiped_card [OF d(3,2)]
  have "gives gpt_demo_cfg (wiped d') 1 (gpt_demo_parts ! 1) (places_on gpt_demo gpt_demo_parts ! 1)"
    by (rule gpt_backup_survives [OF gpt_demo_restorable gpt_demo_ready gpt_demo_fits(1) d(1) w(1,2) _ w(4,5)])
      (simp_all add: w(3) d(4) gpt_demo_fits(3))
  then show ?thesis using d(1) by (auto simp: gpt_demo_fits(2))
qed





end
