(* ===== verification/Spec2Isabelle.thy ===== *)
theory Spec2Isabelle
  imports C_Printf Env_Mmc Fb_Session Gpt_Restore
begin

text \<open>
  A verification library for the fastboot gadget of the U-Boot fork
  \<^verbatim>\<open>src/uboot-imx_fastboot\<close>, the program that the flashing tool of this repository loads into an
  i.MX6ULL board and then drives over USB, and for the library and driver code it stands on.

  \<^bold>\<open>How the program works.\<close> The host sends a command as one USB packet. \<open>rx_handler_command\<close> looks it
  up in a table and calls the callback. \<open>download:\<close> switches the receiving handler so that the
  following packets are stored in memory; \<open>flash:\<close> looks the partition up in a table built from the
  device and writes the stored image, raw or sparse, through the \<open>mmc write\<close> command or the block
  layer, which goes through a cache to the MMC driver; \<open>erase:\<close>, \<open>getvar:\<close>, \<open>oem\<close> and \<open>flashing\<close>
  erase, report and lock. Answers are queued in a linked list of USB requests. Settings live in the
  environment, a hash table with a text form that can be imported and exported, and that is kept on
  the card with a checksum, in one copy or in two. The partitions of the card are described by a GUID
  partition table in two copies, which the board writes, checks and reads.

  \<^bold>\<open>Conventions.\<close> Machine words keep their width (\<open>unsigned long\<close> has 32 bits on the target). Memory
  is a function from 32-bit addresses to bytes, a C buffer with a known size a list. Loops are
  recursive functions with a termination proof; where a loop may run forever it is a
  \<open>partial_function\<close> into \<open>option\<close>, so no fuel is chosen anywhere, and the theorems prove that the
  result exists where they claim one. \<open>None\<close> also stands for an access the C standard leaves undefined:
  a theorem that gives \<open>Some\<close> shows that no such access happens. Drivers and boards that cannot be read
  off the sources of the gadget are arguments: fields of \<open>board\<close>, \<open>usb_env\<close>, \<open>env_hooks\<close> and the
  card of \<open>mmc\<close>. What a theorem needs of them stands as a named predicate in its hypotheses, and its
  witness gives a concrete instance.

  \<^bold>\<open>C library.\<close>
  \<^item> \<open>UB_Prelude\<close>: words, bytes, memory, strings in buffers, shared list and word lemmas.
  \<^item> \<open>C_String\<close> and \<open>C_Memory\<close>: \<^verbatim>\<open>lib/string.c\<close>; each routine against its list reading,
    \<open>memmove\<close> on overlapping areas.
  \<^item> \<open>C_Number\<close>: \<^verbatim>\<open>lib/ctype.c\<close>, \<^verbatim>\<open>lib/strto.c\<close>; parsers read back what is printed.
  \<^item> \<open>C_Printf\<close>, \<open>C_Hex\<close>: \<^verbatim>\<open>lib/vsprintf.c\<close>; the output is bounded by the buffer, terminated, and the
    length is that of the full text; \<open>%x\<close> and \<open>%08x\<close> are inverse to the parser.
  \<^item> \<open>C_Sort\<close>: \<^verbatim>\<open>lib/qsort.c\<close>; the result is a sorted permutation for every comparison that meets
    the locale \<open>comparator\<close>, which \<open>Env_Import\<close> interprets with \<open>cmpkey\<close>.
  \<^item> \<open>C_Crc\<close>: \<^verbatim>\<open>lib/crc32.c\<close>; the table-driven checksum over words is the division by the polynomial
    bit by bit, and every error within four bytes changes it.
  \<^item> \<open>Uuid\<close>: \<^verbatim>\<open>lib/uuid.c\<close>; what is printed is parsed back. \<open>Byte_Fields\<close>: fields of packed structures
    in a buffer, with the laws of reading after writing.

  \<^bold>\<open>Environment.\<close>
  \<^item> \<open>Env_Hash\<close>: \<^verbatim>\<open>lib/hashtable.c\<close>, open addressing with double hashing. Invariant \<open>hinv\<close>, abstraction
    \<open>habs\<close> to a finite map; search, insert, overwrite and delete refine the map operations, and the
    search for a prime ends.
  \<^item> \<open>Env_Store\<close>: the locale \<open>env_store\<close> of what clients use; \<open>Env\<close>: \<^verbatim>\<open>cmd/nvedit.c\<close>, which
    interprets it.
  \<^item> \<open>Env_Import\<close>: \<open>hexport_r\<close>, \<open>himport_r\<close>, \<open>hwalk_r\<close>; an import after an export restores the map,
    the export is sorted and never exceeds its buffer.
  \<^item> \<open>Env_Mmc\<close>: \<^verbatim>\<open>common/env_common.c\<close>, \<^verbatim>\<open>common/env_mmc.c\<close>; saving, and finding the variables at the
    next boot. What was saved is found; with two copies a save is atomic, also across the wrap of the
    serial number.

  \<^bold>\<open>Storage.\<close>
  \<^item> \<open>Block_Device\<close>: the locale \<open>block_device\<close>, reads and writes of blocks with partial results.
  \<^item> \<open>Mmc\<close>: \<^verbatim>\<open>drivers/mmc/mmc.c\<close> and \<^verbatim>\<open>drivers/mmc/mmc_write.c\<close>, the transfer loops over a card that
    answers commands; interprets \<open>block_device\<close>. Writes stay within their blocks and are read back.
  \<^item> \<open>Blk_Cache\<close>: \<^verbatim>\<open>drivers/block/blkcache.c\<close>; a device with the cache in front is again a
    \<open>block_device\<close>, so a read through the cache is a read of the device.
  \<^item> \<open>Mmc_Ready\<close>: on a card that answers every command no transfer falls short.
  \<^item> \<open>Gpt\<close>: \<^verbatim>\<open>disk/part_efi.c\<close> on a card behind the cache, every function but the one that only prints.
    \<open>Gpt_Restore\<close>: a restore against a specification of the layout in natural numbers (\<open>fits\<close>,
    \<open>places\<close>): the partitions that are written are the ones that are found, the backup table replaces
    a damaged primary one, nothing between the tables changes, and a card that fails is reported. The
    lemmas \<open>partition_uuid_swapped\<close> and \<open>wrapped_size_accepted\<close> show two limits of the writer; the bound
    \<open>2 ^ 31\<close> of \<open>restorable\<close> keeps sums of block numbers below the wrap that the second one uses.
  \<^item> \<open>Sparse\<close>: \<^verbatim>\<open>common/image-sparse.c\<close> over the locale \<open>sparse_backend\<close>; \<open>Fb_Sparse\<close>:
    \<open>mmc_sparse_write\<close>, which interprets it. The partition becomes the expansion of the image.

  \<^bold>\<open>The gadget\<close>, \<^verbatim>\<open>drivers/usb/gadget/f_fastboot.c\<close> and \<^verbatim>\<open>fastboot_lock_unlock.c\<close>.
  \<^item> \<open>Fb_Ptable\<close>: the partition table and its loading. \<open>Fb_ParseEnv\<close>: the text of an environment
    partition.
  \<^item> \<open>Fb_Tx\<close>: requests and the linked list of answers, a queue by the locale \<open>msg_queue\<close>.
  \<^item> \<open>Fb_State\<close>: the globals, the machine and the parameters of the board.
  \<^item> \<open>Fb_Flash\<close>: erasing and flashing. \<open>Fb_Download\<close>: the packets of an image. \<open>Fb_Lock\<close>: the lock
    state on the card. \<open>Fb_Getvar\<close>: the variables.
  \<^item> \<open>Fb_Command\<close>: the callbacks, the dispatch and the runs \<open>gadget_run\<close> of events, with the locale
    \<open>gadget_invariant\<close> for invariants of all runs. It is interpreted for the lock (a locked device
    keeps its blocks) and in \<open>Fb_Types\<close> for the bounds of the globals.
  \<^item> \<open>Fb_Session\<close>: a download followed by a flash, from the packets to the blocks of the card.

  \<^bold>\<open>Not modelled.\<close> The graphical front ends under \<^verbatim>\<open>src/GUI_sources\<close> and the host tool: separate
  programs of the host, which only send the commands. Host controllers, card initialisation and mode
  switching, the USB controller and the composite layer: hardware access, parameters here. The command
  interpreter (\<^verbatim>\<open>common/cli_hush.c\<close>): the gadget uses it through \<open>run_command\<close>, a parameter. Flashing a
  whole partition table reaches \<open>write_backup_gpt_partitions\<close> through a field of \<open>board\<close>; \<open>Gpt\<close> models
  its body on the card. SATA storage, firmware partitions, CAAM encryption of the lock, Trusty, AVB,
  Android Things and partition type GUIDs: parts of other builds. The environment on other storage
  than MMC, and random UUIDs. Booting an image (\<open>do_boota\<close>), resetting and the boot mode: they leave
  the program. Console output and delays have no effect on the state.
\<close>

end
